(* ===== verification/Redis_Base.thy ===== *)
theory Redis_Base
  imports Main "HOL-Library.Word" "HOL-Library.Multiset"
begin

unbundle bit_operations_syntax

text \<open>
  The prelude of the development: the machine types of the C program (bytes, \<open>size_t\<close>,
  \<open>int64_t\<close>), C string literals, the status code of the functions that return 0 or -1,
  the allocator (\<open>malloc\<close>, \<open>free\<close>, \<open>realloc\<close> as an explicit state with an oracle
  of failures), the decimal conversions \<open>%zu\<close> and \<open>%lld\<close> of \<open>printf\<close>, and the lemmas
  on them that the components share.
\<close>

named_theorems word_nat \<open>facts that read size_t arithmetic as arithmetic on nat\<close>

section \<open>Machine types\<close>

type_synonym byte = "8 word"
type_synonym bytes = "byte list"
type_synonym size_t = "64 word"
type_synonym addr = nat

text \<open>The functions of the program that return \<open>0\<close> on success and \<open>-1\<close> on failure.\<close>

datatype rc = RC_OK | RC_ERR

definition size_of :: "bytes \<Rightarrow> size_t" where
  "size_of xs = word_of_nat (length xs)"

definition SIZE_MAX :: nat where
  "SIZE_MAX = 18446744073709551615"

definition INT64_MAX :: int where
  "INT64_MAX = 9223372036854775807"

definition INT64_MIN :: int where
  "INT64_MIN = - 9223372036854775808"

definition int64_range :: "int \<Rightarrow> bool" where
  "int64_range i \<longleftrightarrow> INT64_MIN \<le> i \<and> i \<le> INT64_MAX"

text \<open>The cast \<open>(int64_t)n\<close> of a \<open>size_t\<close>: two's complement reading.\<close>

definition int64_of_size :: "size_t \<Rightarrow> int" where
  "int64_of_size n = sint n"

text \<open>A C string literal, without its terminating NUL.\<close>

definition cstr :: "string \<Rightarrow> bytes" where
  "cstr s = map of_char s"

definition CR :: byte where "CR = 13"
definition LF :: byte where "LF = 10"

definition crlf :: bytes where
  "crlf = [CR, LF]"

section \<open>The allocator\<close>

text \<open>
  Addresses are numbers that are never reused. \<open>m_outcomes\<close> says which of the next
  allocations succeed; once it is used up every allocation succeeds, so that every finite
  run of the program under any pattern of failures is the run of some \<open>mem\<close>. \<open>m_live\<close>
  are the blocks allocated and not yet freed, and \<open>m_bad\<close> records that the program freed a
  block that was not live (a double free).
\<close>

record mem =
  m_outcomes :: "bool list"
  m_next :: addr
  m_live :: "addr set"
  m_bad :: bool

definition mem_init :: "bool list \<Rightarrow> mem" where
  "mem_init os = \<lparr>m_outcomes = os, m_next = 0, m_live = {}, m_bad = False\<rparr>"

definition mem_fresh :: "mem \<Rightarrow> addr option \<times> mem" where
  "mem_fresh m = (Some (m_next m),
     m\<lparr>m_next := Suc (m_next m), m_live := insert (m_next m) (m_live m)\<rparr>)"

definition malloc :: "mem \<Rightarrow> addr option \<times> mem" where
  "malloc m = (case m_outcomes m of
     [] \<Rightarrow> mem_fresh m
   | b # os \<Rightarrow> (if b then mem_fresh (m\<lparr>m_outcomes := os\<rparr>) else (None, m\<lparr>m_outcomes := os\<rparr>)))"

definition mfree :: "addr \<Rightarrow> mem \<Rightarrow> mem" where
  "mfree a m = (if a \<in> m_live m then m\<lparr>m_live := m_live m - {a}\<rparr> else m\<lparr>m_bad := True\<rparr>)"

text \<open>\<open>free(NULL)\<close> does nothing.\<close>

definition mfree_opt :: "addr option \<Rightarrow> mem \<Rightarrow> mem" where
  "mfree_opt p m = (case p of None \<Rightarrow> m | Some a \<Rightarrow> mfree a m)"

text \<open>\<open>realloc\<close>: a new block and the old one released, or NULL and nothing changed.\<close>

definition mrealloc :: "addr option \<Rightarrow> mem \<Rightarrow> addr option \<times> mem" where
  "mrealloc p m = (case malloc m of
     (None, m') \<Rightarrow> (None, m')
   | (Some a, m') \<Rightarrow> (Some a, mfree_opt p m'))"

text \<open>No allocation will fail.\<close>

definition mem_plenty :: "mem \<Rightarrow> bool" where
  "mem_plenty m \<longleftrightarrow> False \<notin> set (m_outcomes m)"

text \<open>
  A frame is the rest of the program: its live blocks, and an address the allocator has reached
  already, so that the blocks allocated from then on are none of those seen before. \<open>owns m xs F\<close>:
  the live blocks are exactly the (distinct) blocks \<open>xs\<close> of the component in question and those of
  the frame; nothing was freed twice.
\<close>

datatype frame = Frame (fr_live: "addr set") (fr_next: addr)

definition owns :: "mem \<Rightarrow> addr list \<Rightarrow> frame \<Rightarrow> bool" where
  "owns m xs F \<longleftrightarrow> distinct xs \<and> set xs \<inter> fr_live F = {} \<and> m_live m = set xs \<union> fr_live F \<and>
     (\<forall>a\<in>m_live m. a < m_next m) \<and> fr_next F \<le> m_next m \<and> \<not> m_bad m"

text \<open>No other block is live.\<close>

definition alone :: frame where
  "alone = Frame {} 0"

text \<open>The frame with further blocks.\<close>

definition beside :: "addr list \<Rightarrow> frame \<Rightarrow> frame" where
  "beside ys F = Frame (set ys \<union> fr_live F) (fr_next F)"

text \<open>\<open>memcpy\<close> of \<open>src\<close> to offset \<open>pos\<close> of an array.\<close>

definition blit :: "bytes \<Rightarrow> nat \<Rightarrow> bytes \<Rightarrow> bytes" where
  "blit dst pos src = take pos dst @ src @ drop (pos + length src) dst"

section \<open>Decimal conversions\<close>

fun dec_digits :: "nat \<Rightarrow> bytes" where
  "dec_digits n = (if n < 10 then [48 + word_of_nat n]
     else dec_digits (n div 10) @ [48 + word_of_nat (n mod 10)])"

declare dec_digits.simps [simp del]

text \<open>The number a string of digits denotes.\<close>

definition dec_value :: "nat \<Rightarrow> bytes \<Rightarrow> nat" where
  "dec_value a ds = foldl (\<lambda>v c. v * 10 + unat (c - 48)) a ds"

definition is_digit :: "byte \<Rightarrow> bool" where
  "is_digit c \<longleftrightarrow> 48 \<le> c \<and> c \<le> 57"

text \<open>\<open>%zu\<close>, and \<open>%lld\<close> (\<open>PRId64\<close>).\<close>

definition fmt_zu :: "size_t \<Rightarrow> bytes" where
  "fmt_zu n = dec_digits (unat n)"

definition fmt_d64 :: "int \<Rightarrow> bytes" where
  "fmt_d64 i = (if i < 0 then 45 # dec_digits (nat (- i)) else dec_digits (nat i))"

section \<open>Lemmas on words and lists\<close>

lemmas word_order_nat [word_nat] = word_le_nat_alt word_less_nat_alt

lemma unat_sub_le [word_nat]: "(b::size_t) \<le> a \<Longrightarrow> unat (a - b) = unat a - unat b"
  by (rule unat_sub)

lemma unat_add_bound [word_nat]:
  "unat (a::size_t) + unat b \<le> SIZE_MAX \<Longrightarrow> unat (a + b) = unat a + unat b"
  by (simp add: unat_word_ariths SIZE_MAX_def)

lemma unat_word_of_nat_size [word_nat]: "n \<le> SIZE_MAX \<Longrightarrow> unat (word_of_nat n :: size_t) = n"
  by (simp add: unat_of_nat SIZE_MAX_def)

lemma unat_size_of [word_nat]: "length xs \<le> SIZE_MAX \<Longrightarrow> unat (size_of xs) = length xs"
  by (simp add: size_of_def unat_word_of_nat_size)

lemma unat_size_t_max [simp]: "unat (n :: size_t) \<le> SIZE_MAX"
proof -
  have "unat n < 2 ^ LENGTH(64)" by (rule unsigned_less)
  then show ?thesis by (simp add: SIZE_MAX_def)
qed

lemma unat_size_of_le: "unat (size_of xs) \<le> length xs"
  by (simp add: size_of_def unat_of_nat)

lemma size_of_Nil [simp]: "size_of [] = 0"
  by (simp add: size_of_def)

lemma int64_of_size_eq: "unat n < 2 ^ 63 \<Longrightarrow> int64_of_size n = int (unat n)"
proof -
  assume "unat n < 2 ^ 63"
  then have "uint n < 2 ^ 63" by (metis of_nat_less_iff of_nat_numeral of_nat_power uint_nat)
  moreover have "- (2 ^ 63) \<le> (0::int)" by simp
  then have "- (2 ^ 63) \<le> uint n" by (rule order_trans) simp
  ultimately have "signed_take_bit 63 (uint n) = uint n"
    by (intro signed_take_bit_int_eq_self)
  then show ?thesis by (simp add: int64_of_size_def sint_uint)
qed

lemma length_blit [simp]: "pos + length src \<le> length dst \<Longrightarrow> length (blit dst pos src) = length dst"
  by (simp add: blit_def)

lemma take_blit [simp]: "k \<le> pos \<Longrightarrow> pos \<le> length dst \<Longrightarrow> take k (blit dst pos src) = take k dst"
  by (simp add: blit_def min_def)

lemma take_blit_end:
  "pos \<le> length dst \<Longrightarrow> take (pos + length src) (blit dst pos src) = take pos dst @ src"
  by (simp add: blit_def)

lemma blit_at_0: "blit dst 0 src = src @ drop (length src) dst"
  by (simp add: blit_def)

lemma length_crlf [simp]: "length crlf = 2"
  by (simp add: crlf_def)

lemma if_Some_elim: "(if P then Some a else E) = Some d \<Longrightarrow> (a = d \<Longrightarrow> Q) \<Longrightarrow> (E = Some d \<Longrightarrow> Q) \<Longrightarrow> Q"
  by (cases P) simp_all

section \<open>Lemmas on the allocator\<close>

lemma malloc_Some:
  assumes "malloc m = (Some a, m')"
  shows "a = m_next m" "m_next m' = Suc a" "m_live m' = insert a (m_live m)" "m_bad m' = m_bad m"
    "set (m_outcomes m') \<subseteq> set (m_outcomes m)"
  using assms by (auto simp: malloc_def mem_fresh_def split: list.splits if_splits)

lemma malloc_None:
  assumes "malloc m = (None, m')"
  shows "m_next m' = m_next m" "m_live m' = m_live m" "m_bad m' = m_bad m" "\<not> mem_plenty m"
    "set (m_outcomes m') \<subseteq> set (m_outcomes m)"
  using assms by (auto simp: malloc_def mem_fresh_def mem_plenty_def split: list.splits if_splits)

lemma mem_plenty_mem_init [simp]: "mem_plenty (mem_init os) \<longleftrightarrow> False \<notin> set os"
  by (simp add: mem_plenty_def mem_init_def)

lemma mfree_outcomes [simp]: "m_outcomes (mfree a m) = m_outcomes m"
  by (simp add: mfree_def)

lemma mem_plenty_mfree [simp]: "mem_plenty (mfree a m) = mem_plenty m"
  by (simp add: mem_plenty_def)

lemma mem_plenty_mfree_opt [simp]: "mem_plenty (mfree_opt p m) = mem_plenty m"
  by (simp add: mfree_opt_def split: option.splits)

lemma mem_plenty_malloc: "malloc m = (r, m') \<Longrightarrow> mem_plenty m \<Longrightarrow> mem_plenty m' \<and> r \<noteq> None"
  by (cases r) (auto simp: mem_plenty_def dest: malloc_None malloc_Some)

lemma mem_plenty_mrealloc: "mrealloc p m = (r, m') \<Longrightarrow> mem_plenty m \<Longrightarrow> mem_plenty m' \<and> r \<noteq> None"
  by (auto simp: mrealloc_def split: prod.splits option.splits dest: mem_plenty_malloc)

lemma owns_mset: "mset xs = mset ys \<Longrightarrow> owns m xs F = owns m ys F"
  unfolding owns_def using mset_eq_imp_distinct_iff mset_eq_setD by metis

lemma owns_malloc:
  "owns m xs F \<Longrightarrow> malloc m = (Some a, m') \<Longrightarrow> owns m' (a # xs) F"
  using malloc_Some [of m a m'] by (auto simp: owns_def less_Suc_eq)

lemma owns_malloc_None: "owns m xs F \<Longrightarrow> malloc m = (None, m') \<Longrightarrow> owns m' xs F"
  by (auto simp: owns_def malloc_None)

lemma owns_mfree: "owns m (a # xs) F \<Longrightarrow> owns (mfree a m) xs F"
  by (auto simp: owns_def mfree_def)

lemma owns_mfree_mset: "owns m ys F \<Longrightarrow> mset ys = mset (a # xs) \<Longrightarrow> owns (mfree a m) xs F"
  using owns_mset owns_mfree by metis

lemma owns_append:
  "owns m (xs @ ys) F \<longleftrightarrow> owns m xs (beside ys F) \<and> distinct ys \<and> set ys \<inter> fr_live F = {}"
  by (auto simp: owns_def beside_def)

lemma owns_mem_init [simp]: "owns (mem_init os) [] alone"
  by (simp add: owns_def mem_init_def alone_def)

lemma alone_simps [simp]: "fr_live alone = {}" "fr_next alone = 0"
  by (simp_all add: alone_def)

text \<open>What keeps every frame makes the allocator go forward only.\<close>

lemma owns_next: "owns m xs F \<Longrightarrow> owns m xs (Frame (fr_live F) (m_next m))"
  by (simp add: owns_def)

lemma owns_grows:
  assumes "\<And>F. owns m xs F \<Longrightarrow> owns m' xs' F" "owns m xs F"
  shows "m_next m \<le> m_next m'"
  using assms(1) [OF owns_next [OF assms(2)]] by (simp add: owns_def)

section \<open>Lemmas on decimal numbers\<close>

lemma dec_digits_small [simp]: "n < 10 \<Longrightarrow> dec_digits n = [48 + word_of_nat n]"
  by (simp add: dec_digits.simps)

lemma dec_digits_big: "\<not> n < 10 \<Longrightarrow> dec_digits n = dec_digits (n div 10) @ [48 + word_of_nat (n mod 10)]"
  by (subst dec_digits.simps) simp

lemma dec_digits_not_Nil [simp]: "dec_digits n \<noteq> []"
  by (subst dec_digits.simps) simp

lemma unat_digit [simp]: "d < 10 \<Longrightarrow> unat (word_of_nat d :: byte) = d"
  by (simp add: unat_of_nat)

lemma digit_facts:
  assumes "d < 10"
  shows "unat (48 + word_of_nat d :: byte) = 48 + d" "unat ((48 + word_of_nat d) - 48 :: byte) = d"
    "is_digit (48 + word_of_nat d)"
  using assms by (auto simp: unat_word_ariths unat_of_nat is_digit_def word_le_nat_alt)

lemma dec_digits_digits: "c \<in> set (dec_digits n) \<Longrightarrow> is_digit c"
  by (induction n rule: dec_digits.induct) (subst (asm) dec_digits.simps, auto simp: digit_facts split: if_splits)

lemma dec_value_append: "dec_value a (xs @ ys) = dec_value (dec_value a xs) ys"
  by (simp add: dec_value_def)

lemma dec_value_Cons: "dec_value a (c # ds) = dec_value (a * 10 + unat (c - 48)) ds"
  by (simp add: dec_value_def)

lemma dec_value_Nil [simp]: "dec_value a [] = a"
  by (simp add: dec_value_def)

lemma dec_value_digits [simp]: "dec_value 0 (dec_digits n) = n"
proof (induction n rule: dec_digits.induct)
  case (1 n)
  show ?case
  proof (cases "n < 10")
    case True
    then show ?thesis by (simp add: dec_value_Cons digit_facts(2))
  next
    case False
    with 1 show ?thesis
      by (simp add: dec_digits_big dec_value_append dec_value_Cons digit_facts(2))
  qed
qed

lemma dec_digits_inj: "dec_digits a = dec_digits b \<longleftrightarrow> a = b"
  using dec_value_digits by metis

lemma dec_digits_length: "n < 10 ^ Suc k \<Longrightarrow> length (dec_digits n) \<le> Suc k"
proof (induction k arbitrary: n)
  case 0
  then show ?case by simp
next
  case (Suc k)
  show ?case
  proof (cases "n < 10")
    case False
    from Suc.prems have "n div 10 < 10 ^ Suc k" by auto
    from Suc.IH [OF this] False show ?thesis by (simp add: dec_digits_big)
  qed simp
qed

lemma dec_value_mono: "a \<le> dec_value a ds"
proof (induction ds arbitrary: a)
  case (Cons c ds)
  have "a \<le> a * 10 + unat (c - 48)" by simp
  also have "\<dots> \<le> dec_value (a * 10 + unat (c - 48)) ds" by (rule Cons.IH)
  finally show ?case by (simp add: dec_value_Cons)
qed simp

end
