(* ===== verification/Interfaces.thy ===== *)
theory Interfaces
  imports Redis_Base
begin

text \<open>
  The contracts between the components, as locales: what the command layer expects of the
  key/value store (\<open>kv_store\<close>), and what the reply serializers and the event loop expect of a
  byte buffer (\<open>byte_queue\<close>, extended to \<open>byte_fifo\<close> with the consumer side). The lemmas
  the clients use are proved here once; \<open>Hashtable\<close> and \<open>Bytebuf\<close> interpret the locales on
  the definitions of the model.
\<close>

section \<open>A key/value store\<close>

locale kv_store =
  fixes inv :: "'s \<Rightarrow> bool"
    and abs :: "'s \<Rightarrow> 'k \<rightharpoonup> 'v"
    and lookup :: "'s \<Rightarrow> 'k \<Rightarrow> 'v option"
    and put :: "'m \<Rightarrow> 's \<Rightarrow> 'k \<Rightarrow> 'v \<Rightarrow> rc \<times> 'm \<times> 's"
    and rem :: "'m \<Rightarrow> 's \<Rightarrow> 'k \<Rightarrow> bool \<times> 'm \<times> 's"
    and keys :: "'s \<Rightarrow> 'k list"
  assumes lookup_abs: "inv s \<Longrightarrow> lookup s k = abs s k"
    and put_inv: "inv s \<Longrightarrow> put m s k v = (r, m', s') \<Longrightarrow> inv s'"
    and put_ok: "inv s \<Longrightarrow> put m s k v = (RC_OK, m', s') \<Longrightarrow> abs s' = (abs s)(k \<mapsto> v)"
    and put_err: "inv s \<Longrightarrow> put m s k v = (RC_ERR, m', s') \<Longrightarrow> s' = s"
    and rem_inv: "inv s \<Longrightarrow> rem m s k = (b, m', s') \<Longrightarrow> inv s'"
    and rem_abs: "inv s \<Longrightarrow> rem m s k = (b, m', s') \<Longrightarrow> abs s' = (abs s)(k := None)"
    and rem_hit: "inv s \<Longrightarrow> rem m s k = (b, m', s') \<Longrightarrow> b \<longleftrightarrow> abs s k \<noteq> None"
    and keys_dom: "inv s \<Longrightarrow> set (keys s) = dom (abs s)"
    and keys_distinct: "inv s \<Longrightarrow> distinct (keys s)"
begin

lemma lookup_put:
  assumes "inv s" "put m s k v = (RC_OK, m', s')"
  shows "lookup s' k' = (if k' = k then Some v else lookup s k')"
  using assms by (simp add: put_ok lookup_abs [OF put_inv [OF assms]] lookup_abs)

lemma lookup_rem:
  assumes "inv s" "rem m s k = (b, m', s')"
  shows "lookup s' k' = (if k' = k then None else lookup s k')"
  using assms by (simp add: rem_abs lookup_abs [OF rem_inv [OF assms]] lookup_abs)

lemma put_atomic:
  assumes "inv s" "put m s k v = (r, m', s')"
  shows "abs s' = (if r = RC_OK then (abs s)(k \<mapsto> v) else abs s)"
  using assms put_ok [of s m k v m' s'] put_err [of s m k v m' s'] by (cases r) auto

lemma keys_length: "inv s \<Longrightarrow> length (keys s) = card (dom (abs s))"
  using keys_dom keys_distinct distinct_card by metis

end

section \<open>A bounded byte queue\<close>

text \<open>
  Writing several pieces in turn, stopping at the first failure: the shape of every reply
  serializer.
\<close>

fun write_pieces ::
  "('m \<Rightarrow> 'b \<Rightarrow> bytes \<Rightarrow> rc \<times> 'm \<times> 'b) \<Rightarrow> 'm \<Rightarrow> 'b \<Rightarrow> bytes list \<Rightarrow> rc \<times> 'm \<times> 'b" where
  "write_pieces app m b [] = (RC_OK, m, b)"
| "write_pieces app m b (p # ps) =
     (case app m b p of
        (RC_ERR, m', b') \<Rightarrow> (RC_ERR, m', b')
      | (RC_OK, m', b') \<Rightarrow> write_pieces app m' b' ps)"

locale byte_queue =
  fixes inv :: "'b \<Rightarrow> bool"
    and contents :: "'b \<Rightarrow> bytes"
    and append :: "'m \<Rightarrow> 'b \<Rightarrow> bytes \<Rightarrow> rc \<times> 'm \<times> 'b"
    and plenty :: "'m \<Rightarrow> bool"
    and limit :: nat
  assumes append_inv: "inv b \<Longrightarrow> length xs \<le> SIZE_MAX \<Longrightarrow> append m b xs = (r, m', b') \<Longrightarrow> inv b'"
    and append_ok: "inv b \<Longrightarrow> length xs \<le> SIZE_MAX \<Longrightarrow> append m b xs = (RC_OK, m', b') \<Longrightarrow>
          contents b' = contents b @ xs"
    and append_err: "inv b \<Longrightarrow> length xs \<le> SIZE_MAX \<Longrightarrow> append m b xs = (RC_ERR, m', b') \<Longrightarrow>
          contents b' = contents b"
    and append_room: "inv b \<Longrightarrow> plenty m \<Longrightarrow> length (contents b) + length xs \<le> limit \<Longrightarrow>
          append m b xs = (r, m', b') \<Longrightarrow> r = RC_OK"
    and append_plenty: "append m b xs = (r, m', b') \<Longrightarrow> plenty m \<Longrightarrow> plenty m'"
begin

lemma write_pieces_plenty:
  "write_pieces append m b ps = (r, m', b') \<Longrightarrow> plenty m \<Longrightarrow> plenty m'"
  by (induction ps arbitrary: m b) (auto split: prod.splits rc.splits dest: append_plenty)

lemma write_pieces_inv:
  "inv b \<Longrightarrow> \<forall>p\<in>set ps. length p \<le> SIZE_MAX \<Longrightarrow> write_pieces append m b ps = (r, m', b') \<Longrightarrow> inv b'"
  by (induction ps arbitrary: m b) (auto split: prod.splits rc.splits dest: append_inv)

lemma write_pieces_ok:
  "inv b \<Longrightarrow> \<forall>p\<in>set ps. length p \<le> SIZE_MAX \<Longrightarrow> write_pieces append m b ps = (RC_OK, m', b') \<Longrightarrow>
   contents b' = contents b @ concat ps"
proof (induction ps arbitrary: m b)
  case (Cons p ps)
  then obtain m1 b1 where a: "append m b p = (RC_OK, m1, b1)"
    "write_pieces append m1 b1 ps = (RC_OK, m', b')"
    by (auto split: prod.splits rc.splits)
  moreover have "inv b1" "contents b1 = contents b @ p"
    using Cons.prems append_inv [OF _ _ a(1)] append_ok [OF _ _ a(1)] by auto
  ultimately show ?case using Cons by simp
qed simp

text \<open>A failed write has written a prefix of its pieces and damaged nothing before them.\<close>

lemma write_pieces_prefix:
  "inv b \<Longrightarrow> \<forall>p\<in>set ps. length p \<le> SIZE_MAX \<Longrightarrow> write_pieces append m b ps = (r, m', b') \<Longrightarrow>
   \<exists>k \<le> length ps. contents b' = contents b @ concat (take k ps)"
proof (induction ps arbitrary: m b)
  case (Cons p ps)
  obtain r1 m1 b1 where a: "append m b p = (r1, m1, b1)" by (metis prod_cases3)
  show ?case
  proof (cases r1)
    case RC_ERR
    with a Cons.prems append_err [of b p m m1 b1] show ?thesis by (intro exI [of _ 0]) auto
  next
    case RC_OK
    with a Cons.prems have w: "write_pieces append m1 b1 ps = (r, m', b')" "inv b1"
      "contents b1 = contents b @ p"
      using append_ok append_inv by auto
    with Cons.IH [OF w(2) _ w(1)] Cons.prems(2) obtain k where "k \<le> length ps"
      "contents b' = contents b1 @ concat (take k ps)" by auto
    with w(3) show ?thesis by (intro exI [of _ "Suc k"]) simp
  qed
qed simp

lemma write_pieces_room:
  "inv b \<Longrightarrow> \<forall>p\<in>set ps. length p \<le> SIZE_MAX \<Longrightarrow> plenty m \<Longrightarrow>
   length (contents b) + length (concat ps) \<le> limit \<Longrightarrow>
   write_pieces append m b ps = (r, m', b') \<Longrightarrow> r = RC_OK"
proof (induction ps arbitrary: m b)
  case (Cons p ps)
  obtain r1 m1 b1 where a: "append m b p = (r1, m1, b1)" by (metis prod_cases3)
  have "r1 = RC_OK" using append_room [OF Cons.prems(1,3) _ a] Cons.prems(4) by simp
  with a have a': "append m b p = (RC_OK, m1, b1)" by simp
  have "inv b1" "contents b1 = contents b @ p" "plenty m1"
    using Cons.prems append_inv [OF _ _ a'] append_ok [OF _ _ a'] append_plenty [OF a'] by auto
  with Cons.prems a' show ?case by (intro Cons.IH [of b1 m1]) auto
qed simp

end

locale byte_fifo = byte_queue +
  fixes consume :: "'b \<Rightarrow> nat \<Rightarrow> 'b"
  assumes consume_inv: "inv b \<Longrightarrow> inv (consume b n)"
    and consume_contents: "inv b \<Longrightarrow> n \<le> SIZE_MAX \<Longrightarrow> contents (consume b n) = drop n (contents b)"
begin

lemma consume_consume:
  "inv b \<Longrightarrow> i \<le> SIZE_MAX \<Longrightarrow> j \<le> SIZE_MAX \<Longrightarrow>
   contents (consume (consume b i) j) = drop (i + j) (contents b)"
  by (simp add: consume_contents consume_inv add.commute)

text \<open>First in, first out: what is consumed is a prefix of what was there before the append.\<close>

lemma append_consume:
  assumes "inv b" "length xs \<le> SIZE_MAX" "append m b xs = (RC_OK, m', b')" "n \<le> SIZE_MAX"
    "n \<le> length (contents b)"
  shows "contents (consume b' n) = contents (consume b n) @ xs"
  using assms append_inv append_ok by (simp add: consume_contents)

end

end
