(* ===== verification/Hashtable.thy ===== *)
theory Hashtable
  imports Interfaces
begin

text \<open>
  The hash table of \<open>hashtable.h\<close> and \<open>hashtable.c\<close>: 1024 buckets, each a chain of entries.
  A chain (the \<open>next\<close> pointers) is a list of entries in chain order; an entry records its
  key and value bytes (so \<open>klen\<close> and \<open>vlen\<close> are the lengths of the lists) and the addresses of
  the three blocks it owns. Every operation that allocates or frees takes the allocator and
  returns it. The theory shows the invariant of the table, that its operations are those of a
  finite map, what they do when an allocation fails, that the iteration visits every live
  entry once, and that no block is leaked or freed twice.
\<close>

section \<open>Data\<close>

definition HT_NUM_BUCKETS :: nat where
  "HT_NUM_BUCKETS = 1024"

record ht_entry =
  e_node :: addr
  e_key_p :: addr
  e_key :: bytes
  e_val_p :: addr
  e_val :: bytes

record hashtable =
  buckets :: "ht_entry list list"
  ht_count :: size_t

section \<open>Hashing\<close>

fun ht_hash_loop :: "64 word \<Rightarrow> bytes \<Rightarrow> 64 word" where
  "ht_hash_loop hash [] = hash"
| "ht_hash_loop hash (b # bs) = ht_hash_loop ((push_bit 5 hash + hash) XOR ucast b) bs"

definition ht_hash :: "bytes \<Rightarrow> 64 word" where
  "ht_hash key = ht_hash_loop 5381 key"

definition bucket_index :: "64 word \<Rightarrow> nat" where
  "bucket_index hash = unat (hash mod word_of_nat HT_NUM_BUCKETS)"

text \<open>\<open>memcmp(a, b, n) == 0\<close>, byte by byte.\<close>

fun memcmp_eq :: "bytes \<Rightarrow> bytes \<Rightarrow> nat \<Rightarrow> bool" where
  "memcmp_eq a b 0 = True"
| "memcmp_eq a b (Suc n) = (hd a = hd b \<and> memcmp_eq (tl a) (tl b) n)"

definition keys_equal :: "bytes \<Rightarrow> bytes \<Rightarrow> bool" where
  "keys_equal a b =
     (if length a \<noteq> length b then False
      else if length a = 0 then True
      else memcmp_eq a b (length a))"

section \<open>Lifecycle\<close>

definition ht_init :: hashtable where
  "ht_init = \<lparr>buckets = replicate HT_NUM_BUCKETS [], ht_count = 0\<rparr>"

definition free_entry :: "ht_entry \<Rightarrow> mem \<Rightarrow> mem" where
  "free_entry e m = mfree (e_node e) (mfree (e_val_p e) (mfree (e_key_p e) m))"

fun free_chain :: "ht_entry list \<Rightarrow> mem \<Rightarrow> mem" where
  "free_chain [] m = m"
| "free_chain (cur # nxt) m = free_chain nxt (free_entry cur m)"

fun destroy_buckets :: "mem \<Rightarrow> ht_entry list list \<Rightarrow> mem \<times> ht_entry list list" where
  "destroy_buckets m [] = (m, [])"
| "destroy_buckets m (c # cs) =
     (let (m', cs') = destroy_buckets (free_chain c m) cs in (m', [] # cs'))"

definition ht_destroy :: "mem \<Rightarrow> hashtable \<Rightarrow> mem \<times> hashtable" where
  "ht_destroy m ht =
     (let (m', bs) = destroy_buckets m (buckets ht) in (m', ht\<lparr>buckets := bs, ht_count := 0\<rparr>))"

section \<open>Mutation\<close>

text \<open>
  \<open>dup_bytes\<close> allocates a copy of \<open>src\<close> (one byte for an empty one); the copy is the
  address together with the bytes the caller stores beside it.
\<close>

definition dup_bytes :: "mem \<Rightarrow> bytes \<Rightarrow> (addr \<times> bytes) option \<times> mem" where
  "dup_bytes m src = (case malloc m of
     (None, m') \<Rightarrow> (None, m')
   | (Some buf, m') \<Rightarrow> (Some (buf, src), m'))"

text \<open>
  The first pass of \<open>ht_set\<close>: \<open>None\<close> when the chain has no entry for the key, otherwise the
  outcome of the overwrite.
\<close>

fun ht_set_existing ::
  "mem \<Rightarrow> ht_entry list \<Rightarrow> bytes \<Rightarrow> bytes \<Rightarrow> (rc \<times> mem \<times> ht_entry list) option" where
  "ht_set_existing m [] key val = None"
| "ht_set_existing m (cur # nxt) key val =
     (if keys_equal (e_key cur) key
      then (case dup_bytes m val of
              (None, m') \<Rightarrow> Some (RC_ERR, m', cur # nxt)
            | (Some (new_p, new_val), m') \<Rightarrow>
                Some (RC_OK, mfree (e_val_p cur) m', cur\<lparr>e_val_p := new_p, e_val := new_val\<rparr> # nxt))
      else (case ht_set_existing m nxt key val of
              None \<Rightarrow> None
            | Some (r, m', nxt') \<Rightarrow> Some (r, m', cur # nxt')))"

text \<open>The fresh node: three allocations, unwound when one of them fails.\<close>

definition ht_new_node :: "mem \<Rightarrow> bytes \<Rightarrow> bytes \<Rightarrow> ht_entry option \<times> mem" where
  "ht_new_node m key val =
     (case malloc m of
        (None, m1) \<Rightarrow> (None, m1)
      | (Some node, m1) \<Rightarrow>
     (case dup_bytes m1 key of
        (None, m2) \<Rightarrow> (None, mfree node m2)
      | (Some (kp, kb), m2) \<Rightarrow>
     (case dup_bytes m2 val of
        (None, m3) \<Rightarrow> (None, mfree node (mfree kp m3))
      | (Some (vp, vb), m3) \<Rightarrow>
        (Some \<lparr>e_node = node, e_key_p = kp, e_key = kb, e_val_p = vp, e_val = vb\<rparr>, m3))))"

definition ht_set :: "mem \<Rightarrow> hashtable \<Rightarrow> bytes \<Rightarrow> bytes \<Rightarrow> rc \<times> mem \<times> hashtable" where
  "ht_set m ht key val =
     (let idx = bucket_index (ht_hash key) in
      case ht_set_existing m (buckets ht ! idx) key val of
        Some (r, m', chain) \<Rightarrow> (r, m', ht\<lparr>buckets := (buckets ht)[idx := chain]\<rparr>)
      | None \<Rightarrow>
          (case ht_new_node m key val of
             (None, m') \<Rightarrow> (RC_ERR, m', ht)
           | (Some node, m') \<Rightarrow>
               (RC_OK, m', ht\<lparr>buckets := (buckets ht)[idx := node # (buckets ht ! idx)],
                              ht_count := ht_count ht + 1\<rparr>)))"

text \<open>The unlinking walk of \<open>ht_del\<close>: \<open>None\<close> when no entry matches.\<close>

fun ht_unlink :: "mem \<Rightarrow> ht_entry list \<Rightarrow> bytes \<Rightarrow> (mem \<times> ht_entry list) option" where
  "ht_unlink m [] key = None"
| "ht_unlink m (cur # nxt) key =
     (if keys_equal (e_key cur) key then Some (free_entry cur m, nxt)
      else (case ht_unlink m nxt key of
              None \<Rightarrow> None
            | Some (m', nxt') \<Rightarrow> Some (m', cur # nxt')))"

definition ht_del :: "mem \<Rightarrow> hashtable \<Rightarrow> bytes \<Rightarrow> bool \<times> mem \<times> hashtable" where
  "ht_del m ht key =
     (let idx = bucket_index (ht_hash key) in
      case ht_unlink m (buckets ht ! idx) key of
        None \<Rightarrow> (False, m, ht)
      | Some (m', chain) \<Rightarrow>
          (True, m', ht\<lparr>buckets := (buckets ht)[idx := chain], ht_count := ht_count ht - 1\<rparr>))"

section \<open>Lookup and iteration\<close>

fun chain_get :: "ht_entry list \<Rightarrow> bytes \<Rightarrow> bytes option" where
  "chain_get [] key = None"
| "chain_get (cur # nxt) key =
     (if keys_equal (e_key cur) key then Some (e_val cur) else chain_get nxt key)"

text \<open>A hit returns the bytes of the borrowed value, a miss \<open>None\<close>.\<close>

definition ht_get :: "hashtable \<Rightarrow> bytes \<Rightarrow> bytes option" where
  "ht_get ht key = chain_get (buckets ht ! bucket_index (ht_hash key)) key"

text \<open>
  The callback of \<open>ht_scan\<close> maps key, value and its user data to the continue flag and the
  new user data. The loops return whether they were stopped, the count and the user data.
\<close>

type_synonym 'u scan_cb = "bytes \<Rightarrow> bytes \<Rightarrow> 'u \<Rightarrow> bool \<times> 'u"

fun scan_chain :: "'u scan_cb \<Rightarrow> ht_entry list \<Rightarrow> nat \<Rightarrow> 'u \<Rightarrow> bool \<times> nat \<times> 'u" where
  "scan_chain cb [] visited ud = (False, visited, ud)"
| "scan_chain cb (cur # nxt) visited ud =
     (case cb (e_key cur) (e_val cur) ud of
        (go, ud') \<Rightarrow> (if \<not> go then (True, Suc visited, ud') else scan_chain cb nxt (Suc visited) ud'))"

fun scan_buckets :: "'u scan_cb \<Rightarrow> ht_entry list list \<Rightarrow> nat \<Rightarrow> 'u \<Rightarrow> nat \<times> 'u" where
  "scan_buckets cb [] visited ud = (visited, ud)"
| "scan_buckets cb (c # cs) visited ud =
     (case scan_chain cb c visited ud of
        (stopped, visited', ud') \<Rightarrow>
          (if stopped then (visited', ud') else scan_buckets cb cs visited' ud'))"

definition ht_scan :: "hashtable \<Rightarrow> 'u scan_cb \<Rightarrow> 'u \<Rightarrow> nat \<times> 'u" where
  "ht_scan ht cb ud = scan_buckets cb (buckets ht) 0 ud"

section \<open>Abstraction, invariant and ownership\<close>

definition key_bucket :: "bytes \<Rightarrow> nat" where
  "key_bucket k = bucket_index (ht_hash k)"

definition ht_entries :: "hashtable \<Rightarrow> ht_entry list" where
  "ht_entries ht = concat (buckets ht)"

text \<open>The keys in the order of a scan.\<close>

definition ht_keys :: "hashtable \<Rightarrow> bytes list" where
  "ht_keys ht = map e_key (ht_entries ht)"

definition chain_map :: "ht_entry list \<Rightarrow> bytes \<rightharpoonup> bytes" where
  "chain_map c = map_of (map (\<lambda>e. (e_key e, e_val e)) c)"

definition ht_abs :: "hashtable \<Rightarrow> bytes \<rightharpoonup> bytes" where
  "ht_abs ht = (\<lambda>k. chain_map (buckets ht ! key_bucket k) k)"

definition ht_inv :: "hashtable \<Rightarrow> bool" where
  "ht_inv ht \<longleftrightarrow>
     length (buckets ht) = HT_NUM_BUCKETS \<and>
     (\<forall>i < HT_NUM_BUCKETS. \<forall>e \<in> set (buckets ht ! i). key_bucket (e_key e) = i) \<and>
     distinct (ht_keys ht) \<and>
     ht_count ht = word_of_nat (length (ht_entries ht))"

definition entry_blocks :: "ht_entry \<Rightarrow> addr list" where
  "entry_blocks e = [e_key_p e, e_val_p e, e_node e]"

definition ht_blocks :: "hashtable \<Rightarrow> addr list" where
  "ht_blocks ht = concat (map entry_blocks (ht_entries ht))"

section \<open>Lemmas on chains\<close>

lemma memcmp_eq_iff: "length a = n \<Longrightarrow> length b = n \<Longrightarrow> memcmp_eq a b n \<longleftrightarrow> a = b"
proof (induction n arbitrary: a b)
  case (Suc n)
  then show ?case by (cases a; cases b) auto
qed simp

lemma keys_equal_iff [simp]: "keys_equal a b \<longleftrightarrow> a = b"
  by (auto simp: keys_equal_def memcmp_eq_iff)

lemma key_bucket_less [simp]: "key_bucket k < HT_NUM_BUCKETS"
proof -
  have "unat (ht_hash k mod (1024 :: 64 word)) < unat (1024 :: 64 word)"
    by (rule word_mod_less_divisor [THEN unat_mono]) simp
  then show ?thesis
    by (simp add: key_bucket_def bucket_index_def HT_NUM_BUCKETS_def)
qed

lemma chain_get_map: "chain_get c k = chain_map c k"
  by (induction c) (auto simp: chain_map_def)

lemma chain_map_append: "chain_map (c1 @ c2) = chain_map c2 ++ chain_map c1"
  by (simp add: chain_map_def)

lemma chain_map_Cons: "chain_map (e # c) = (chain_map c)(e_key e \<mapsto> e_val e)"
  by (simp add: chain_map_def)

lemma chain_map_Nil [simp]: "chain_map [] = Map.empty"
  by (simp add: chain_map_def)

lemma dom_chain_map: "dom (chain_map c) = e_key ` set c"
  by (simp add: chain_map_def dom_map_of_conv_image_fst image_image)

lemma chain_map_None: "chain_map c k = None \<longleftrightarrow> k \<notin> e_key ` set c"
  by (metis dom_chain_map domIff)

lemma ht_set_existing_None: "ht_set_existing m c k v = None \<longleftrightarrow> k \<notin> e_key ` set c"
  by (induction c) (auto simp: dup_bytes_def split: prod.splits option.splits)

lemma ht_set_existing_Some:
  assumes "malloc m = (p, m1)"
  shows "ht_set_existing m c k v = Some (r, m', c') \<Longrightarrow>
   (\<exists>c1 e c2. c = c1 @ e # c2 \<and> e_key e = k \<and> k \<notin> e_key ` set c1 \<and>
     (case p of
        None \<Rightarrow> r = RC_ERR \<and> m' = m1 \<and> c' = c
      | Some a \<Rightarrow> r = RC_OK \<and> m' = mfree (e_val_p e) m1 \<and>
          c' = c1 @ e\<lparr>e_val_p := a, e_val := v\<rparr> # c2))"
proof (induction c arbitrary: c')
  case (Cons cur nxt)
  show ?case
  proof (cases "e_key cur = k")
    case True
    with Cons.prems assms show ?thesis
      by (intro exI [of _ "[]"] exI [of _ cur] exI [of _ nxt])
         (simp add: dup_bytes_def split: option.splits)
  next
    case False
    with Cons.prems obtain d where d: "ht_set_existing m nxt k v = Some (r, m', d)" "c' = cur # d"
      by (auto split: option.splits)
    from Cons.IH [OF d(1)] obtain c1 e c2 where
      "nxt = c1 @ e # c2" "e_key e = k" "k \<notin> e_key ` set c1"
      "case p of None \<Rightarrow> r = RC_ERR \<and> m' = m1 \<and> d = nxt
       | Some a \<Rightarrow> r = RC_OK \<and> m' = mfree (e_val_p e) m1 \<and>
           d = c1 @ e\<lparr>e_val_p := a, e_val := v\<rparr> # c2" by blast
    with False d(2) show ?thesis
      by (intro exI [of _ "cur # c1"] exI [of _ e] exI [of _ c2])
         (simp split: option.splits)
  qed
qed simp

lemma ht_unlink_None: "ht_unlink m c k = None \<longleftrightarrow> k \<notin> e_key ` set c"
  by (induction c) (auto split: option.splits)

lemma ht_unlink_Some:
  "ht_unlink m c k = Some (m', c') \<Longrightarrow>
   (\<exists>c1 e c2. c = c1 @ e # c2 \<and> e_key e = k \<and> k \<notin> e_key ` set c1 \<and> c' = c1 @ c2 \<and>
     m' = free_entry e m)"
proof (induction c arbitrary: c')
  case (Cons cur nxt)
  show ?case
  proof (cases "e_key cur = k")
    case True
    with Cons.prems show ?thesis
      by (intro exI [of _ "[]"] exI [of _ cur] exI [of _ nxt]) auto
  next
    case False
    with Cons.prems obtain d where d: "ht_unlink m nxt k = Some (m', d)" "c' = cur # d"
      by (auto split: option.splits)
    from Cons.IH [OF d(1)] obtain c1 e c2 where
      "nxt = c1 @ e # c2" "e_key e = k" "k \<notin> e_key ` set c1" "d = c1 @ c2" "m' = free_entry e m"
      by blast
    with False d(2) show ?thesis
      by (intro exI [of _ "cur # c1"] exI [of _ e] exI [of _ c2]) auto
  qed
qed simp

section \<open>Lemmas on the array of buckets\<close>

lemma mset_concat_split:
  assumes "i < length bs" "bs ! i = c1 @ es @ c2"
  shows "\<exists>rs. mset (concat bs) = mset (es @ rs) \<and>
    (\<forall>es'. mset (concat (bs[i := c1 @ es' @ c2])) = mset (es' @ rs))"
proof (intro exI conjI allI)
  let ?rs = "concat (take i bs) @ c1 @ c2 @ concat (drop (Suc i) bs)"
  show "mset (concat bs) = mset (es @ ?rs)"
    using assms(2) by (subst id_take_nth_drop [OF assms(1)]) simp
  show "mset (concat (bs[i := c1 @ es' @ c2])) = mset (es' @ ?rs)" for es'
    using assms(1) by (simp add: upd_conv_take_nth_drop)
qed

lemma mset_concat_map:
  "mset (concat (map f xs)) = sum_mset (image_mset (\<lambda>x. mset (f x)) (mset xs))"
  by (induction xs) auto

lemma distinct_concat_nth: "distinct (map f (concat bs)) \<Longrightarrow> i < length bs \<Longrightarrow> distinct (map f (bs ! i))"
  by (subst (asm) id_take_nth_drop [of i bs]) auto

lemma ht_inv_bucket:
  assumes "ht_inv ht"
  shows "distinct (map e_key (buckets ht ! key_bucket k))"
  using assms distinct_concat_nth [of e_key "buckets ht" "key_bucket k"]
  by (simp add: ht_inv_def ht_keys_def ht_entries_def)

lemma ht_inv_place: "ht_inv ht \<Longrightarrow> i < HT_NUM_BUCKETS \<Longrightarrow> e \<in> set (buckets ht ! i) \<Longrightarrow> key_bucket (e_key e) = i"
  by (auto simp: ht_inv_def)

lemma ht_inv_length: "ht_inv ht \<Longrightarrow> length (buckets ht) = HT_NUM_BUCKETS"
  by (simp add: ht_inv_def)

text \<open>The keys of the map are the keys of a scan, each once.\<close>

lemma ht_keys_dom:
  assumes "ht_inv ht"
  shows "set (ht_keys ht) = dom (ht_abs ht)"
proof -
  have "k \<in> set (ht_keys ht) \<longleftrightarrow> k \<in> e_key ` set (buckets ht ! key_bucket k)" for k
  proof
    assume "k \<in> set (ht_keys ht)"
    then obtain c e where c: "c \<in> set (buckets ht)" "e \<in> set c" "e_key e = k"
      by (auto simp: ht_keys_def ht_entries_def)
    then obtain i where i: "i < HT_NUM_BUCKETS" "c = buckets ht ! i"
      using ht_inv_length [OF assms] by (metis in_set_conv_nth)
    with c ht_inv_place [OF assms] have "key_bucket k = i" by blast
    with c i show "k \<in> e_key ` set (buckets ht ! key_bucket k)" by blast
  next
    assume "k \<in> e_key ` set (buckets ht ! key_bucket k)"
    moreover have "buckets ht ! key_bucket k \<in> set (buckets ht)"
      using ht_inv_length [OF assms] by simp
    ultimately show "k \<in> set (ht_keys ht)" by (auto simp: ht_keys_def ht_entries_def)
  qed
  then show ?thesis
    unfolding set_eq_iff domIff ht_abs_def chain_map_None by simp
qed

section \<open>What the operations do\<close>

lemma owns_rotate3: "owns m [c, b, a] F \<Longrightarrow> owns m [b, c, a] F"
  by (auto simp: owns_def)

lemma dup_bytes_Some: "dup_bytes m src = (Some (p, b), m') \<longleftrightarrow> malloc m = (Some p, m') \<and> b = src"
  by (auto simp: dup_bytes_def split: prod.splits option.splits)

lemma dup_bytes_None: "dup_bytes m src = (None, m') \<longleftrightarrow> malloc m = (None, m')"
  by (auto simp: dup_bytes_def split: prod.splits option.splits)

lemma ht_new_node_Some:
  assumes "ht_new_node m k v = (Some n, m')"
  shows "e_key n = k" "e_val n = v" "owns m xs F \<Longrightarrow> owns m' (entry_blocks n @ xs) F"
proof -
  from assms obtain a m1 b m2 c where n: "malloc m = (Some a, m1)" "malloc m1 = (Some b, m2)"
    "malloc m2 = (Some c, m')"
    "n = \<lparr>e_node = a, e_key_p = b, e_key = k, e_val_p = c, e_val = v\<rparr>"
    by (auto simp: ht_new_node_def dup_bytes_Some split: prod.splits option.splits)
  then show "e_key n = k" "e_val n = v" by auto
  assume "owns m xs F"
  then have "owns m' (c # b # a # xs) F" using n by (blast intro: owns_malloc)
  then show "owns m' (entry_blocks n @ xs) F"
    by (rule owns_mset [THEN iffD1, rotated]) (simp add: entry_blocks_def n)
qed

lemma ht_new_node_None:
  assumes "ht_new_node m k v = (None, m')"
  shows "\<not> mem_plenty m" "owns m xs F \<Longrightarrow> owns m' xs F"
  using assms
  by (auto simp: ht_new_node_def dup_bytes_Some dup_bytes_None
           split: prod.splits option.splits dest: mem_plenty_malloc malloc_None(4)
           intro!: owns_mfree intro: owns_malloc_None owns_malloc)

lemma ht_new_node_plenty: "mem_plenty m \<Longrightarrow> ht_new_node m k v = (r, m') \<Longrightarrow> mem_plenty m' \<and> r \<noteq> None"
  by (auto simp: ht_new_node_def dup_bytes_Some dup_bytes_None
           split: prod.splits option.splits dest!: mem_plenty_malloc)

lemma ht_set_cases:
  assumes set: "ht_set m ht k v = (r, m', ht')" and len: "length (buckets ht) = HT_NUM_BUCKETS"
  obtains
    (err) "r = RC_ERR" "ht' = ht" "\<not> mem_plenty m" "\<And>xs F. owns m xs F \<Longrightarrow> owns m' xs F"
  | (over) c1 e c2 p m1 where "r = RC_OK" "buckets ht ! key_bucket k = c1 @ e # c2" "e_key e = k"
      "k \<notin> e_key ` set c1" "malloc m = (Some p, m1)" "m' = mfree (e_val_p e) m1"
      "ht' = ht\<lparr>buckets := (buckets ht)[key_bucket k := c1 @ e\<lparr>e_val_p := p, e_val := v\<rparr> # c2]\<rparr>"
  | (new) n where "r = RC_OK" "k \<notin> e_key ` set (buckets ht ! key_bucket k)"
      "ht_new_node m k v = (Some n, m')"
      "ht' = ht\<lparr>buckets := (buckets ht)[key_bucket k := n # (buckets ht ! key_bucket k)],
                 ht_count := ht_count ht + 1\<rparr>"
proof (cases "ht_set_existing m (buckets ht ! key_bucket k) k v")
  case None
  then have k: "k \<notin> e_key ` set (buckets ht ! key_bucket k)" by (simp add: ht_set_existing_None)
  obtain n m1 where n: "ht_new_node m k v = (n, m1)" by fastforce
  show ?thesis
  proof (cases n)
    case None
    with n have nn: "ht_new_node m k v = (None, m1)" by simp
    with set \<open>ht_set_existing _ _ _ _ = None\<close> have "r = RC_ERR" "ht' = ht" "m' = m1"
      by (auto simp: ht_set_def Let_def key_bucket_def)
    with ht_new_node_None [OF nn] show ?thesis by (auto intro: err)
  next
    case (Some n')
    with n set \<open>ht_set_existing _ _ _ _ = None\<close> k show ?thesis
      by (intro new [of n']) (auto simp: ht_set_def Let_def key_bucket_def)
  qed
next
  case (Some x)
  obtain r1 m2 c where x: "x = (r1, m2, c)" by (cases x)
  with set Some have eq: "r1 = r" "m2 = m'" "ht' = ht\<lparr>buckets := (buckets ht)[key_bucket k := c]\<rparr>"
    by (auto simp: ht_set_def Let_def key_bucket_def)
  obtain p m1 where pm: "malloc m = (p, m1)" by fastforce
  from ht_set_existing_Some [OF pm, of _ k v r m' c] Some x eq
  obtain c1 e c2 where c: "buckets ht ! key_bucket k = c1 @ e # c2" "e_key e = k" "k \<notin> e_key ` set c1"
    "case p of None \<Rightarrow> r = RC_ERR \<and> m' = m1 \<and> c = buckets ht ! key_bucket k
     | Some a \<Rightarrow> r = RC_OK \<and> m' = mfree (e_val_p e) m1 \<and> c = c1 @ e\<lparr>e_val_p := a, e_val := v\<rparr> # c2"
    by blast
  show ?thesis
  proof (cases p)
    case None
    with c(4) have "r = RC_ERR" "m' = m1" "c = buckets ht ! key_bucket k" by auto
    moreover from this eq(3) have "ht' = ht" by (simp add: list_update_id)
    ultimately show ?thesis
      using pm None malloc_None(4) by (intro err) (auto intro: owns_malloc_None)
  next
    case (Some a)
    with c eq pm show ?thesis by (intro over [of c1 e c2 a m1]) auto
  qed
qed

lemma ht_del_cases:
  assumes "ht_del m ht k = (b, m', ht')"
  obtains (miss) "\<not> b" "m' = m" "ht' = ht" "k \<notin> e_key ` set (buckets ht ! key_bucket k)"
  | (hit) c1 e c2 where "b" "buckets ht ! key_bucket k = c1 @ e # c2" "e_key e = k"
      "k \<notin> e_key ` set c1" "m' = free_entry e m"
      "ht' = ht\<lparr>buckets := (buckets ht)[key_bucket k := c1 @ c2], ht_count := ht_count ht - 1\<rparr>"
proof (cases "ht_unlink m (buckets ht ! key_bucket k) k")
  case None
  then have "k \<notin> e_key ` set (buckets ht ! key_bucket k)" by (simp add: ht_unlink_None)
  with assms None show ?thesis
    by (intro miss) (auto simp: ht_del_def Let_def key_bucket_def)
next
  case (Some x)
  obtain m1 c where x: "x = (m1, c)" by (cases x)
  with Some obtain c1 e c2 where c: "buckets ht ! key_bucket k = c1 @ e # c2" "e_key e = k"
    "k \<notin> e_key ` set c1" "c = c1 @ c2" "m1 = free_entry e m"
    by (blast dest: ht_unlink_Some)
  from assms Some x c(4,5) show ?thesis
    by (intro hit [OF _ c(1-3)]) (auto simp: ht_del_def Let_def key_bucket_def)
qed

section \<open>The invariant is kept\<close>

lemma ht_entries_update:
  assumes "ht_inv ht" "buckets ht ! key_bucket k = c1 @ es @ c2"
  obtains rs where "mset (ht_entries ht) = mset (es @ rs)"
    "\<And>es' n. mset (ht_entries (ht\<lparr>buckets := (buckets ht)[key_bucket k := c1 @ es' @ c2],
       ht_count := n\<rparr>)) = mset (es' @ rs)"
  using mset_concat_split [of "key_bucket k" "buckets ht" c1 es c2] assms
  by (auto simp: ht_inv_length ht_entries_def)

lemma ht_inv_update:
  assumes inv: "ht_inv ht" and b: "buckets ht ! key_bucket k = c1 @ es @ c2"
    and place: "\<And>e. e \<in> set es' \<Longrightarrow> key_bucket (e_key e) = key_bucket k"
    and dist: "distinct (map e_key es')"
    and new: "\<And>e. e \<in> set es' \<Longrightarrow> e_key e \<in> e_key ` set es \<or> e_key e \<notin> set (ht_keys ht)"
    and cnt: "n + word_of_nat (length es) = ht_count ht + word_of_nat (length es')"
  shows "ht_inv (ht\<lparr>buckets := (buckets ht)[key_bucket k := c1 @ es' @ c2], ht_count := n\<rparr>)"
    (is "ht_inv ?ht'")
proof -
  obtain rs where rs: "mset (ht_entries ht) = mset (es @ rs)" "mset (ht_entries ?ht') = mset (es' @ rs)"
    using ht_entries_update [OF inv b] by metis
  have k: "mset (ht_keys ht) = mset (map e_key (es @ rs))" "mset (ht_keys ?ht') = mset (map e_key (es' @ rs))"
    unfolding ht_keys_def mset_map rs by simp_all
  have d: "distinct (map e_key (es @ rs))"
    using inv mset_eq_imp_distinct_iff [OF k(1)] by (simp only: ht_inv_def)
  have "e_key ` set rs \<subseteq> set (ht_keys ht)"
    using mset_eq_setD [OF k(1)] by auto
  with d dist new have "distinct (map e_key (es' @ rs))" by fastforce
  then have "distinct (ht_keys ?ht')" using k(2) mset_eq_imp_distinct_iff by blast
  moreover have "n = word_of_nat (length (ht_entries ?ht'))"
  proof -
    have "length (ht_entries ht) = length es + length rs" "length (ht_entries ?ht') = length es' + length rs"
      using rs [THEN arg_cong [where f = size]] by simp_all
    with inv cnt show ?thesis by (simp add: ht_inv_def algebra_simps)
  qed
  moreover have "key_bucket (e_key e) = i"
    if "i < HT_NUM_BUCKETS" "e \<in> set (buckets ?ht' ! i)" for i e
    using that inv b place ht_inv_length [OF inv] ht_inv_place [OF inv]
    by (cases "i = key_bucket k") auto
  ultimately show ?thesis
    using inv by (simp add: ht_inv_def)
qed

lemma ht_set_inv:
  assumes inv: "ht_inv ht" and set: "ht_set m ht k v = (r, m', ht')"
  shows "ht_inv ht'"
  using set ht_inv_length [OF inv]
proof (cases rule: ht_set_cases)
  case err
  with inv show ?thesis by simp
next
  case (over c1 e c2 p m1)
  have "key_bucket (e_key e) = key_bucket k" using over by simp
  with ht_inv_update [OF inv, of k c1 "[e]" c2 "[e\<lparr>e_val_p := p, e_val := v\<rparr>]" "ht_count ht"] over
  show ?thesis by simp
next
  case (new n)
  have n: "e_key n = k" using new(3) by (rule ht_new_node_Some)
  have "k \<notin> set (ht_keys ht)"
    using new(2) ht_keys_dom [OF inv] by (simp add: ht_abs_def domIff chain_map_None)
  with ht_inv_update [OF inv, of k "[]" "[]" _ "[n]" "ht_count ht + 1"] new n
  show ?thesis by simp
qed

lemma ht_del_inv:
  assumes inv: "ht_inv ht" and del: "ht_del m ht k = (b, m', ht')"
  shows "ht_inv ht'"
  using del
proof (cases rule: ht_del_cases)
  case miss
  with inv show ?thesis by simp
next
  case (hit c1 e c2)
  with ht_inv_update [OF inv, of k c1 "[e]" c2 "[]" "ht_count ht - 1"] show ?thesis by simp
qed

lemma ht_init_inv: "ht_inv ht_init"
  by (simp add: ht_inv_def ht_init_def ht_keys_def ht_entries_def concat_eq_Nil_conv)

section \<open>The operations of a map\<close>

lemma ht_abs_update_other:
  "key_bucket k' \<noteq> i \<Longrightarrow> ht_abs (ht\<lparr>buckets := (buckets ht)[i := c], ht_count := n\<rparr>) k' = ht_abs ht k'"
  by (simp add: ht_abs_def)

lemma ht_abs_update_same:
  "ht_inv ht \<Longrightarrow> key_bucket k' = i \<Longrightarrow>
   ht_abs (ht\<lparr>buckets := (buckets ht)[i := c], ht_count := n\<rparr>) k' = chain_map c k'"
  by (auto simp: ht_abs_def ht_inv_length)

lemma ht_get_abs: "ht_get ht k = ht_abs ht k"
  by (simp add: ht_get_def ht_abs_def key_bucket_def chain_get_map)

lemma ht_init_abs: "ht_abs ht_init = Map.empty"
  by (rule ext) (simp add: ht_abs_def ht_init_def)

lemma ht_set_abs:
  assumes inv: "ht_inv ht" and set: "ht_set m ht k v = (RC_OK, m', ht')"
  shows "ht_abs ht' = (ht_abs ht)(k \<mapsto> v)"
  using set ht_inv_length [OF inv]
proof (cases rule: ht_set_cases)
  case (over c1 e c2 p m1)
  have ht': "ht' = ht\<lparr>buckets := (buckets ht)[key_bucket k := c1 @ e\<lparr>e_val_p := p, e_val := v\<rparr> # c2],
     ht_count := ht_count ht\<rparr>" using over by simp
  have c1: "chain_map c1 k = None" using over(4) by (simp add: chain_map_None)
  show ?thesis
  proof
    fix k'
    show "ht_abs ht' k' = ((ht_abs ht)(k \<mapsto> v)) k'"
    proof (cases "key_bucket k' = key_bucket k")
      case True
      with over(2,3) c1 show ?thesis
        unfolding ht' by (subst ht_abs_update_same [OF inv])
          (auto simp: ht_abs_def chain_map_append chain_map_Cons map_add_def split: option.splits)
    next
      case False
      then show ?thesis unfolding ht' by (subst ht_abs_update_other) auto
    qed
  qed
next
  case (new n)
  then have n: "e_key n = k" "e_val n = v" by (auto dest: ht_new_node_Some)
  show ?thesis
  proof
    fix k'
    show "ht_abs ht' k' = ((ht_abs ht)(k \<mapsto> v)) k'"
    proof (cases "key_bucket k' = key_bucket k")
      case True
      with n show ?thesis
        unfolding new by (subst ht_abs_update_same [OF inv]) (auto simp: ht_abs_def chain_map_Cons)
    next
      case False
      then show ?thesis unfolding new by (subst ht_abs_update_other) auto
    qed
  qed
qed simp

lemma ht_set_err: "ht_inv ht \<Longrightarrow> ht_set m ht k v = (RC_ERR, m', ht') \<Longrightarrow> ht' = ht"
  by (erule ht_set_cases) (auto simp: ht_inv_length)

lemma ht_set_plenty:
  "ht_inv ht \<Longrightarrow> mem_plenty m \<Longrightarrow> ht_set m ht k v = (r, m', ht') \<Longrightarrow> r = RC_OK \<and> mem_plenty m'"
  by (erule ht_set_cases) (auto simp: ht_inv_length dest: mem_plenty_malloc ht_new_node_plenty)

lemma ht_del_abs:
  assumes inv: "ht_inv ht" and del: "ht_del m ht k = (b, m', ht')"
  shows "ht_abs ht' = (ht_abs ht)(k := None)" "b \<longleftrightarrow> ht_abs ht k \<noteq> None"
proof -
  have "ht_abs ht' = (ht_abs ht)(k := None) \<and> (b \<longleftrightarrow> ht_abs ht k \<noteq> None)"
    using del
  proof (cases rule: ht_del_cases)
    case miss
    then show ?thesis by (auto simp: ht_abs_def chain_map_None [symmetric])
  next
    case (hit c1 e c2)
    have "k \<notin> e_key ` set c2"
      using ht_inv_bucket [OF inv, of k] hit by auto
    with hit have c2: "chain_map (c1 @ c2) k = None" by (simp add: chain_map_None image_Un)
    have "ht_abs ht' k' = ((ht_abs ht)(k := None)) k'" for k'
    proof (cases "key_bucket k' = key_bucket k")
      case True
      with hit c2 show ?thesis
        unfolding hit(6) by (subst ht_abs_update_same [OF inv])
          (auto simp: ht_abs_def chain_map_append chain_map_Cons map_add_def split: option.splits)
    next
      case False
      then show ?thesis unfolding hit(6) by (subst ht_abs_update_other) auto
    qed
    moreover have "ht_abs ht k \<noteq> None"
      using hit by (auto simp: ht_abs_def chain_map_None)
    ultimately show ?thesis using hit(1) by blast
  qed
  then show "ht_abs ht' = (ht_abs ht)(k := None)" "b \<longleftrightarrow> ht_abs ht k \<noteq> None" by blast+
qed

interpretation kv: kv_store ht_inv ht_abs ht_get ht_set ht_del ht_keys
proof unfold_locales
  show "distinct (ht_keys s)" if "ht_inv s" for s using that by (simp add: ht_inv_def)
  show "b \<longleftrightarrow> ht_abs s k \<noteq> None" if "ht_inv s" "ht_del m s k = (b, m', s')" for s m k b m' s'
    using that by (rule ht_del_abs(2))
qed (auto simp: ht_get_abs ht_keys_dom ht_set_abs ht_set_err ht_del_abs(1) intro: ht_set_inv ht_del_inv)

section \<open>Counting\<close>

lemma ht_entries_length: "ht_inv ht \<Longrightarrow> length (ht_entries ht) = card (dom (ht_abs ht))"
  using kv.keys_length [of ht] by (simp add: ht_keys_def)

lemma ht_count_card: "ht_inv ht \<Longrightarrow> ht_count ht = word_of_nat (card (dom (ht_abs ht)))"
  by (frule ht_entries_length) (simp add: ht_inv_def)

lemma ht_set_count:
  assumes "ht_inv ht" "ht_set m ht k v = (RC_OK, m', ht')"
  shows "ht_count ht' = (if k \<in> dom (ht_abs ht) then ht_count ht else ht_count ht + 1)"
  using assms(2) ht_inv_length [OF assms(1)]
proof (cases rule: ht_set_cases)
  case (over c1 e c2 p m1)
  then have "k \<in> dom (ht_abs ht)" by (auto simp: ht_abs_def dom_chain_map domIff chain_map_None)
  with over show ?thesis by simp
next
  case (new n)
  then have "k \<notin> dom (ht_abs ht)" by (simp add: ht_abs_def domIff chain_map_None)
  with new show ?thesis by simp
qed simp

section \<open>Ownership: no leak, no double free\<close>

lemma mset_ht_blocks:
  "mset (ht_entries ht) = mset es \<Longrightarrow> mset (ht_blocks ht) = mset (concat (map entry_blocks es))"
  unfolding ht_blocks_def mset_concat_map by simp

lemma ht_blocks_update:
  assumes "ht_inv ht" "buckets ht ! key_bucket k = c1 @ es @ c2"
    "ht' = ht\<lparr>buckets := (buckets ht)[key_bucket k := c1 @ es' @ c2], ht_count := n\<rparr>"
  shows "mset (ht_blocks ht') + mset (concat (map entry_blocks es)) =
    mset (ht_blocks ht) + mset (concat (map entry_blocks es'))"
proof (rule ht_entries_update [OF assms(1,2)])
  fix rs
  assume "mset (ht_entries ht) = mset (es @ rs)"
    and "\<And>es' n. mset (ht_entries (ht\<lparr>buckets := (buckets ht)[key_bucket k := c1 @ es' @ c2],
       ht_count := n\<rparr>)) = mset (es' @ rs)"
  then have "mset (ht_entries ht) = mset (es @ rs)" "mset (ht_entries ht') = mset (es' @ rs)"
    by (simp_all only: assms(3))
  then show ?thesis
    by (simp add: mset_ht_blocks [of ht "es @ rs"] mset_ht_blocks [of ht' "es' @ rs"] ac_simps)
qed

lemma owns_free_entry: "owns m (entry_blocks e @ xs) F \<Longrightarrow> owns (free_entry e m) xs F"
  by (simp add: free_entry_def entry_blocks_def owns_mfree)

lemma ht_set_owns:
  assumes inv: "ht_inv ht" and set: "ht_set m ht k v = (r, m', ht')" and own: "owns m (ht_blocks ht) F"
  shows "owns m' (ht_blocks ht') F"
  using set ht_inv_length [OF inv]
proof (cases rule: ht_set_cases)
  case err
  with own show ?thesis by blast
next
  case (over c1 e c2 p m1)
  have "mset (ht_blocks ht') + mset (entry_blocks e) =
      mset (ht_blocks ht) + mset (entry_blocks (e\<lparr>e_val_p := p, e_val := v\<rparr>))"
    using ht_blocks_update [OF inv, of k c1 "[e]" c2 ht' "ht_count ht" "[e\<lparr>e_val_p := p, e_val := v\<rparr>]"]
      over(2,7) by simp
  then have "mset (p # ht_blocks ht) = mset (e_val_p e # ht_blocks ht')"
    by (simp add: entry_blocks_def)
  moreover have "owns m1 (p # ht_blocks ht) F" using own over(5) by (rule owns_malloc)
  ultimately show ?thesis
    unfolding over(6) by (blast intro: owns_mfree_mset)
next
  case (new n)
  have "mset (entry_blocks n @ ht_blocks ht) = mset (ht_blocks ht')"
    using ht_blocks_update [OF inv, of k "[]" "[]" "buckets ht ! key_bucket k" ht' "ht_count ht + 1" "[n]"]
      new(4) by simp
  with ht_new_node_Some(3) [OF new(3) own] show ?thesis using owns_mset by blast
qed

lemma ht_del_owns:
  assumes inv: "ht_inv ht" and del: "ht_del m ht k = (b, m', ht')" and own: "owns m (ht_blocks ht) F"
  shows "owns m' (ht_blocks ht') F"
  using del
proof (cases rule: ht_del_cases)
  case miss
  with own show ?thesis by simp
next
  case (hit c1 e c2)
  have "mset (ht_blocks ht) = mset (entry_blocks e @ ht_blocks ht')"
    using ht_blocks_update [OF inv, of k c1 "[e]" c2 ht' "ht_count ht - 1" "[]"] hit(2,6) by (simp add: ac_simps)
  with own have "owns m (entry_blocks e @ ht_blocks ht') F" using owns_mset by blast
  with hit show ?thesis by (simp add: owns_free_entry)
qed

lemma free_chain_owns:
  "owns m (concat (map entry_blocks c) @ xs) F \<Longrightarrow> owns (free_chain c m) xs F"
  by (induction c arbitrary: m) (auto intro: owns_free_entry)

lemma destroy_buckets_owns:
  "destroy_buckets m bs = (m', bs') \<Longrightarrow>
   owns m (concat (map entry_blocks (concat bs)) @ xs) F \<Longrightarrow>
   owns m' xs F \<and> bs' = replicate (length bs) []"
proof (induction bs arbitrary: m bs')
  case (Cons c bs)
  then obtain d where "destroy_buckets (free_chain c m) bs = (m', d)" "bs' = [] # d"
    by (auto split: prod.splits)
  with Cons.IH Cons.prems(2) free_chain_owns [of m c] show ?case by fastforce
qed simp

lemma destroy_buckets_shape: "snd (destroy_buckets m bs) = replicate (length bs) []"
  by (induction bs arbitrary: m) (auto split: prod.splits simp: prod_eq_iff)

lemma ht_destroy_eq:
  "ht_inv ht \<Longrightarrow> ht_destroy m ht = (m', ht') \<Longrightarrow> ht' = ht_init"
  using destroy_buckets_shape [of m "buckets ht"]
  by (auto simp: ht_destroy_def ht_init_def ht_inv_length split: prod.splits)

lemma ht_destroy_owns:
  "ht_destroy m ht = (m', ht') \<Longrightarrow> owns m (ht_blocks ht @ xs) F \<Longrightarrow> owns m' xs F"
  using destroy_buckets_owns [of m "buckets ht"]
  by (auto simp: ht_destroy_def ht_blocks_def ht_entries_def split: prod.splits)

lemma free_entry_plenty [simp]: "mem_plenty (free_entry e m) = mem_plenty m"
  by (simp add: free_entry_def)

lemma ht_del_plenty: "ht_del m ht k = (b, m', ht') \<Longrightarrow> mem_plenty m \<Longrightarrow> mem_plenty m'"
  by (erule ht_del_cases) auto

lemma free_chain_plenty [simp]: "mem_plenty (free_chain c m) = mem_plenty m"
  by (induction c arbitrary: m) auto

lemma destroy_buckets_plenty: "mem_plenty (fst (destroy_buckets m bs)) = mem_plenty m"
  by (induction bs arbitrary: m) (auto split: prod.splits simp: prod_eq_iff)

lemma ht_destroy_plenty: "ht_destroy m ht = (m', ht') \<Longrightarrow> mem_plenty m' = mem_plenty m"
  using destroy_buckets_plenty [of m "buckets ht"] by (auto simp: ht_destroy_def split: prod.splits)

section \<open>Iteration\<close>

lemma scan_chain_append:
  "scan_chain cb (xs @ ys) n ud =
    (case scan_chain cb xs n ud of
       (stopped, n', ud') \<Rightarrow> (if stopped then (True, n', ud') else scan_chain cb ys n' ud'))"
  by (induction xs arbitrary: n ud) (auto split: prod.splits)

lemma scan_buckets_flat: "scan_buckets cb bs n ud = snd (scan_chain cb (concat bs) n ud)"
  by (induction bs arbitrary: n ud) (auto simp: scan_chain_append split: prod.splits)

lemma ht_scan_flat: "ht_scan ht cb ud = snd (scan_chain cb (ht_entries ht) 0 ud)"
  by (simp add: ht_scan_def scan_buckets_flat ht_entries_def)

lemma scan_chain_all:
  "(\<And>k v ud. fst (cb k v ud)) \<Longrightarrow>
   scan_chain cb es n ud =
     (False, n + length es, fold (\<lambda>e ud. snd (cb (e_key e) (e_val e) ud)) es ud)"
proof (induction es arbitrary: n ud)
  case (Cons e es)
  obtain g ud' where "cb (e_key e) (e_val e) ud = (g, ud')" by fastforce
  with Cons.prems [of "e_key e" "e_val e" ud] Cons.IH [OF Cons.prems] show ?case by simp
qed simp

lemma ht_entries_map_of:
  assumes "ht_inv ht"
  shows "map_of (map (\<lambda>e. (e_key e, e_val e)) (ht_entries ht)) = ht_abs ht"
proof
  fix k
  let ?kv = "\<lambda>e. (e_key e, e_val e)" and ?i = "key_bucket k"
  have d: "distinct (map fst (map ?kv (ht_entries ht)))"
    using assms by (simp add: ht_inv_def ht_keys_def o_def)
  show "map_of (map ?kv (ht_entries ht)) k = ht_abs ht k"
  proof (cases "ht_abs ht k")
    case None
    then have "k \<notin> set (ht_keys ht)" using ht_keys_dom [OF assms] by auto
    then show ?thesis by (auto simp: None map_of_eq_None_iff ht_keys_def)
  next
    case (Some v)
    then have "(k, v) \<in> set (map ?kv (buckets ht ! ?i))"
      by (auto simp: ht_abs_def chain_map_def dest: map_of_SomeD)
    moreover have "buckets ht ! ?i \<in> set (buckets ht)" using ht_inv_length [OF assms] by simp
    ultimately have "(k, v) \<in> set (map ?kv (ht_entries ht))" by (auto simp: ht_entries_def)
    with d have "map_of (map ?kv (ht_entries ht)) k = Some v" by (rule map_of_is_SomeI)
    with Some show ?thesis by simp
  qed
qed

end
