(* ===== verification/Ht_Heap.thy ===== *)
theory Ht_Heap
  imports Hashtable "HOL-Library.Monad_Syntax"
begin

text \<open>
  \<open>hashtable.c\<close> with its pointers: nodes linked by \<open>next\<close> in an explicit store, byte blocks
  behind the key and value pointers, loops that chase pointers, the pointer-to-pointer walk of
  \<open>ht_del\<close>. Reading or writing what is not there (a freed block, a block of another kind,
  bytes past its end) has no result, and so has a walk that does not end. The theory shows that
  from a sound table none of this happens and that the operations do what \<open>Hashtable\<close> says.
\<close>

section \<open>The store\<close>

record node =
  nd_next :: "addr option"
  nd_key :: addr
  nd_klen :: size_t
  nd_val :: addr
  nd_vlen :: size_t

datatype block = Raw | Node node | Bytes bytes

text \<open>The blocks that are allocated, beside the allocator of the prelude. The null pointer is \<open>None\<close>.\<close>

record heap =
  hp_mem :: mem
  hp_at :: "addr \<rightharpoonup> block"

record ptable =
  pt_buckets :: "addr option list"
  pt_count :: size_t

definition h_alloc :: "heap \<Rightarrow> block \<Rightarrow> addr option \<times> heap" where
  "h_alloc h b = (case malloc (hp_mem h) of
     (None, m) \<Rightarrow> (None, h\<lparr>hp_mem := m\<rparr>)
   | (Some a, m) \<Rightarrow> (Some a, h\<lparr>hp_mem := m, hp_at := (hp_at h)(a \<mapsto> b)\<rparr>))"

definition h_free :: "addr \<Rightarrow> heap \<Rightarrow> heap" where
  "h_free a h = h\<lparr>hp_mem := mfree a (hp_mem h), hp_at := (hp_at h)(a := None)\<rparr>"

definition rd_node :: "heap \<Rightarrow> addr \<Rightarrow> node option" where
  "rd_node h a = (case hp_at h a of Some (Node n) \<Rightarrow> Some n | _ \<Rightarrow> None)"

definition rd_bytes :: "heap \<Rightarrow> addr \<Rightarrow> size_t \<Rightarrow> bytes option" where
  "rd_bytes h a n = (case hp_at h a of
     Some (Bytes bs) \<Rightarrow> if unat n \<le> length bs then Some (take (unat n) bs) else None
   | _ \<Rightarrow> None)"

text \<open>A store through a node pointer; the fields of a fresh block are written together.\<close>

definition wr_node :: "addr \<Rightarrow> node \<Rightarrow> heap \<Rightarrow> heap option" where
  "wr_node a n h = (case hp_at h a of
     Some (Bytes _) \<Rightarrow> None
   | None \<Rightarrow> None
   | _ \<Rightarrow> Some (h\<lparr>hp_at := (hp_at h)(a \<mapsto> Node n)\<rparr>))"

section \<open>The operations\<close>

definition pt_init :: ptable where
  "pt_init = \<lparr>pt_buckets = replicate HT_NUM_BUCKETS None, pt_count = 0\<rparr>"

definition p_keys_equal :: "heap \<Rightarrow> addr \<Rightarrow> size_t \<Rightarrow> bytes \<Rightarrow> bool option" where
  "p_keys_equal h a alen key =
     (if alen \<noteq> size_of key then Some False
      else if alen = 0 then Some True
      else do { bs \<leftarrow> rd_bytes h a alen; Some (memcmp_eq bs key (unat alen)) })"

text \<open>The loop that \<open>ht_set\<close> and \<open>ht_get\<close> share: the node of the key, or null.\<close>

partial_function (option) p_find :: "heap \<Rightarrow> bytes \<Rightarrow> addr option \<Rightarrow> addr option option" where
  "p_find h key cur = (case cur of
     None \<Rightarrow> Some None
   | Some a \<Rightarrow> do {
       n \<leftarrow> rd_node h a;
       eq \<leftarrow> p_keys_equal h (nd_key n) (nd_klen n) key;
       if eq then Some (Some a) else p_find h key (nd_next n) })"

text \<open>A hit is the borrowed pointer and the length.\<close>

definition p_get :: "heap \<Rightarrow> ptable \<Rightarrow> bytes \<Rightarrow> (addr \<times> size_t) option option" where
  "p_get h t key = do {
     r \<leftarrow> p_find h key (pt_buckets t ! bucket_index (ht_hash key));
     case r of None \<Rightarrow> Some None
     | Some a \<Rightarrow> do { n \<leftarrow> rd_node h a; Some (Some (nd_val n, nd_vlen n)) } }"

text \<open>An empty source gets a block of one byte.\<close>

definition p_dup_bytes :: "heap \<Rightarrow> bytes \<Rightarrow> addr option \<times> heap" where
  "p_dup_bytes h src = h_alloc h (Bytes (if src = [] then [0] else src))"

definition p_new_node :: "heap \<Rightarrow> bytes \<Rightarrow> bytes \<Rightarrow> addr option \<Rightarrow> (addr option \<times> heap) option" where
  "p_new_node h key val nxt =
     (case h_alloc h Raw of
        (None, h1) \<Rightarrow> Some (None, h1)
      | (Some nd, h1) \<Rightarrow>
     (case p_dup_bytes h1 key of
        (None, h2) \<Rightarrow> Some (None, h_free nd h2)
      | (Some kp, h2) \<Rightarrow>
     (case p_dup_bytes h2 val of
        (None, h3) \<Rightarrow> Some (None, h_free nd (h_free kp h3))
      | (Some vp, h3) \<Rightarrow> do {
          h4 \<leftarrow> wr_node nd \<lparr>nd_next = nxt, nd_key = kp, nd_klen = size_of key, nd_val = vp, nd_vlen = size_of val\<rparr> h3;
          Some (Some nd, h4) })))"

definition p_set :: "heap \<Rightarrow> ptable \<Rightarrow> bytes \<Rightarrow> bytes \<Rightarrow> (rc \<times> heap \<times> ptable) option" where
  "p_set h t key val =
     (let idx = bucket_index (ht_hash key) in do {
        r \<leftarrow> p_find h key (pt_buckets t ! idx);
        case r of
          Some a \<Rightarrow>
            (case p_dup_bytes h val of
               (None, h1) \<Rightarrow> Some (RC_ERR, h1, t)
             | (Some new_val, h1) \<Rightarrow> do {
                 n \<leftarrow> rd_node h1 a;
                 h2 \<leftarrow> wr_node a (n\<lparr>nd_val := new_val, nd_vlen := size_of val\<rparr>) (h_free (nd_val n) h1);
                 Some (RC_OK, h2, t) })
        | None \<Rightarrow> do {
            (nd, h1) \<leftarrow> p_new_node h key val (pt_buckets t ! idx);
            case nd of
              None \<Rightarrow> Some (RC_ERR, h1, t)
            | Some a \<Rightarrow> Some (RC_OK, h1, t\<lparr>pt_buckets := (pt_buckets t)[idx := Some a], pt_count := pt_count t + 1\<rparr>) } })"

definition p_free_entry :: "addr \<Rightarrow> heap \<Rightarrow> heap option" where
  "p_free_entry a h = do {
     n \<leftarrow> rd_node h a;
     Some (h_free a (h_free (nd_val n) (h_free (nd_key n) h))) }"

text \<open>The \<open>ht_entry_t **\<close> of \<open>ht_del\<close>: a bucket slot or the \<open>next\<close> field of a node.\<close>

datatype link = Slot nat | Next addr

fun rd_link :: "heap \<Rightarrow> ptable \<Rightarrow> link \<Rightarrow> addr option option" where
  "rd_link h t (Slot i) = Some (pt_buckets t ! i)"
| "rd_link h t (Next a) = map_option nd_next (rd_node h a)"

fun wr_link :: "link \<Rightarrow> addr option \<Rightarrow> heap \<Rightarrow> ptable \<Rightarrow> (heap \<times> ptable) option" where
  "wr_link (Slot i) p h t = Some (h, t\<lparr>pt_buckets := (pt_buckets t)[i := p]\<rparr>)"
| "wr_link (Next a) p h t = do { n \<leftarrow> rd_node h a; h' \<leftarrow> wr_node a (n\<lparr>nd_next := p\<rparr>) h; Some (h', t) }"

partial_function (option) p_del_loop ::
  "heap \<Rightarrow> ptable \<Rightarrow> bytes \<Rightarrow> link \<Rightarrow> (bool \<times> heap \<times> ptable) option" where
  "p_del_loop h t key link = do {
     p \<leftarrow> rd_link h t link;
     (case p of
        None \<Rightarrow> Some (False, h, t)
      | Some cur \<Rightarrow> do {
          n \<leftarrow> rd_node h cur;
          eq \<leftarrow> p_keys_equal h (nd_key n) (nd_klen n) key;
          if eq then do {
            (h1, t1) \<leftarrow> wr_link link (nd_next n) h t;
            h2 \<leftarrow> p_free_entry cur h1;
            Some (True, h2, t1\<lparr>pt_count := pt_count t1 - 1\<rparr>) }
          else p_del_loop h t key (Next cur) }) }"

definition p_del :: "heap \<Rightarrow> ptable \<Rightarrow> bytes \<Rightarrow> (bool \<times> heap \<times> ptable) option" where
  "p_del h t key = p_del_loop h t key (Slot (bucket_index (ht_hash key)))"

partial_function (option) p_free_chain :: "heap \<Rightarrow> addr option \<Rightarrow> heap option" where
  "p_free_chain h cur = (case cur of
     None \<Rightarrow> Some h
   | Some a \<Rightarrow> do { n \<leftarrow> rd_node h a; h1 \<leftarrow> p_free_entry a h; p_free_chain h1 (nd_next n) })"

fun p_destroy_buckets :: "heap \<Rightarrow> addr option list \<Rightarrow> (heap \<times> addr option list) option" where
  "p_destroy_buckets h [] = Some (h, [])"
| "p_destroy_buckets h (p # ps) = do {
     h1 \<leftarrow> p_free_chain h p;
     (h2, ps') \<leftarrow> p_destroy_buckets h1 ps;
     Some (h2, None # ps') }"

definition p_destroy :: "heap \<Rightarrow> ptable \<Rightarrow> (heap \<times> ptable) option" where
  "p_destroy h t = do { (h', ps) \<leftarrow> p_destroy_buckets h (pt_buckets t); Some (h', t\<lparr>pt_buckets := ps, pt_count := 0\<rparr>) }"

text \<open>The callback gets the bytes behind the borrowed pointers.\<close>

partial_function (option) p_scan_chain ::
  "heap \<Rightarrow> 'u scan_cb \<Rightarrow> addr option \<Rightarrow> nat \<Rightarrow> 'u \<Rightarrow> (bool \<times> nat \<times> 'u) option" where
  "p_scan_chain h cb cur visited ud = (case cur of
     None \<Rightarrow> Some (False, visited, ud)
   | Some a \<Rightarrow> do {
       n \<leftarrow> rd_node h a;
       k \<leftarrow> rd_bytes h (nd_key n) (nd_klen n);
       v \<leftarrow> rd_bytes h (nd_val n) (nd_vlen n);
       (case cb k v ud of
          (go, ud') \<Rightarrow> if \<not> go then Some (True, Suc visited, ud') else p_scan_chain h cb (nd_next n) (Suc visited) ud') })"

fun p_scan_buckets :: "heap \<Rightarrow> 'u scan_cb \<Rightarrow> addr option list \<Rightarrow> nat \<Rightarrow> 'u \<Rightarrow> (nat \<times> 'u) option" where
  "p_scan_buckets h cb [] visited ud = Some (visited, ud)"
| "p_scan_buckets h cb (p # ps) visited ud = do {
     (stopped, visited', ud') \<leftarrow> p_scan_chain h cb p visited ud;
     if stopped then Some (visited', ud') else p_scan_buckets h cb ps visited' ud' }"

definition p_scan :: "heap \<Rightarrow> ptable \<Rightarrow> 'u scan_cb \<Rightarrow> 'u \<Rightarrow> (nat \<times> 'u) option" where
  "p_scan h t cb ud = p_scan_buckets h cb (pt_buckets t) 0 ud"

section \<open>Chains in the store\<close>

definition bytes_at :: "heap \<Rightarrow> addr \<Rightarrow> bytes \<Rightarrow> bool" where
  "bytes_at h a bs \<longleftrightarrow> length bs \<le> SIZE_MAX \<and>
     (\<exists>more. hp_at h a = Some (Bytes (bs @ more)))"

definition entry_at :: "heap \<Rightarrow> node \<Rightarrow> ht_entry \<Rightarrow> bool" where
  "entry_at h n e \<longleftrightarrow> hp_at h (e_node e) = Some (Node n) \<and>
     nd_key n = e_key_p e \<and> nd_klen n = size_of (e_key e) \<and> bytes_at h (e_key_p e) (e_key e) \<and>
     nd_val n = e_val_p e \<and> nd_vlen n = size_of (e_val e) \<and> bytes_at h (e_val_p e) (e_val e)"

text \<open>\<open>seg h p es q\<close>: following \<open>next\<close> from \<open>p\<close> visits the entries \<open>es\<close> and arrives at \<open>q\<close>.\<close>

fun seg :: "heap \<Rightarrow> addr option \<Rightarrow> ht_entry list \<Rightarrow> addr option \<Rightarrow> bool" where
  "seg h p [] q \<longleftrightarrow> p = q"
| "seg h p (e # es) q \<longleftrightarrow> p = Some (e_node e) \<and> (\<exists>n. entry_at h n e \<and> seg h (nd_next n) es q)"

definition blocks :: "ht_entry list \<Rightarrow> addr set" where
  "blocks es = set (concat (map entry_blocks es))"

lemma blocks_simps [simp]: "blocks [] = {}" "blocks (e # es) = {e_key_p e, e_val_p e, e_node e} \<union> blocks es"
  "blocks (xs @ ys) = blocks xs \<union> blocks ys"
  by (auto simp: blocks_def entry_blocks_def)

lemma entry_at_frame:
  assumes "\<forall>a\<in>set (entry_blocks e). hp_at h' a = hp_at h a"
  shows "entry_at h' n e = entry_at h n e"
  using assms by (simp add: entry_at_def bytes_at_def entry_blocks_def)

lemma seg_frame: "\<forall>a\<in>blocks es. hp_at h' a = hp_at h a \<Longrightarrow> seg h' p es q = seg h p es q"
proof (induction es arbitrary: p)
  case (Cons e es)
  have "entry_at h' n e = entry_at h n e" for n
    by (rule entry_at_frame) (use Cons.prems in \<open>auto simp: entry_blocks_def\<close>)
  with Cons show ?case by simp
qed simp

lemma seg_append: "seg h p (xs @ ys) q \<longleftrightarrow> (\<exists>r. seg h p xs r \<and> seg h r ys q)"
  by (induction xs arbitrary: p) auto

lemma seg_node: "seg h p (xs @ e # ys) q \<longleftrightarrow>
  seg h p xs (Some (e_node e)) \<and> (\<exists>n. entry_at h n e \<and> seg h (nd_next n) ys q)"
  by (auto simp: seg_append)

text \<open>Reading an entry.\<close>

lemma entry_at_reads:
  assumes "entry_at h n e"
  shows "rd_node h (e_node e) = Some n" "rd_bytes h (nd_key n) (nd_klen n) = Some (e_key e)"
    "rd_bytes h (nd_val n) (nd_vlen n) = Some (e_val e)"
  using assms by (auto simp: entry_at_def rd_node_def bytes_at_def rd_bytes_def unat_size_of)

lemma p_keys_equal_entry:
  assumes "entry_at h n e" "length key \<le> SIZE_MAX"
  shows "p_keys_equal h (nd_key n) (nd_klen n) key = Some (e_key e = key)"
proof -
  have k: "nd_klen n = size_of (e_key e)" "length (e_key e) \<le> SIZE_MAX"
    using assms(1) by (auto simp: entry_at_def bytes_at_def)
  then have len: "size_of (e_key e) = size_of key \<longleftrightarrow> length (e_key e) = length key" "size_of (e_key e) = 0 \<longleftrightarrow> e_key e = []"
    using assms(2) by (auto simp: word_unat_eq_iff unat_size_of)
  show ?thesis
    using entry_at_reads(2) [OF assms(1)] len k
    by (auto simp: p_keys_equal_def unat_size_of memcmp_eq_iff)
qed

lemma p_find_seg:
  "seg h p es None \<Longrightarrow> length key \<le> SIZE_MAX \<Longrightarrow>
   p_find h key p = Some (map_option e_node (find (\<lambda>e. e_key e = key) es))"
proof (induction es arbitrary: p)
  case Nil
  then show ?case by (subst p_find.simps) simp
next
  case (Cons e es)
  then obtain n where "p = Some (e_node e)" "entry_at h n e" "seg h (nd_next n) es None" by auto
  with Cons.IH Cons.prems(2) show ?case
    by (subst p_find.simps) (simp add: entry_at_reads p_keys_equal_entry)
qed

section \<open>Tables in the store\<close>

definition represents :: "heap \<Rightarrow> ptable \<Rightarrow> hashtable \<Rightarrow> bool" where
  "represents h t ht \<longleftrightarrow>
     length (pt_buckets t) = HT_NUM_BUCKETS \<and> length (buckets ht) = HT_NUM_BUCKETS \<and>
     pt_count t = ht_count ht \<and>
     (\<forall>i < HT_NUM_BUCKETS. seg h (pt_buckets t ! i) (buckets ht ! i) None)"

text \<open>The entries of a bucket, and those of the rest of the table, own different blocks.\<close>

lemma blocks_nth_subset: "i < length bs \<Longrightarrow> blocks (bs ! i) \<subseteq> blocks (concat bs)"
  by (auto simp: blocks_def) (metis nth_mem)

lemma concat_split:
  "i < length bs \<Longrightarrow> concat bs = concat (take i bs) @ bs ! i @ concat (drop (Suc i) bs)"
  using arg_cong [OF id_take_nth_drop [of i bs], of concat] by (simp only: concat_append concat.simps)

lemma distinct_buckets:
  assumes "distinct (concat (map entry_blocks (concat bs)))" "i < length bs" "j < length bs" "i \<noteq> j"
  shows "blocks (bs ! i) \<inter> blocks (bs ! j) = {}"
proof -
  have "blocks (bs ! j) \<subseteq> blocks (concat (take i bs)) \<union> blocks (concat (drop (Suc i) bs))"
  proof (cases "j < i")
    case True
    then show ?thesis using blocks_nth_subset [of j "take i bs"] assms(2) by auto
  next
    case False
    then have "bs ! j = drop (Suc i) bs ! (j - Suc i)" "j - Suc i < length (drop (Suc i) bs)"
      using assms(3,4) by auto
    then show ?thesis using blocks_nth_subset [of "j - Suc i" "drop (Suc i) bs"] by auto
  qed
  moreover have "blocks (bs ! i) \<inter> (blocks (concat (take i bs)) \<union> blocks (concat (drop (Suc i) bs))) = {}"
    using assms(1) unfolding concat_split [OF assms(2)] map_append concat_append distinct_append blocks_def set_append
    by blast
  ultimately show ?thesis by blast
qed

lemma distinct_bucket:
  assumes "distinct (concat (map entry_blocks (concat bs)))" "i < length bs"
  shows "distinct (concat (map entry_blocks (bs ! i)))"
  using assms(1) unfolding concat_split [OF assms(2)] by simp

lemma set_ht_blocks: "set (ht_blocks ht) = blocks (concat (buckets ht))"
  by (simp add: ht_blocks_def ht_entries_def blocks_def)

text \<open>A step that touches only new blocks and blocks of bucket \<open>i\<close>, and relinks that bucket.\<close>

lemma represents_step:
  assumes rep: "represents h t ht" and dist: "distinct (ht_blocks ht)" and i: "i < HT_NUM_BUCKETS"
    and same: "\<And>a. a \<in> set (ht_blocks ht) - blocks (buckets ht ! i) \<Longrightarrow> hp_at h' a = hp_at h a"
    and chain: "seg h' p es None"
  shows "represents h' (t\<lparr>pt_buckets := (pt_buckets t)[i := p], pt_count := n\<rparr>)
    (ht\<lparr>buckets := (buckets ht)[i := es], ht_count := n\<rparr>)"
proof -
  have len: "length (buckets ht) = HT_NUM_BUCKETS" using rep by (simp add: represents_def)
  have "seg h' (pt_buckets t ! j) (buckets ht ! j) None" if j: "j < HT_NUM_BUCKETS" "j \<noteq> i" for j
  proof -
    have "blocks (buckets ht ! j) \<inter> blocks (buckets ht ! i) = {}" "blocks (buckets ht ! j) \<subseteq> set (ht_blocks ht)"
      using distinct_buckets [of "buckets ht" j i] blocks_nth_subset [of j "buckets ht"] dist i j len
      by (auto simp: set_ht_blocks) (auto simp: ht_blocks_def ht_entries_def)
    then have "seg h' (pt_buckets t ! j) (buckets ht ! j) None = seg h (pt_buckets t ! j) (buckets ht ! j) None"
      by (intro seg_frame) (use same in blast)
    then show ?thesis using rep j by (simp add: represents_def)
  qed
  then show ?thesis
    using rep chain i by (auto simp: represents_def nth_list_update)
qed

lemma represents_init: "represents h pt_init ht_init"
  by (simp add: represents_def pt_init_def ht_init_def)

text \<open>What is not touched at all.\<close>

lemma represents_frame:
  assumes "represents h t ht" "\<And>a. a \<in> set (ht_blocks ht) \<Longrightarrow> hp_at h' a = hp_at h a"
  shows "represents h' t ht"
proof -
  have "seg h' (pt_buckets t ! i) (buckets ht ! i) None = seg h (pt_buckets t ! i) (buckets ht ! i) None"
    if "i < HT_NUM_BUCKETS" for i
    by (rule seg_frame) (use assms that blocks_nth_subset [of i "buckets ht"] in \<open>auto simp: represents_def set_ht_blocks\<close>)
  with assms(1) show ?thesis by (simp add: represents_def)
qed

section \<open>Lookup\<close>

definition entry_of :: "hashtable \<Rightarrow> bytes \<Rightarrow> ht_entry option" where
  "entry_of ht key = find (\<lambda>e. e_key e = key) (buckets ht ! key_bucket key)"

lemma ht_get_entry: "ht_get ht key = map_option e_val (entry_of ht key)"
proof -
  have "chain_get c key = map_option e_val (find (\<lambda>e. e_key e = key) c)" for c by (induction c) auto
  then show ?thesis by (simp add: ht_get_def entry_of_def key_bucket_def)
qed

lemma seg_entry_at: "seg h p es None \<Longrightarrow> e \<in> set es \<Longrightarrow> \<exists>n. entry_at h n e"
  by (induction es arbitrary: p) auto

lemma p_get_entry:
  assumes "represents h t ht" "length key \<le> SIZE_MAX"
  shows "p_get h t key = Some (map_option (\<lambda>e. (e_val_p e, size_of (e_val e))) (entry_of ht key))"
    "entry_of ht key = Some e \<Longrightarrow> rd_bytes h (e_val_p e) (size_of (e_val e)) = Some (e_val e)"
proof -
  let ?i = "key_bucket key"
  have s: "seg h (pt_buckets t ! ?i) (buckets ht ! ?i) None" using assms(1) by (simp add: represents_def)
  have at: "\<exists>n. entry_at h n e" if "entry_of ht key = Some e" for e
    using seg_entry_at [OF s] that by (auto simp: entry_of_def find_Some_iff)
  show "p_get h t key = Some (map_option (\<lambda>e. (e_val_p e, size_of (e_val e))) (entry_of ht key))"
  proof (cases "entry_of ht key")
    case None
    with p_find_seg [OF s assms(2)] show ?thesis by (simp add: p_get_def key_bucket_def [symmetric] entry_of_def)
  next
    case (Some e)
    with at obtain n where "entry_at h n e" by blast
    with p_find_seg [OF s assms(2)] Some show ?thesis
      by (simp add: p_get_def key_bucket_def [symmetric] entry_of_def entry_at_reads)
         (simp add: entry_at_def)
  qed
  show "rd_bytes h (e_val_p e) (size_of (e_val e)) = Some (e_val e)" if "entry_of ht key = Some e"
    using at [OF that] entry_at_reads(3) by (auto simp: entry_at_def)
qed

section \<open>Insertion\<close>

text \<open>
  \<open>simulates F h res pres\<close>: the pointer operation started in \<open>h\<close> has a result, the one \<open>res\<close> of
  the list operation, in a store that represents the new table; blocks \<open>F\<close> of others are as before.
\<close>

definition simulates ::
  "frame \<Rightarrow> heap \<Rightarrow> 'r \<times> mem \<times> hashtable \<Rightarrow> ('r \<times> heap \<times> ptable) option \<Rightarrow> bool" where
  "simulates F h res pres \<longleftrightarrow> (case res of (r, m', ht') \<Rightarrow>
     (\<exists>h' t'. pres = Some (r, h', t') \<and> hp_mem h' = m' \<and> represents h' t' ht' \<and>
        (\<forall>a\<in>fr_live F. hp_at h' a = hp_at h a)))"

lemma malloc_fresh: "owns m xs F \<Longrightarrow> malloc m = (Some a, m') \<Longrightarrow> a \<notin> set xs \<and> a \<notin> fr_live F"
  using malloc_Some(1) [of m a m'] by (auto simp: owns_def)

lemma dup_block: "length bs \<le> SIZE_MAX \<Longrightarrow> hp_at h a = Some (Bytes (if bs = [] then [0] else bs)) \<Longrightarrow> bytes_at h a bs"
  by (auto simp: bytes_at_def)

lemma find_split:
  assumes "find P es = Some e"
  obtains c1 c2 where "es = c1 @ e # c2" "P e" "\<forall>x\<in>set c1. \<not> P x"
proof -
  from assms obtain i where i: "i < length es" "P (es ! i)" "e = es ! i" "\<forall>j<i. \<not> P (es ! j)"
    by (auto simp: find_Some_iff)
  then have "\<forall>x\<in>set (take i es). \<not> P x" by (auto simp: in_set_conv_nth)
  with i show ?thesis by (intro that [of "take i es" "drop (Suc i) es"]) (simp_all add: id_take_nth_drop)
qed

lemma ht_set_existing_hit:
  "\<forall>x\<in>set c1. e_key x \<noteq> key \<Longrightarrow> e_key e = key \<Longrightarrow>
   ht_set_existing m (c1 @ e # c2) key val =
     (case malloc m of
        (None, m') \<Rightarrow> Some (RC_ERR, m', c1 @ e # c2)
      | (Some a, m') \<Rightarrow> Some (RC_OK, mfree (e_val_p e) m', c1 @ e\<lparr>e_val_p := a, e_val := val\<rparr> # c2))"
  by (induction c1) (auto simp: dup_bytes_def split: prod.splits option.splits)

text \<open>The blocks of a chain around one of its entries.\<close>

lemma distinct_chain:
  assumes "distinct (concat (map entry_blocks (c1 @ e # c2)))"
  shows "e_key_p e \<noteq> e_val_p e" "e_key_p e \<noteq> e_node e" "e_val_p e \<noteq> e_node e"
    "blocks [e] \<inter> blocks c1 = {}" "blocks [e] \<inter> blocks c2 = {}" "blocks c1 \<inter> blocks c2 = {}"
  using assms by (auto simp: blocks_def entry_blocks_def)

lemma bucket_of_table:
  assumes "represents h t ht" "distinct (ht_blocks ht)" "i < HT_NUM_BUCKETS"
  shows "seg h (pt_buckets t ! i) (buckets ht ! i) None" "distinct (concat (map entry_blocks (buckets ht ! i)))"
    "blocks (buckets ht ! i) \<subseteq> set (ht_blocks ht)"
  using assms distinct_bucket [of "buckets ht" i] blocks_nth_subset [of i "buckets ht"]
  by (auto simp: represents_def ht_blocks_def ht_entries_def) (auto simp: blocks_def)

lemma represents_count: "represents h t ht \<Longrightarrow> pt_count t = ht_count ht"
  by (simp add: represents_def)

text \<open>A new value block behind the node of entry \<open>e\<close>, and the old one gone.\<close>

lemma overwritten:
  assumes rep: "represents h t ht" and own: "owns (hp_mem h) (ht_blocks ht) F" and i: "i < HT_NUM_BUCKETS"
    and c: "buckets ht ! i = c1 @ e # c2" and len: "length val \<le> SIZE_MAX"
    and new: "a \<notin> set (ht_blocks ht)" "a \<notin> fr_live F"
    and n: "seg h (pt_buckets t ! i) c1 (Some (e_node e))" "entry_at h n e" "seg h (nd_next n) c2 None"
    and h': "hp_at h' = ((hp_at h)(a \<mapsto> Bytes (if val = [] then [0] else val)))
      (e_val_p e := None, e_node e \<mapsto> Node (n\<lparr>nd_val := a, nd_vlen := size_of val\<rparr>))"
  shows "represents h' t (ht\<lparr>buckets := (buckets ht)[i := c1 @ e\<lparr>e_val_p := a, e_val := val\<rparr> # c2]\<rparr>)"
    "\<forall>x\<in>fr_live F. hp_at h' x = hp_at h x"
proof -
  let ?n = "n\<lparr>nd_val := a, nd_vlen := size_of val\<rparr>" and ?e = "e\<lparr>e_val_p := a, e_val := val\<rparr>"
  have dist: "distinct (ht_blocks ht)" and sep: "set (ht_blocks ht) \<inter> fr_live F = {}" using own by (auto simp: owns_def)
  note B = bucket_of_table [OF rep dist i]
  note D = distinct_chain [OF B(2) [unfolded c]]
  have a: "a \<notin> blocks c1" "a \<notin> blocks c2" "a \<noteq> e_key_p e" "a \<noteq> e_val_p e" "a \<noteq> e_node e" using new(1) B(3) c by auto
  have "entry_at h' ?n ?e"
    using n(2) a D(1-3) len dup_block [of val h' a] by (auto simp: entry_at_def h' bytes_at_def)
  moreover have "seg h' (pt_buckets t ! i) c1 (Some (e_node e))" "seg h' (nd_next n) c2 None"
    using n(1,3) a D(4,5) by (subst seg_frame [of _ h' h]; auto simp: h')+
  ultimately have chain: "seg h' (pt_buckets t ! i) (c1 @ ?e # c2) None" by (auto simp: seg_node)
  have same: "hp_at h' x = hp_at h x" if "x \<in> set (ht_blocks ht) - blocks (buckets ht ! i)" for x
    using that new c by (auto simp: h')
  show "represents h' t (ht\<lparr>buckets := (buckets ht)[i := c1 @ ?e # c2]\<rparr>)"
    using represents_step [OF rep dist i same chain, of "pt_count t"] represents_count [OF rep] by (cases ht; cases t) simp
  show "\<forall>x\<in>fr_live F. hp_at h' x = hp_at h x"
    using sep new B(3) c by (auto simp: h')
qed

lemma p_set_overwrite:
  assumes rep: "represents h t ht" and own: "owns (hp_mem h) (ht_blocks ht) F"
    and len: "length key \<le> SIZE_MAX" "length val \<le> SIZE_MAX" and hit: "entry_of ht key = Some e"
  shows "simulates F h (ht_set (hp_mem h) ht key val) (p_set h t key val)"
proof -
  define i where "i = key_bucket key"
  have i: "i < HT_NUM_BUCKETS" by (simp add: i_def)
  have dist: "distinct (ht_blocks ht)" using own by (simp add: owns_def)
  note B = bucket_of_table [OF rep dist i]
  obtain c1 c2 where c: "buckets ht ! i = c1 @ e # c2" "e_key e = key" "\<forall>x\<in>set c1. e_key x \<noteq> key"
    using hit unfolding entry_of_def i_def by (auto elim: find_split)
  have find: "p_find h key (pt_buckets t ! i) = Some (Some (e_node e))"
    using p_find_seg [OF B(1) len(1)] hit by (simp add: entry_of_def i_def)
  obtain n where n: "seg h (pt_buckets t ! i) c1 (Some (e_node e))" "entry_at h n e" "seg h (nd_next n) c2 None"
    using B(1) c(1) by (auto simp: seg_node)
  have idx: "bucket_index (ht_hash key) = i" by (simp add: i_def key_bucket_def)
  obtain p m1 where m: "malloc (hp_mem h) = (p, m1)" by fastforce
  show ?thesis
  proof (cases p)
    case None
    have "represents (h\<lparr>hp_mem := m1\<rparr>) t ht" by (rule represents_frame [OF rep]) simp
    moreover have "ht\<lparr>buckets := (buckets ht)[i := c1 @ e # c2]\<rparr> = ht" by (simp flip: c(1))
    ultimately show ?thesis
      using None m find c ht_set_existing_hit [OF c(3,2)]
      by (simp add: simulates_def ht_set_def p_set_def idx Let_def p_dup_bytes_def h_alloc_def)
  next
    case (Some a)
    have new: "a \<notin> set (ht_blocks ht)" "a \<notin> fr_live F" using malloc_fresh [OF own] m Some by auto
    then have a: "a \<noteq> e_node e" "e_val_p e \<noteq> e_node e"
      using B(3) c(1) distinct_chain(3) [OF B(2) [unfolded c(1)]] by auto
    define h' where "h' = h\<lparr>hp_mem := mfree (e_val_p e) m1,
      hp_at := ((hp_at h)(a \<mapsto> Bytes (if val = [] then [0] else val)))
        (e_val_p e := None, e_node e \<mapsto> Node (n\<lparr>nd_val := a, nd_vlen := size_of val\<rparr>))\<rparr>"
    have "hp_at h' = ((hp_at h)(a \<mapsto> Bytes (if val = [] then [0] else val)))
      (e_val_p e := None, e_node e \<mapsto> Node (n\<lparr>nd_val := a, nd_vlen := size_of val\<rparr>))" by (simp add: h'_def)
    note O = overwritten [OF rep own i c(1) len(2) new n this]
    have "p_set h t key val = Some (RC_OK, h', t)"
      using find n(2) a m Some
      by (simp add: p_set_def idx Let_def p_dup_bytes_def h_alloc_def rd_node_def entry_at_def wr_node_def h_free_def
          h'_def a(2) [symmetric])
    moreover have "ht_set (hp_mem h) ht key val =
        (RC_OK, mfree (e_val_p e) m1, ht\<lparr>buckets := (buckets ht)[i := c1 @ e\<lparr>e_val_p := a, e_val := val\<rparr> # c2]\<rparr>)"
      using ht_set_existing_hit [OF c(3,2)] m Some c(1) by (simp add: ht_set_def idx Let_def)
    ultimately show ?thesis using O by (simp add: simulates_def h'_def)
  qed
qed

text \<open>A fresh node: its three blocks, or everything given back.\<close>

lemma p_new_node_built:
  assumes own: "owns (hp_mem h) xs F" and len: "length key \<le> SIZE_MAX" "length val \<le> SIZE_MAX"
    and new: "ht_new_node (hp_mem h) key val = (r, m')"
  shows "\<exists>h'. p_new_node h key val nxt = Some (map_option e_node r, h') \<and> hp_mem h' = m' \<and>
    (\<forall>a\<in>set xs \<union> fr_live F. hp_at h' a = hp_at h a) \<and>
    (\<forall>e. r = Some e \<longrightarrow> e_key e = key \<and> e_val e = val \<and> (\<exists>n. entry_at h' n e \<and> nd_next n = nxt))"
proof -
  obtain p1 m1 where m1: "malloc (hp_mem h) = (p1, m1)" by fastforce
  show ?thesis
  proof (cases p1)
    case None
    with m1 new show ?thesis by (simp add: p_new_node_def h_alloc_def ht_new_node_def)
  next
    case (Some nd)
    have f1: "nd \<notin> set xs" "nd \<notin> fr_live F" using malloc_fresh [OF own] m1 Some by auto
    have o1: "owns m1 (nd # xs) F" using owns_malloc [OF own] m1 Some by simp
    obtain p2 m2 where m2: "malloc m1 = (p2, m2)" by fastforce
    show ?thesis
    proof (cases p2)
      case None
      with m1 m2 new Some f1 show ?thesis
        by (auto simp: p_new_node_def p_dup_bytes_def h_alloc_def h_free_def ht_new_node_def dup_bytes_def)
    next
      case (Some kp)
      have f2: "kp \<notin> set xs" "kp \<notin> fr_live F" "kp \<noteq> nd" using malloc_fresh [OF o1] m2 Some by auto
      have o2: "owns m2 (kp # nd # xs) F" using owns_malloc [OF o1] m2 Some by simp
      obtain p3 m3 where m3: "malloc m2 = (p3, m3)" by fastforce
      show ?thesis
      proof (cases p3)
        case None
        with m1 m2 m3 new Some \<open>p1 = Some nd\<close> f1 f2 show ?thesis
          by (auto simp: p_new_node_def p_dup_bytes_def h_alloc_def h_free_def ht_new_node_def dup_bytes_def)
      next
        case (Some vp)
        have f3: "vp \<notin> set xs" "vp \<notin> fr_live F" "vp \<noteq> nd" "vp \<noteq> kp" using malloc_fresh [OF o2] m3 Some by auto
        note E = m1 m2 m3 \<open>p1 = Some nd\<close> \<open>p2 = Some kp\<close> Some f1 f2 f3
        have r: "r = Some \<lparr>e_node = nd, e_key_p = kp, e_key = key, e_val_p = vp, e_val = val\<rparr>" "m' = m3"
          using new E by (simp_all add: ht_new_node_def dup_bytes_def)
        have "\<exists>more. (if bs = [] then [0] else bs) = bs @ more" for bs :: bytes by auto
        with E r len show ?thesis
          by (auto simp: p_new_node_def p_dup_bytes_def h_alloc_def wr_node_def entry_at_def bytes_at_def)
      qed
    qed
  qed
qed

lemma p_set_insert:
  assumes rep: "represents h t ht" and own: "owns (hp_mem h) (ht_blocks ht) F"
    and len: "length key \<le> SIZE_MAX" "length val \<le> SIZE_MAX" and miss: "entry_of ht key = None"
  shows "simulates F h (ht_set (hp_mem h) ht key val) (p_set h t key val)"
proof -
  define i where "i = key_bucket key"
  have i: "i < HT_NUM_BUCKETS" by (simp add: i_def)
  have dist: "distinct (ht_blocks ht)" using own by (simp add: owns_def)
  note B = bucket_of_table [OF rep dist i]
  have find: "p_find h key (pt_buckets t ! i) = Some None"
    using p_find_seg [OF B(1) len(1)] miss by (simp add: entry_of_def i_def)
  have none: "ht_set_existing (hp_mem h) (buckets ht ! i) key val = None"
    using miss by (auto simp: ht_set_existing_None entry_of_def i_def find_None_iff)
  have idx: "bucket_index (ht_hash key) = i" by (simp add: i_def key_bucket_def)
  obtain r m' where new: "ht_new_node (hp_mem h) key val = (r, m')" by fastforce
  from p_new_node_built [OF own len new, of "pt_buckets t ! i"] obtain h' where
    h': "p_new_node h key val (pt_buckets t ! i) = Some (map_option e_node r, h')" "hp_mem h' = m'"
      "\<forall>a\<in>set (ht_blocks ht) \<union> fr_live F. hp_at h' a = hp_at h a"
      "\<forall>e. r = Some e \<longrightarrow> (\<exists>n. entry_at h' n e \<and> nd_next n = pt_buckets t ! i)" by auto
  show ?thesis
  proof (cases r)
    case None
    have "represents h' t ht" by (rule represents_frame [OF rep]) (use h'(3) in blast)
    with None find none new h' show ?thesis by (simp add: simulates_def ht_set_def p_set_def idx Let_def)
  next
    case (Some e)
    then obtain n where n: "entry_at h' n e" "nd_next n = pt_buckets t ! i" using h'(4) by blast
    have "seg h' (pt_buckets t ! i) (buckets ht ! i) None"
      using B(1) by (subst seg_frame [of _ h' h]) (use h'(3) B(3) in blast)+
    with n have chain: "seg h' (Some (e_node e)) (e # (buckets ht ! i)) None" by auto
    have same: "hp_at h' x = hp_at h x" if "x \<in> set (ht_blocks ht) - blocks (buckets ht ! i)" for x
      using that h'(3) by blast
    from represents_step [OF rep dist i same chain, of "pt_count t + 1"] Some find none new h' represents_count [OF rep]
    show ?thesis by (simp add: simulates_def ht_set_def p_set_def idx Let_def)
  qed
qed

lemma p_set_simulates:
  assumes "represents h t ht" "owns (hp_mem h) (ht_blocks ht) F" "length key \<le> SIZE_MAX" "length val \<le> SIZE_MAX"
  shows "simulates F h (ht_set (hp_mem h) ht key val) (p_set h t key val)"
  using p_set_insert [OF assms] p_set_overwrite [OF assms] by (cases "entry_of ht key") auto

section \<open>Deletion\<close>

lemma ht_unlink_hit:
  "\<forall>x\<in>set c1. e_key x \<noteq> key \<Longrightarrow> e_key e = key \<Longrightarrow>
   ht_unlink m (c1 @ e # c2) key = Some (free_entry e m, c1 @ c2)"
  by (induction c1) auto

text \<open>The walk of \<open>ht_del\<close> stops at the link behind the entries that do not match.\<close>

definition last_link :: "link \<Rightarrow> ht_entry list \<Rightarrow> link" where
  "last_link l c = (if c = [] then l else Next (e_node (last c)))"

lemma p_del_loop_miss:
  "rd_link h t l = Some p \<Longrightarrow> seg h p es None \<Longrightarrow> length key \<le> SIZE_MAX \<Longrightarrow> \<forall>x\<in>set es. e_key x \<noteq> key \<Longrightarrow>
   p_del_loop h t key l = Some (False, h, t)"
proof (induction es arbitrary: l p)
  case Nil
  then show ?case by (subst p_del_loop.simps) simp
next
  case (Cons e es)
  then obtain n where n: "p = Some (e_node e)" "entry_at h n e" "seg h (nd_next n) es None" by auto
  have "rd_link h t (Next (e_node e)) = Some (nd_next n)" by (simp add: entry_at_reads [OF n(2)])
  from Cons.IH [OF this n(3)] Cons.prems n show ?case
    by (subst p_del_loop.simps) (simp add: entry_at_reads p_keys_equal_entry)
qed

lemma p_del_loop_hit:
  "rd_link h t l = Some p \<Longrightarrow> seg h p c1 (Some (e_node e)) \<Longrightarrow> entry_at h n e \<Longrightarrow> length key \<le> SIZE_MAX \<Longrightarrow>
   \<forall>x\<in>set c1. e_key x \<noteq> key \<Longrightarrow> e_key e = key \<Longrightarrow>
   p_del_loop h t key l = do {
     (h1, t1) \<leftarrow> wr_link (last_link l c1) (nd_next n) h t;
     h2 \<leftarrow> p_free_entry (e_node e) h1;
     Some (True, h2, t1\<lparr>pt_count := pt_count t1 - 1\<rparr>) }"
proof (induction c1 arbitrary: l p)
  case Nil
  then show ?case
    by (subst p_del_loop.simps) (simp add: entry_at_reads p_keys_equal_entry last_link_def)
next
  case (Cons d c1)
  then obtain nd where d: "p = Some (e_node d)" "entry_at h nd d" "seg h (nd_next nd) c1 (Some (e_node e))" by auto
  have "rd_link h t (Next (e_node d)) = Some (nd_next nd)" by (simp add: entry_at_reads [OF d(2)])
  from Cons.IH [OF this d(3)] Cons.prems d show ?case
    by (subst p_del_loop.simps) (simp add: entry_at_reads p_keys_equal_entry last_link_def)
qed

lemma p_free_entry_at:
  "entry_at h n e \<Longrightarrow> p_free_entry (e_node e) h =
     Some (h\<lparr>hp_mem := free_entry e (hp_mem h), hp_at := (hp_at h)(e_key_p e := None, e_val_p e := None, e_node e := None)\<rparr>)"
  by (simp add: p_free_entry_def entry_at_reads, simp add: entry_at_def h_free_def free_entry_def)

text \<open>Relinking behind the entries \<open>c1\<close>: the slot or the last of their nodes.\<close>

lemma wr_link_relinks:
  assumes "seg h (pt_buckets t ! i) c1 q" "distinct (concat (map entry_blocks c1))" "i < length (pt_buckets t)"
  shows "\<exists>h1 p. wr_link (last_link (Slot i) c1) q' h t = Some (h1, t\<lparr>pt_buckets := (pt_buckets t)[i := p]\<rparr>) \<and>
    hp_mem h1 = hp_mem h \<and> seg h1 p c1 q' \<and> (\<forall>a. a \<notin> blocks c1 \<longrightarrow> hp_at h1 a = hp_at h a)"
proof (cases c1 rule: rev_cases)
  case Nil
  then show ?thesis by (simp add: last_link_def)
next
  case (snoc c0 d)
  with assms(1) obtain n where n: "seg h (pt_buckets t ! i) c0 (Some (e_node d))" "entry_at h n d" "nd_next n = q"
    by (auto simp: seg_node)
  note D = distinct_chain [of c0 d "[]"]
  have dd: "e_key_p d \<noteq> e_node d" "e_val_p d \<noteq> e_node d" "e_node d \<notin> blocks c0"
    using D(2,3,4) assms(2) snoc by auto
  define h1 where "h1 = h\<lparr>hp_at := (hp_at h)(e_node d \<mapsto> Node (n\<lparr>nd_next := q'\<rparr>))\<rparr>"
  have "wr_link (last_link (Slot i) c1) q' h t = Some (h1, t)"
    using n(2) snoc by (simp add: last_link_def entry_at_reads h1_def, simp add: wr_node_def entry_at_def)
  moreover have "seg h1 (pt_buckets t ! i) c1 q'"
  proof -
    have "seg h1 (pt_buckets t ! i) c0 (Some (e_node d))"
      using n(1) dd by (subst seg_frame [of _ h1 h]) (auto simp: h1_def)
    moreover have "entry_at h1 (n\<lparr>nd_next := q'\<rparr>) d"
      using n(2) dd by (auto simp: entry_at_def bytes_at_def h1_def)
    ultimately show ?thesis using snoc by (auto simp: seg_node)
  qed
  moreover have "\<forall>a. a \<notin> blocks c1 \<longrightarrow> hp_at h1 a = hp_at h a" using snoc by (auto simp: h1_def)
  ultimately show ?thesis by (intro exI [of _ h1] exI [of _ "pt_buckets t ! i"]) (simp add: h1_def)
qed

lemma p_del_simulates:
  assumes rep: "represents h t ht" and own: "owns (hp_mem h) (ht_blocks ht) F" and len: "length key \<le> SIZE_MAX"
  shows "simulates F h (ht_del (hp_mem h) ht key) (p_del h t key)"
proof -
  define i where "i = key_bucket key"
  have i: "i < HT_NUM_BUCKETS" "i < length (pt_buckets t)" using rep by (simp_all add: i_def represents_def)
  have dist: "distinct (ht_blocks ht)" and sep: "set (ht_blocks ht) \<inter> fr_live F = {}" using own by (auto simp: owns_def)
  note B = bucket_of_table [OF rep dist i(1)]
  have idx: "bucket_index (ht_hash key) = i" by (simp add: i_def key_bucket_def)
  have rd: "rd_link h t (Slot i) = Some (pt_buckets t ! i)" by simp
  show ?thesis
  proof (cases "entry_of ht key")
    case None
    then have miss: "\<forall>x\<in>set (buckets ht ! i). e_key x \<noteq> key" by (simp add: entry_of_def i_def find_None_iff)
    then have "ht_unlink (hp_mem h) (buckets ht ! i) key = None" by (auto simp: ht_unlink_None)
    with p_del_loop_miss [OF rd B(1) len miss] rep show ?thesis
      by (simp add: simulates_def p_del_def ht_del_def idx Let_def)
  next
    case (Some e)
    then obtain c1 c2 where c: "buckets ht ! i = c1 @ e # c2" "e_key e = key" "\<forall>x\<in>set c1. e_key x \<noteq> key"
      unfolding entry_of_def i_def by (auto elim: find_split)
    note D = distinct_chain [OF B(2) [unfolded c(1)]]
    have d1: "distinct (concat (map entry_blocks c1))" using B(2) c(1) by simp
    obtain n where n: "seg h (pt_buckets t ! i) c1 (Some (e_node e))" "entry_at h n e" "seg h (nd_next n) c2 None"
      using B(1) c(1) by (auto simp: seg_node)
    from wr_link_relinks [OF n(1) d1 i(2), of "nd_next n"] obtain h1 p where
      w: "wr_link (last_link (Slot i) c1) (nd_next n) h t = Some (h1, t\<lparr>pt_buckets := (pt_buckets t)[i := p]\<rparr>)"
        "hp_mem h1 = hp_mem h" "seg h1 p c1 (nd_next n)" "\<forall>a. a \<notin> blocks c1 \<longrightarrow> hp_at h1 a = hp_at h a" by blast
    define h2 where "h2 = h1\<lparr>hp_mem := free_entry e (hp_mem h1),
      hp_at := (hp_at h1)(e_key_p e := None, e_val_p e := None, e_node e := None)\<rparr>"
    have "entry_at h1 n e"
      using n(2) D(4) w(4) by (subst entry_at_frame [of _ h1 h]) (auto simp: entry_blocks_def)
    from p_free_entry_at [OF this] have free: "p_free_entry (e_node e) h1 = Some h2" by (simp add: h2_def)
    have out: "hp_at h2 a = hp_at h a" if "a \<notin> blocks c1" "a \<notin> blocks [e]" for a
      using that w(4) by (simp add: h2_def)
    have "seg h2 p c1 (nd_next n)" using w(3) D(4) by (subst seg_frame [of _ h2 h1]) (auto simp: h2_def)
    moreover have "seg h2 (nd_next n) c2 None"
      using n(3) D(5,6) by (subst seg_frame [of _ h2 h]) (auto intro!: out)
    ultimately have chain: "seg h2 p (c1 @ c2) None" by (auto simp: seg_append)
    have same: "hp_at h2 x = hp_at h x" if "x \<in> set (ht_blocks ht) - blocks (buckets ht ! i)" for x
      using that c(1) by (auto intro!: out)
    have "\<forall>a\<in>fr_live F. hp_at h2 a = hp_at h a" using sep B(3) c(1) by (auto intro!: out)
    with represents_step [OF rep dist i(1) same chain, of "pt_count t - 1"] represents_count [OF rep]
      p_del_loop_hit [OF rd n(1,2) len c(3,2)] w(1,2) free ht_unlink_hit [OF c(3,2)] c(1)
    show ?thesis by (simp add: simulates_def p_del_def ht_del_def idx Let_def h2_def)
  qed
qed

section \<open>Destruction and iteration\<close>

lemma p_free_chain_frees:
  "seg h p es None \<Longrightarrow> distinct (concat (map entry_blocks es)) \<Longrightarrow>
   \<exists>h'. p_free_chain h p = Some h' \<and> hp_mem h' = free_chain es (hp_mem h) \<and>
     (\<forall>a. a \<notin> blocks es \<longrightarrow> hp_at h' a = hp_at h a)"
proof (induction es arbitrary: h p)
  case Nil
  then show ?case by (subst p_free_chain.simps) simp
next
  case (Cons e es)
  then obtain n where n: "p = Some (e_node e)" "entry_at h n e" "seg h (nd_next n) es None" by auto
  define h1 where "h1 = h\<lparr>hp_mem := free_entry e (hp_mem h),
    hp_at := (hp_at h)(e_key_p e := None, e_val_p e := None, e_node e := None)\<rparr>"
  have free: "p_free_entry (e_node e) h = Some h1" using p_free_entry_at [OF n(2)] by (simp add: h1_def)
  have "blocks [e] \<inter> blocks es = {}" using Cons.prems(2) distinct_chain(5) [of "[]" e es] by simp
  then have "seg h1 (nd_next n) es None" using n(3) by (subst seg_frame [of _ h1 h]) (auto simp: h1_def)
  from Cons.IH [OF this] Cons.prems(2) obtain h' where
    h': "p_free_chain h1 (nd_next n) = Some h'" "hp_mem h' = free_chain es (hp_mem h1)"
      "\<forall>a. a \<notin> blocks es \<longrightarrow> hp_at h' a = hp_at h1 a" by auto
  have "p_free_chain h p = Some h'"
    using n(1,2) free h'(1) by (subst p_free_chain.simps) (simp add: entry_at_reads)
  with h'(2,3) show ?case by (auto simp: h1_def)
qed

lemma p_destroy_buckets_frees:
  "length ps = length bs \<Longrightarrow> \<forall>i<length bs. seg h (ps ! i) (bs ! i) None \<Longrightarrow>
   distinct (concat (map entry_blocks (concat bs))) \<Longrightarrow>
   \<exists>h'. p_destroy_buckets h ps = Some (h', replicate (length bs) None) \<and>
     hp_mem h' = fst (destroy_buckets (hp_mem h) bs) \<and> (\<forall>a. a \<notin> blocks (concat bs) \<longrightarrow> hp_at h' a = hp_at h a)"
proof (induction bs arbitrary: h ps)
  case (Cons c bs)
  from Cons.prems(1) obtain p ps' where ps: "ps = p # ps'" by (cases ps) auto
  have c: "seg h p c None" "distinct (concat (map entry_blocks c))" "blocks c \<inter> blocks (concat bs) = {}"
    using Cons.prems ps by (auto simp: blocks_def)
  from p_free_chain_frees [OF c(1,2)] obtain h1 where
    h1: "p_free_chain h p = Some h1" "hp_mem h1 = free_chain c (hp_mem h)" "\<forall>a. a \<notin> blocks c \<longrightarrow> hp_at h1 a = hp_at h a"
    by blast
  have "seg h1 (ps' ! i) (bs ! i) None" if i: "i < length bs" for i
  proof -
    have "seg h (ps' ! i) (bs ! i) None" using Cons.prems(2) i ps by force
    then show ?thesis using h1(3) c(3) blocks_nth_subset [OF i] by (subst seg_frame [of _ h1 h]) auto
  qed
  with Cons.IH [of ps' h1] Cons.prems(1,3) ps obtain h' where
    h': "p_destroy_buckets h1 ps' = Some (h', replicate (length bs) None)"
      "hp_mem h' = fst (destroy_buckets (hp_mem h1) bs)" "\<forall>a. a \<notin> blocks (concat bs) \<longrightarrow> hp_at h' a = hp_at h1 a"
    by auto
  with h1 ps show ?case by (auto split: prod.splits)
qed simp

lemma p_destroy_simulates:
  assumes rep: "represents h t ht" and own: "owns (hp_mem h) (ht_blocks ht) F"
  shows "simulates F h ((), ht_destroy (hp_mem h) ht) (map_option (\<lambda>(h', t'). ((), h', t')) (p_destroy h t))"
proof -
  have dist: "distinct (concat (map entry_blocks (concat (buckets ht))))" "set (ht_blocks ht) \<inter> fr_live F = {}"
    using own by (auto simp: owns_def ht_blocks_def ht_entries_def)
  have "length (pt_buckets t) = length (buckets ht)" "\<forall>i<length (buckets ht). seg h (pt_buckets t ! i) (buckets ht ! i) None"
    "length (buckets ht) = HT_NUM_BUCKETS" using rep by (simp_all add: represents_def)
  note L = this
  from p_destroy_buckets_frees [OF L(1,2) dist(1)] obtain h' where
    h': "p_destroy_buckets h (pt_buckets t) = Some (h', replicate (length (buckets ht)) None)"
      "hp_mem h' = fst (destroy_buckets (hp_mem h) (buckets ht))"
      "\<forall>a. a \<notin> blocks (concat (buckets ht)) \<longrightarrow> hp_at h' a = hp_at h a" by blast
  have "destroy_buckets (hp_mem h) (buckets ht) = (hp_mem h', replicate HT_NUM_BUCKETS [])"
    using h'(2) destroy_buckets_shape [of "hp_mem h" "buckets ht"] L(3) by (simp add: prod_eq_iff)
  then show ?thesis
    using h'(1,3) L(3) dist(2) by (auto simp: simulates_def ht_destroy_def p_destroy_def represents_def set_ht_blocks)
qed

lemma p_scan_chain_seg:
  "seg h p es None \<Longrightarrow> p_scan_chain h cb p n ud = Some (scan_chain cb es n ud)"
proof (induction es arbitrary: p n ud)
  case Nil
  then show ?case by (subst p_scan_chain.simps) simp
next
  case (Cons e es)
  then obtain nd where "p = Some (e_node e)" "entry_at h nd e" "seg h (nd_next nd) es None" by auto
  with Cons.IH show ?case by (subst p_scan_chain.simps) (simp add: entry_at_reads split: prod.splits)
qed

lemma p_scan_buckets_seg:
  "length ps = length bs \<Longrightarrow> \<forall>i<length bs. seg h (ps ! i) (bs ! i) None \<Longrightarrow>
   p_scan_buckets h cb ps n ud = Some (scan_buckets cb bs n ud)"
proof (induction bs arbitrary: ps n ud)
  case (Cons c bs)
  from Cons.prems(1) obtain p ps' where ps: "ps = p # ps'" by (cases ps) auto
  have c: "seg h p c None" "\<forall>i<length bs. seg h (ps' ! i) (bs ! i) None" using Cons.prems(2) ps by force+
  with Cons.IH [of ps'] Cons.prems(1) ps show ?case
    by (simp add: p_scan_chain_seg [OF c(1)] split: prod.splits)
qed simp

lemma p_scan_simulates: "represents h t ht \<Longrightarrow> p_scan h t cb ud = Some (ht_scan ht cb ud)"
  by (simp add: p_scan_def ht_scan_def represents_def p_scan_buckets_seg)

section \<open>Only live blocks are there\<close>

definition live_only :: "heap \<Rightarrow> bool" where
  "live_only h \<longleftrightarrow> (\<forall>a b. hp_at h a = Some b \<longrightarrow> a \<in> m_live (hp_mem h))"

lemma h_alloc_live:
  assumes "live_only h" "h_alloc h b = (r, h')"
  shows "live_only h'"
proof -
  obtain p m where m: "malloc (hp_mem h) = (p, m)" by fastforce
  then have "m_live m = (case p of None \<Rightarrow> m_live (hp_mem h) | Some a \<Rightarrow> insert a (m_live (hp_mem h)))"
    by (auto simp: malloc_None malloc_Some split: option.splits)
  with assms m show ?thesis by (cases p) (auto simp: live_only_def h_alloc_def)
qed

lemma h_free_live: "live_only h \<Longrightarrow> live_only (h_free a h)"
  by (auto simp: live_only_def h_free_def mfree_def)

lemma wr_node_live: "wr_node a n h = Some h' \<Longrightarrow> live_only h \<Longrightarrow> live_only h'"
  by (auto simp: live_only_def wr_node_def split: option.splits block.splits if_splits)

lemma p_dup_bytes_live: "live_only h \<Longrightarrow> p_dup_bytes h src = (r, h') \<Longrightarrow> live_only h'"
  unfolding p_dup_bytes_def by (rule h_alloc_live)

lemma p_new_node_live:
  assumes "live_only h" "p_new_node h key val nxt = Some (r, h')"
  shows "live_only h'"
proof -
  obtain p1 h1 where a1: "h_alloc h Raw = (p1, h1)" by fastforce
  obtain p2 h2 where a2: "p_dup_bytes h1 key = (p2, h2)" by fastforce
  obtain p3 h3 where a3: "p_dup_bytes h2 val = (p3, h3)" by fastforce
  have l1: "live_only h1" by (rule h_alloc_live [OF assms(1) a1])
  have l2: "live_only h2" by (rule p_dup_bytes_live [OF l1 a2])
  have l3: "live_only h3" by (rule p_dup_bytes_live [OF l2 a3])
  show ?thesis
    using assms(2) l1 l2 l3
    by (cases p1; cases p2; cases p3)
       (auto simp: p_new_node_def a1 a2 a3 split: bind_splits intro: h_free_live wr_node_live)
qed

lemma p_set_live:
  assumes "live_only h" "p_set h t key val = Some (r, h', t')"
  shows "live_only h'"
proof -
  let ?p = "pt_buckets t ! bucket_index (ht_hash key)"
  obtain q where q: "p_find h key ?p = Some q" using assms(2) by (auto simp: p_set_def Let_def split: bind_splits)
  show ?thesis
  proof (cases q)
    case None
    with q assms(2) obtain nd where "p_new_node h key val ?p = Some (nd, h')"
      by (auto simp: p_set_def Let_def split: bind_splits option.splits)
    then show ?thesis by (rule p_new_node_live [OF assms(1)])
  next
    case (Some a)
    obtain w h1 where d: "p_dup_bytes h val = (w, h1)" by fastforce
    have "live_only h1" by (rule p_dup_bytes_live [OF assms(1) d])
    with q Some d assms(2) show ?thesis
      by (cases w) (auto simp: p_set_def Let_def split: bind_splits intro: wr_node_live h_free_live)
  qed
qed

lemma p_free_entry_live: "live_only h \<Longrightarrow> p_free_entry a h = Some h' \<Longrightarrow> live_only h'"
  by (auto simp: p_free_entry_def split: bind_splits intro: h_free_live)

lemma wr_link_live: "live_only h \<Longrightarrow> wr_link l p h t = Some (h', t') \<Longrightarrow> live_only h'"
  by (cases l) (auto split: bind_splits intro: wr_node_live)

lemma p_del_loop_live: "p_del_loop h t key l = Some x \<Longrightarrow> live_only h \<longrightarrow> live_only (fst (snd x))"
proof (rule p_del_loop.raw_induct [where P = "\<lambda>h t key l x. live_only h \<longrightarrow> live_only (fst (snd x))"])
  show "p_del_loop h t key l = Some x \<Longrightarrow> p_del_loop h t key l = Some x" .
qed (auto split: bind_splits option.splits if_splits prod.splits intro: p_free_entry_live wr_link_live)

lemma p_free_chain_live: "p_free_chain h p = Some h' \<Longrightarrow> live_only h \<longrightarrow> live_only h'"
proof (rule p_free_chain.raw_induct [where P = "\<lambda>h p h'. live_only h \<longrightarrow> live_only h'"])
  show "p_free_chain h p = Some h' \<Longrightarrow> p_free_chain h p = Some h'" .
qed (auto split: bind_splits option.splits; blast intro: p_free_entry_live)

lemma p_destroy_buckets_live: "p_destroy_buckets h ps = Some (h', ps') \<Longrightarrow> live_only h \<Longrightarrow> live_only h'"
proof (induction ps arbitrary: h ps')
  case (Cons p ps)
  then show ?case using p_free_chain_live by (auto split: bind_splits)
qed simp

lemma p_del_live: "live_only h \<Longrightarrow> p_del h t k = Some (b, h', t') \<Longrightarrow> live_only h'"
  using p_del_loop_live [of h t k "Slot (bucket_index (ht_hash k))" "(b, h', t')"] by (simp add: p_del_def)

lemma p_destroy_live: "live_only h \<Longrightarrow> p_destroy h t = Some (h', t') \<Longrightarrow> live_only h'"
  using p_destroy_buckets_live by (auto simp: p_destroy_def split: bind_splits)

section \<open>Sequences of operations\<close>


datatype table_op = Op_Set bytes bytes | Op_Del bytes | Op_Destroy

fun op_ok :: "table_op \<Rightarrow> bool" where
  "op_ok (Op_Set k v) \<longleftrightarrow> length k \<le> SIZE_MAX \<and> length v \<le> SIZE_MAX"
| "op_ok (Op_Del k) \<longleftrightarrow> length k \<le> SIZE_MAX"
| "op_ok Op_Destroy \<longleftrightarrow> True"

fun apply_op :: "table_op \<Rightarrow> mem \<times> hashtable \<Rightarrow> mem \<times> hashtable" where
  "apply_op (Op_Set k v) (m, ht) = snd (ht_set m ht k v)"
| "apply_op (Op_Del k) (m, ht) = snd (ht_del m ht k)"
| "apply_op Op_Destroy (m, ht) = ht_destroy m ht"

fun p_apply_op :: "table_op \<Rightarrow> heap \<times> ptable \<Rightarrow> (heap \<times> ptable) option" where
  "p_apply_op (Op_Set k v) (h, t) = map_option snd (p_set h t k v)"
| "p_apply_op (Op_Del k) (h, t) = map_option snd (p_del h t k)"
| "p_apply_op Op_Destroy (h, t) = p_destroy h t"

fun apply_ops :: "table_op list \<Rightarrow> mem \<times> hashtable \<Rightarrow> mem \<times> hashtable" where
  "apply_ops [] s = s"
| "apply_ops (x # xs) s = apply_ops xs (apply_op x s)"

fun p_apply_ops :: "table_op list \<Rightarrow> heap \<times> ptable \<Rightarrow> (heap \<times> ptable) option" where
  "p_apply_ops [] s = Some s"
| "p_apply_ops (x # xs) s = p_apply_op x s \<bind> p_apply_ops xs"

text \<open>A table that is sound, owns its blocks and is represented.\<close>

definition sound_table :: "frame \<Rightarrow> heap \<Rightarrow> ptable \<Rightarrow> hashtable \<Rightarrow> bool" where
  "sound_table F h t ht \<longleftrightarrow> represents h t ht \<and> ht_inv ht \<and> owns (hp_mem h) (ht_blocks ht) F \<and> live_only h"

lemma p_apply_op_sim:
  assumes "sound_table F h t ht" "op_ok x" "apply_op x (hp_mem h, ht) = (m', ht')"
  shows "\<exists>h' t'. p_apply_op x (h, t) = Some (h', t') \<and> hp_mem h' = m' \<and> sound_table F h' t' ht' \<and>
    (\<forall>a\<in>fr_live F. hp_at h' a = hp_at h a)"
proof -
  have S: "represents h t ht" "ht_inv ht" "owns (hp_mem h) (ht_blocks ht) F" "live_only h"
    using assms(1) by (simp_all add: sound_table_def)
  show ?thesis
  proof (cases x)
    case (Op_Set k v)
    with assms(3) obtain r where r: "ht_set (hp_mem h) ht k v = (r, m', ht')" by (cases "ht_set (hp_mem h) ht k v") simp
    show ?thesis
      using p_set_simulates [OF S(1,3), of k v] assms(2) Op_Set r kv.put_inv [OF S(2) r] ht_set_owns [OF S(2) r S(3)]
        p_set_live [OF S(4)]
      by (auto simp: simulates_def sound_table_def)
  next
    case (Op_Del k)
    with assms(3) obtain r where r: "ht_del (hp_mem h) ht k = (r, m', ht')" by (cases "ht_del (hp_mem h) ht k") simp
    show ?thesis
      using p_del_simulates [OF S(1,3), of k] assms(2) Op_Del r kv.rem_inv [OF S(2) r] ht_del_owns [OF S(2) r S(3)]
        p_del_live [OF S(4)]
      by (auto simp: simulates_def sound_table_def)
  next
    case Op_Destroy
    with assms(3) have r: "ht_destroy (hp_mem h) ht = (m', ht')" by simp
    have "owns m' (ht_blocks ht') F" "ht_inv ht'"
      using ht_destroy_owns [OF r, of "[]" F] S(3) ht_destroy_eq [OF S(2) r] ht_init_inv
      by (simp_all add: ht_blocks_def ht_entries_def ht_init_def concat_replicate_trivial)
    with p_destroy_simulates [OF S(1,3)] Op_Destroy r p_destroy_live [OF S(4)] show ?thesis
      by (auto simp: simulates_def sound_table_def)
  qed
qed

lemma p_apply_ops_sim:
  "sound_table F h t ht \<Longrightarrow> list_all op_ok xs \<Longrightarrow> apply_ops xs (hp_mem h, ht) = (m', ht') \<Longrightarrow>
   \<exists>h' t'. p_apply_ops xs (h, t) = Some (h', t') \<and> hp_mem h' = m' \<and> sound_table F h' t' ht' \<and>
     (\<forall>a\<in>fr_live F. hp_at h' a = hp_at h a)"
proof (induction xs arbitrary: h t ht)
  case (Cons x xs)
  obtain m1 ht1 where a: "apply_op x (hp_mem h, ht) = (m1, ht1)" by fastforce
  from p_apply_op_sim [OF Cons.prems(1) _ a] Cons.prems(2) obtain h1 t1 where
    h1: "p_apply_op x (h, t) = Some (h1, t1)" "hp_mem h1 = m1" "sound_table F h1 t1 ht1" "\<forall>a\<in>fr_live F. hp_at h1 a = hp_at h a"
    by auto
  with Cons.IH [OF h1(3)] Cons.prems(2,3) a show ?case by fastforce
qed simp

section \<open>Borrowed pointers\<close>

lemma entry_of_update:
  assumes "length (buckets ht) = HT_NUM_BUCKETS" "buckets ht' = (buckets ht)[key_bucket k := es]"
  shows "entry_of ht' k' = (if key_bucket k' = key_bucket k then find (\<lambda>e. e_key e = k') es else entry_of ht k')"
  using assms by (auto simp: entry_of_def nth_list_update)

lemma find_other_key: "e_key e \<noteq> k \<Longrightarrow> find (\<lambda>e. e_key e = k) (c1 @ e # c2) = find (\<lambda>e. e_key e = k) (c1 @ c2)"
  by (induction c1) auto

lemma ht_set_other_entry:
  assumes "ht_set m ht k v = (r, m', ht')" "length (buckets ht) = HT_NUM_BUCKETS" "k' \<noteq> k"
  shows "entry_of ht' k' = entry_of ht k'"
  using assms(1,2)
proof (cases rule: ht_set_cases)
  case (over c1 e c2 p m1)
  have "buckets ht' = (buckets ht)[key_bucket k := c1 @ e\<lparr>e_val_p := p, e_val := v\<rparr> # c2]" using over(7) by simp
  from entry_of_update [OF assms(2) this] over(2,3) assms(3) show ?thesis
    by (simp add: find_other_key) (simp add: entry_of_def find_other_key)
next
  case (new n)
  then have "e_key n = k" by (auto dest: ht_new_node_Some)
  moreover have "buckets ht' = (buckets ht)[key_bucket k := n # (buckets ht ! key_bucket k)]" using new(4) by simp
  ultimately show ?thesis using entry_of_update [OF assms(2)] assms(3) by (simp add: entry_of_def)
qed simp

lemma ht_del_other_entry:
  assumes "ht_del m ht k = (b, m', ht')" "length (buckets ht) = HT_NUM_BUCKETS" "k' \<noteq> k"
  shows "entry_of ht' k' = entry_of ht k'"
  using assms(1)
proof (cases rule: ht_del_cases)
  case (hit c1 e c2)
  have "buckets ht' = (buckets ht)[key_bucket k := c1 @ c2]" using hit(6) by simp
  from entry_of_update [OF assms(2) this] hit(2,3) assms(3) show ?thesis
    by (simp) (simp add: entry_of_def find_other_key)
qed simp

text \<open>A pointer to the value of \<open>k'\<close> survives a mutation of another key.\<close>

lemma borrowed_survives:
  assumes rep: "represents h t ht" and own: "owns (hp_mem h) (ht_blocks ht) F"
    and len: "length k \<le> SIZE_MAX" "length k' \<le> SIZE_MAX" "length v \<le> SIZE_MAX" and k: "k' \<noteq> k"
    and step: "p_set h t k v = Some (r, h', t') \<or> p_del h t k = Some (b, h', t')"
    and got: "p_get h t k' = Some (Some (a, n))"
  shows "p_get h' t' k' = Some (Some (a, n)) \<and> rd_bytes h' a n = rd_bytes h a n \<and> rd_bytes h a n \<noteq> None"
proof -
  have L: "length (buckets ht) = HT_NUM_BUCKETS" using rep by (simp add: represents_def)
  have "\<exists>ht'. represents h' t' ht' \<and> entry_of ht' k' = entry_of ht k'"
    using step
  proof
    assume s: "p_set h t k v = Some (r, h', t')"
    obtain r1 m1 ht1 where l: "ht_set (hp_mem h) ht k v = (r1, m1, ht1)" by (metis prod_cases3)
    with p_set_simulates [OF rep own len(1,3)] s have "represents h' t' ht1" by (simp add: simulates_def)
    with ht_set_other_entry [OF l L k] show ?thesis by blast
  next
    assume s: "p_del h t k = Some (b, h', t')"
    obtain r1 m1 ht1 where l: "ht_del (hp_mem h) ht k = (r1, m1, ht1)" by (metis prod_cases3)
    with p_del_simulates [OF rep own len(1)] s have "represents h' t' ht1" by (simp add: simulates_def)
    with ht_del_other_entry [OF l L k] show ?thesis by blast
  qed
  then obtain ht' where ht': "represents h' t' ht'" "entry_of ht' k' = entry_of ht k'" by blast
  obtain e where e: "entry_of ht k' = Some e" "a = e_val_p e" "n = size_of (e_val e)"
    using p_get_entry(1) [OF rep len(2)] got by (cases "entry_of ht k'") auto
  with p_get_entry [OF rep len(2)] p_get_entry [OF ht'(1) len(2)] ht'(2) show ?thesis by simp
qed

text \<open>A pointer to the value of \<open>k\<close> itself dangles after a mutation of \<open>k\<close> that did something.\<close>

lemma live_mfree: "m_live (mfree a m) \<subseteq> m_live m" "a \<notin> m_live (mfree a m)"
  by (auto simp: mfree_def)

lemma borrowed_dangles:
  assumes rep: "represents h t ht" and own: "owns (hp_mem h) (ht_blocks ht) F" and live: "live_only h"
    and len: "length k \<le> SIZE_MAX" "length v \<le> SIZE_MAX"
    and step: "p_set h t k v = Some (RC_OK, h', t') \<or> p_del h t k = Some (True, h', t')"
    and got: "p_get h t k = Some (Some (a, n))"
  shows "hp_at h' a = None"
proof -
  have L: "length (buckets ht) = HT_NUM_BUCKETS" using rep by (simp add: represents_def)
  obtain e where e: "entry_of ht k = Some e" "a = e_val_p e"
    using p_get_entry(1) [OF rep len(1)] got by (cases "entry_of ht k") auto
  have found: "d = e" if "buckets ht ! key_bucket k = c1 @ d # c2" "e_key d = k" "k \<notin> e_key ` set c1" for d c1 c2
  proof -
    have "find (\<lambda>x. e_key x = k) (c1 @ d # c2) = Some d" using that(2,3) by (induction c1) auto
    with that(1) e(1) show ?thesis by (simp add: entry_of_def)
  qed
  have hit: "k \<in> e_key ` set (buckets ht ! key_bucket k)"
    using e(1) unfolding entry_of_def by (auto elim: find_split)
  from step show ?thesis
  proof
    assume s: "p_set h t k v = Some (RC_OK, h', t')"
    obtain r1 m1 ht1 where l: "ht_set (hp_mem h) ht k v = (r1, m1, ht1)" by (metis prod_cases3)
    with p_set_simulates [OF rep own len] s have r: "r1 = RC_OK" "hp_mem h' = m1" by (simp_all add: simulates_def)
    from l L have "a \<notin> m_live m1"
    proof (cases rule: ht_set_cases)
      case (over c1 d c2 p m2)
      with found [of c1 d c2] e(2) live_mfree(2) show ?thesis by simp
    qed (use r hit in auto)
    with p_set_live [OF live s] r(2) show ?thesis by (auto simp: live_only_def)
  next
    assume s: "p_del h t k = Some (True, h', t')"
    obtain r1 m1 ht1 where l: "ht_del (hp_mem h) ht k = (r1, m1, ht1)" by (metis prod_cases3)
    with p_del_simulates [OF rep own len(1)] s have r: "hp_mem h' = m1" by (simp add: simulates_def)
    from l have "a \<notin> m_live m1"
    proof (cases rule: ht_del_cases)
      case (hit c1 d c2)
      with found [of c1 d c2] e(2) show ?thesis using live_mfree by (fastforce simp: free_entry_def)
    qed (use hit in auto)
    moreover have "live_only h'" by (rule p_del_live [OF live s])
    ultimately show ?thesis using r by (auto simp: live_only_def)
  qed
qed

end
