(* ===== verification/Store_Laws.thy ===== *)
theory Store_Laws
  imports Hashtable
begin

text \<open>
  The properties of the hash table: its operations as those of a map, the tables a program can
  reach, the ownership of its blocks and the iteration.
\<close>

section \<open>The tables a program can reach\<close>

text \<open>
  \<open>table_run m ht\<close>: the allocator \<open>m\<close> and the table \<open>ht\<close> are what some sequence of calls of
  the module leaves, from \<open>ht_init\<close> under some pattern of allocation failures.
\<close>

inductive table_run :: "mem \<Rightarrow> hashtable \<Rightarrow> bool" where
  t_init: "table_run (mem_init os) ht_init"
| t_set: "table_run m ht \<Longrightarrow> ht_set m ht k v = (r, m', ht') \<Longrightarrow> table_run m' ht'"
| t_del: "table_run m ht \<Longrightarrow> ht_del m ht k = (b, m', ht') \<Longrightarrow> table_run m' ht'"
| t_destroy: "table_run m ht \<Longrightarrow> ht_destroy m ht = (m', ht') \<Longrightarrow> table_run m' ht'"

lemma ht_init_no_blocks [simp]: "ht_blocks ht_init = []"
  by (simp add: ht_blocks_def ht_entries_def ht_init_def concat_replicate_trivial)

lemma ht_destroy_start: "owns m (ht_blocks ht) F \<Longrightarrow> ht_destroy m ht = (m', ht') \<Longrightarrow> owns m' [] F"
  using ht_destroy_owns [of m ht m' ht' "[]" F] by simp

lemma table_run_sound: "table_run m ht \<Longrightarrow> ht_inv ht \<and> owns m (ht_blocks ht) alone"
proof (induction rule: table_run.induct)
  case (t_set m ht k v r m' ht')
  then show ?case using kv.put_inv ht_set_owns by blast
next
  case (t_del m ht k b m' ht')
  then show ?case using kv.rem_inv ht_del_owns by blast
next
  case (t_destroy m ht m' ht')
  then show ?case using ht_destroy_eq [of ht m m' ht'] ht_destroy_start [of m ht alone m' ht'] ht_init_inv by simp
qed (simp add: ht_init_inv)

section \<open>Observing a scan\<close>

text \<open>The callback that records what it is given and goes on while \<open>go\<close> says so.\<close>

definition observer :: "(bytes \<Rightarrow> bytes \<Rightarrow> bool) \<Rightarrow> (bytes \<times> bytes) list scan_cb" where
  "observer go k v seen = (go k v, seen @ [(k, v)])"

text \<open>The entries up to the first one at which \<open>go\<close> fails, that one included.\<close>

fun upto_stop :: "(bytes \<Rightarrow> bytes \<Rightarrow> bool) \<Rightarrow> (bytes \<times> bytes) list \<Rightarrow> (bytes \<times> bytes) list" where
  "upto_stop go [] = []"
| "upto_stop go (e # es) = e # (if go (fst e) (snd e) then upto_stop go es else [])"

definition entry_pair :: "ht_entry \<Rightarrow> bytes \<times> bytes" where
  "entry_pair e = (e_key e, e_val e)"

lemma scan_chain_observed:
  "snd (scan_chain (observer go) es n seen) =
    (n + length (upto_stop go (map entry_pair es)), seen @ upto_stop go (map entry_pair es))"
  by (induction es arbitrary: n seen) (simp_all add: observer_def entry_pair_def)

lemma entry_pairs_map: "ht_inv ht \<Longrightarrow> map_of (map entry_pair (ht_entries ht)) = ht_abs ht"
  using ht_entries_map_of [of ht] by (simp add: entry_pair_def [abs_def])

lemma entry_pairs_distinct: "ht_inv ht \<Longrightarrow> distinct (map fst (map entry_pair (ht_entries ht)))"
  by (simp add: ht_inv_def ht_keys_def entry_pair_def o_def)

lemma upto_stop_all: "\<forall>(k, v)\<in>set es. go k v \<Longrightarrow> upto_stop go es = es"
  by (induction es) auto

section \<open>Properties\<close>

text \<open>
  C27. \<open>ht_set\<close> on a sound table: the table stays sound; when it reports success, a lookup of
  the key gives the new value and every other lookup is as before; when it reports failure, an
  allocation was refused and the table is exactly what it was.
\<close>

theorem ht_set_get:
  assumes "ht_inv ht"
  shows "case ht_set m ht k v of (r, m', ht') \<Rightarrow>
    ht_inv ht' \<and>
    (if r = RC_OK then \<forall>k'. ht_get ht' k' = (if k' = k then Some v else ht_get ht k')
     else ht' = ht \<and> \<not> mem_plenty m)"
proof -
  obtain r m' ht' where s: "ht_set m ht k v = (r, m', ht')" by (metis prod_cases3)
  show ?thesis
    using kv.put_inv [OF assms s] kv.lookup_put [OF assms, of m k v m' ht'] kv.put_err [OF assms, of m k v m' ht']
      ht_set_plenty [OF assms _ s]
    by (cases r) (auto simp: s)
qed

theorem ht_set_get_witness:
  "case ht_set (mem_init []) ht_init (cstr ''key'') (cstr ''value'') of (r, m', ht') \<Rightarrow>
     r = RC_OK \<and> ht_get ht' (cstr ''key'') = Some (cstr ''value'') \<and> ht_get ht' (cstr ''other'') = None"
proof -
  have "ht_get ht_init (cstr ''other'') = None" by (simp add: ht_get_abs ht_init_abs)
  moreover have "cstr ''other'' \<noteq> cstr ''key''" by (simp add: cstr_def)
  ultimately show ?thesis
    using ht_set_get [OF ht_init_inv, where m = "mem_init []" and k = "cstr ''key''" and v = "cstr ''value''"]
    by (auto split: prod.splits if_splits)
qed

text \<open>
  C28. \<open>ht_del\<close> on a sound table reports whether the key was there, and after it the key is
  absent and every other lookup is as before; it never fails.
\<close>

theorem ht_del_get:
  assumes "ht_inv ht"
  shows "case ht_del m ht k of (hit, m', ht') \<Rightarrow>
    ht_inv ht' \<and> (hit \<longleftrightarrow> ht_get ht k \<noteq> None) \<and>
    (\<forall>k'. ht_get ht' k' = (if k' = k then None else ht_get ht k'))"
proof -
  obtain b m' ht' where d: "ht_del m ht k = (b, m', ht')" by (metis prod_cases3)
  show ?thesis
    using kv.rem_inv [OF assms d] kv.lookup_rem [OF assms d] kv.rem_hit [OF assms d] by (simp add: d ht_get_abs)
qed

theorem ht_del_get_witness:
  "case ht_set (mem_init []) ht_init (cstr ''key'') (cstr ''value'') of (r, m, ht) \<Rightarrow>
     (case ht_del m ht (cstr ''key'') of (hit, m', ht') \<Rightarrow> hit \<and> ht_get ht' (cstr ''key'') = None)"
proof -
  obtain r m ht where s: "ht_set (mem_init []) ht_init (cstr ''key'') (cstr ''value'') = (r, m, ht)"
    by (metis prod_cases3)
  have r: "r = RC_OK" using ht_set_plenty [OF ht_init_inv _ s] by simp
  have "ht_get ht (cstr ''key'') = Some (cstr ''value'')" "ht_inv ht"
    using kv.lookup_put [OF ht_init_inv s [unfolded r]] kv.put_inv [OF ht_init_inv s] by simp_all
  with ht_del_get [where ht = ht and m = m and k = "cstr ''key''"] s show ?thesis by (auto split: prod.splits)
qed

text \<open>
  C14. Whatever sequence of \<open>ht_set\<close>, \<open>ht_del\<close> and \<open>ht_destroy\<close> runs, under whatever pattern of
  allocation failures: every entry is in the bucket of its hash and no key occurs twice, the
  blocks allocated are exactly the three of each entry (nothing leaked, nothing freed twice), and
  \<open>count\<close> is the number of keys.
\<close>

theorem table_run_invariant:
  assumes "table_run m ht"
  shows "ht_inv ht \<and> owns m (ht_blocks ht) alone \<and> finite (dom (ht_abs ht)) \<and>
    ht_count ht = word_of_nat (card (dom (ht_abs ht)))"
proof -
  have inv: "ht_inv ht" "owns m (ht_blocks ht) alone" using table_run_sound [OF assms] by simp_all
  moreover have "finite (dom (ht_abs ht))" using ht_keys_dom [OF inv(1)] by (metis List.finite_set)
  ultimately show ?thesis by (simp add: ht_count_card)
qed

theorem table_run_invariant_witness:
  "case ht_set (mem_init [True, False]) ht_init (cstr ''key'') (cstr ''value'') of (r, m, ht) \<Rightarrow>
     ht_inv ht \<and> m_live m = set (ht_blocks ht) \<and> \<not> m_bad m"
proof -
  obtain r m ht where s: "ht_set (mem_init [True, False]) ht_init (cstr ''key'') (cstr ''value'') = (r, m, ht)"
    by (metis prod_cases3)
  have "table_run m ht" by (rule t_set [OF t_init s])
  from table_run_invariant [OF this] s show ?thesis by (simp add: owns_def)
qed

text \<open>
  \<open>ht_set\<close>, \<open>ht_del\<close> and \<open>ht_destroy\<close> account for every block also when the rest of the
  program holds blocks \<open>F\<close>: what is live afterwards is what the table owns and \<open>F\<close>, and nothing
  was freed twice; \<open>ht_destroy\<close> returns every block and leaves the empty table.
\<close>

theorem ht_operations_own:
  assumes "ht_inv ht" "owns m (ht_blocks ht) F"
  shows "(case ht_set m ht k v of (_, m', ht') \<Rightarrow> owns m' (ht_blocks ht') F) \<and>
    (case ht_del m ht k of (_, m', ht') \<Rightarrow> owns m' (ht_blocks ht') F) \<and>
    (case ht_destroy m ht of (m', ht') \<Rightarrow> owns m' [] F \<and> ht' = ht_init)"
  using ht_set_owns [OF assms(1) _ assms(2)] ht_del_owns [OF assms(1) _ assms(2)]
    ht_destroy_start [OF assms(2)] ht_destroy_eq [OF assms(1)]
  by (auto split: prod.splits)

theorem ht_operations_own_witness:
  "case ht_set (mem_init []) ht_init (cstr ''key'') (cstr ''value'') of (r, m, ht) \<Rightarrow>
     (case ht_destroy m ht of (m', ht') \<Rightarrow> m_live m' = {} \<and> ht' = ht_init)"
proof -
  have o0: "owns (mem_init []) (ht_blocks ht_init) alone" by simp
  obtain r m ht where s: "ht_set (mem_init []) ht_init (cstr ''key'') (cstr ''value'') = (r, m, ht)"
    by (metis prod_cases3)
  have "owns m (ht_blocks ht) alone"
    using ht_operations_own [OF ht_init_inv o0, of "cstr ''key''" "cstr ''value''"] by (simp add: s)
  from ht_operations_own [OF kv.put_inv [OF ht_init_inv s] this, of "[]" "[]"]
  have "case ht_destroy m ht of (m', ht') \<Rightarrow> owns m' [] alone \<and> ht' = ht_init" by simp
  then show ?thesis by (simp add: s owns_def split: prod.splits)
qed

text \<open>
  C29. \<open>ht_scan\<close> on a sound table calls the callback once for each entry, on a list of
  entries with distinct keys whose map is the table, in that order, until the callback asks to
  stop, and returns the number of calls.
\<close>

theorem ht_scan_observed:
  assumes "ht_inv ht"
  shows "\<exists>es. distinct (map fst es) \<and> map_of es = ht_get ht \<and>
    (\<forall>go. ht_scan ht (observer go) [] = (length (upto_stop go es), upto_stop go es))"
proof (intro exI conjI allI)
  let ?es = "map entry_pair (ht_entries ht)"
  show "distinct (map fst ?es)" by (rule entry_pairs_distinct [OF assms])
  show "map_of ?es = ht_get ht" using entry_pairs_map [OF assms] by (auto simp: ht_get_abs)
  show "ht_scan ht (observer go) [] = (length (upto_stop go ?es), upto_stop go ?es)" for go
    by (simp add: ht_scan_flat scan_chain_observed)
qed

theorem ht_scan_observed_witness:
  "ht_scan ht_init (observer (\<lambda>k v. True)) [] = (0, [])"
proof -
  obtain es where es: "map_of es = ht_get ht_init"
    "\<forall>go. ht_scan ht_init (observer go) [] = (length (upto_stop go es), upto_stop go es)"
    using ht_scan_observed [OF ht_init_inv] by blast
  have "ht_get ht_init = Map.empty" by (rule ext) (simp add: ht_get_abs ht_init_abs)
  then have "es = []" using es(1) by (cases es) (auto simp: fun_eq_iff split: if_splits)
  with es(2) show ?thesis by simp
qed

end
