(* ===== verification/Heap_Laws.thy ===== *)
theory Heap_Laws
  imports Ht_Heap Store_Laws
begin

text \<open>
  The properties of the pointer level of the hash table: its operations never read or free what is
  not theirs, always return, and are those of \<open>Hashtable\<close>; and how long a borrowed pointer lives.
\<close>

definition heap_init :: "bool list \<Rightarrow> heap" where
  "heap_init os = \<lparr>hp_mem = mem_init os, hp_at = Map.empty\<rparr>"

text \<open>A lookup followed by a read through the borrowed pointer.\<close>

definition p_lookup :: "heap \<Rightarrow> ptable \<Rightarrow> bytes \<Rightarrow> bytes option option" where
  "p_lookup h t k = do {
     r \<leftarrow> p_get h t k;
     case r of None \<Rightarrow> Some None | Some (a, n) \<Rightarrow> do { bs \<leftarrow> rd_bytes h a n; Some (Some bs) } }"

lemma p_lookup_entry: "represents h t ht \<Longrightarrow> length k \<le> SIZE_MAX \<Longrightarrow> p_lookup h t k = Some (ht_get ht k)"
  by (cases "entry_of ht k") (simp_all add: p_lookup_def p_get_entry ht_get_entry)

lemma sound_table_init: "sound_table alone (heap_init os) pt_init ht_init"
  by (simp add: sound_table_def heap_init_def represents_init ht_init_inv live_only_def)

text \<open>
  C9. The pointer code of \<open>hashtable.c\<close> is safe, terminates and refines the list model. From a
  sound table, beside blocks \<open>F\<close> of the rest of the program, every sequence of \<open>ht_set\<close>, \<open>ht_del\<close> and
  \<open>ht_destroy\<close> has a result: no walk runs on, no freed block or foreign byte is read, written
  or freed. The result represents the table of the list model with the same allocator, the blocks
  \<open>F\<close> are untouched, and lookups and scans through the pointers give what the list model gives.
\<close>

theorem pointer_table_refines:
  assumes "sound_table F h t ht" "list_all op_ok xs"
  shows "case apply_ops xs (hp_mem h, ht) of (m', ht') \<Rightarrow> \<exists>h' t'.
    p_apply_ops xs (h, t) = Some (h', t') \<and> hp_mem h' = m' \<and> sound_table F h' t' ht' \<and>
    (\<forall>a\<in>fr_live F. hp_at h' a = hp_at h a) \<and>
    (\<forall>k. length k \<le> SIZE_MAX \<longrightarrow> p_lookup h' t' k = Some (ht_get ht' k)) \<and>
    (\<forall>cb (ud :: 'u). p_scan h' t' cb ud = Some (ht_scan ht' cb ud))"
proof -
  obtain m' ht' where a: "apply_ops xs (hp_mem h, ht) = (m', ht')" by fastforce
  from p_apply_ops_sim [OF assms a] obtain h' t' where
    "p_apply_ops xs (h, t) = Some (h', t')" "hp_mem h' = m'" "sound_table F h' t' ht'" "\<forall>a\<in>fr_live F. hp_at h' a = hp_at h a"
    by blast
  moreover from this(3) have "represents h' t' ht'" by (simp add: sound_table_def)
  ultimately show ?thesis using a p_lookup_entry p_scan_simulates by fastforce
qed

theorem pointer_table_refines_witness:
  "\<exists>h t. p_apply_ops [Op_Set (cstr ''a'') (cstr ''1''), Op_Set (cstr ''a'') (cstr ''2''), Op_Set (cstr ''b'') (cstr ''3''),
      Op_Del (cstr ''b'')] (heap_init [], pt_init) = Some (h, t) \<and> p_lookup h t (cstr ''b'') = Some None"
proof -
  let ?xs = "[Op_Set (cstr ''a'') (cstr ''1''), Op_Set (cstr ''a'') (cstr ''2''), Op_Set (cstr ''b'') (cstr ''3''),
      Op_Del (cstr ''b'')]"
  have ok: "list_all op_ok ?xs" "length (cstr ''b'') \<le> SIZE_MAX" by (simp_all add: cstr_def SIZE_MAX_def)
  obtain m ht where a: "apply_ops ?xs (hp_mem (heap_init []), ht_init) = (m, ht)" by fastforce
  obtain m1 ht1 where s: "apply_ops (take 3 ?xs) (hp_mem (heap_init []), ht_init) = (m1, ht1)" by fastforce
  have "list_all op_ok (take 3 ?xs)" using ok(1) by simp
  from p_apply_ops_sim [OF sound_table_init this s] have i: "ht_inv ht1" by (auto simp: sound_table_def)
  obtain b m2 ht2 where d: "ht_del m1 ht1 (cstr ''b'') = (b, m2, ht2)" by (metis prod_cases3)
  have "ht = ht2" using a s d by simp
  then have "ht_get ht (cstr ''b'') = None"
    using kv.rem_abs [OF i d] kv.lookup_abs [OF kv.rem_inv [OF i d]] by simp
  with pointer_table_refines [OF sound_table_init ok(1), of "[]"] a ok(2) show ?thesis by fastforce
qed

text \<open>
  C19. How long the pointer that \<open>ht_get\<close> lends may be used. It can be read until its key is
  written: a \<open>ht_set\<close> or \<open>ht_del\<close> of another key leaves the pointer valid and its bytes as they
  were, but once \<open>ht_set\<close> has replaced the value, or \<open>ht_del\<close> removed it, the pointer dangles. So
  \<open>GETSET\<close> has to copy the old value before it stores the new one.
\<close>

theorem borrowed_pointer_lifetime:
  assumes "sound_table F h t ht" "length k \<le> SIZE_MAX" "length k' \<le> SIZE_MAX" "length v \<le> SIZE_MAX"
    "p_get h t k = Some (Some (a, n))"
    "p_set h t k' v = Some (r, h', t') \<and> r = RC_OK \<or> p_del h t k' = Some (d, h', t') \<and> d"
  shows "if k' = k then rd_bytes h' a n = None
    else p_get h' t' k = Some (Some (a, n)) \<and> rd_bytes h' a n = rd_bytes h a n \<and> rd_bytes h a n \<noteq> None"
proof -
  have S: "represents h t ht" "owns (hp_mem h) (ht_blocks ht) F" "live_only h" using assms(1) by (simp_all add: sound_table_def)
  show ?thesis
  proof (cases "k' = k")
    case True
    have "hp_at h' a = None" by (rule borrowed_dangles [OF S assms(2,4) _ assms(5)]) (use assms(6) True in auto)
    with True show ?thesis by (simp add: rd_bytes_def)
  next
    case False
    have "p_set h t k' v = Some (r, h', t') \<or> p_del h t k' = Some (d, h', t')" using assms(6) by blast
    from borrowed_survives [OF S(1,2) assms(3,2,4) _ this assms(5)] False show ?thesis by simp
  qed
qed

theorem borrowed_pointer_lifetime_witness:
  "\<exists>h t a n h' t'. p_get h t (cstr ''k'') = Some (Some (a, n)) \<and> rd_bytes h a n = Some (cstr ''old'') \<and>
     p_set h t (cstr ''k'') (cstr ''new'') = Some (RC_OK, h', t') \<and> rd_bytes h' a n = None"
proof -
  let ?k = "cstr ''k''" and ?old = "cstr ''old''" and ?new = "cstr ''new''"
  have len: "length ?k \<le> SIZE_MAX" "length ?old \<le> SIZE_MAX" "length ?new \<le> SIZE_MAX" by (simp_all add: cstr_def SIZE_MAX_def)
  obtain r m ht where s: "ht_set (mem_init []) ht_init ?k ?old = (r, m, ht)" by (metis prod_cases3)
  have "op_ok (Op_Set ?k ?old)" "apply_op (Op_Set ?k ?old) (hp_mem (heap_init []), ht_init) = (m, ht)"
    using len s by (simp_all add: heap_init_def)
  from p_apply_op_sim [OF sound_table_init this] obtain h t where
    h: "hp_mem h = m" "sound_table alone h t ht" by auto
  have R: "r = RC_OK" "mem_plenty m" using ht_set_plenty [OF ht_init_inv _ s] by simp_all
  have g: "ht_get ht ?k = Some ?old" using kv.lookup_put [OF ht_init_inv s [unfolded R(1)]] by simp
  then obtain e where e: "entry_of ht ?k = Some e" "e_val e = ?old" by (auto simp: ht_get_entry)
  have rep: "represents h t ht" "ht_inv ht" "owns (hp_mem h) (ht_blocks ht) alone" using h(2) by (simp_all add: sound_table_def)
  note P = p_get_entry(1) [OF rep(1) len(1), unfolded e(1) option.map] p_get_entry(2) [OF rep(1) len(1) e(1), unfolded e(2)]
  obtain r2 m2 ht2 where s2: "ht_set m ht ?k ?new = (r2, m2, ht2)" by (metis prod_cases3)
  have "r2 = RC_OK" using ht_set_plenty [OF rep(2) R(2) s2] by simp
  with p_set_simulates [OF rep(1,3) len(1,3)] s2 h(1) obtain h' t' where
    p: "p_set h t ?k ?new = Some (RC_OK, h', t')" by (auto simp: simulates_def)
  have "rd_bytes h' (e_val_p e) (size_of ?old) = None"
    using borrowed_pointer_lifetime [OF h(2) len(1,1,3) P(1), of RC_OK h' t'] p by (simp add: e(2))
  with P [unfolded e(2)] p show ?thesis by blast
qed

end
