(* ===== verification/Bytebuf.thy ===== *)
theory Bytebuf
  imports Interfaces
begin

text \<open>
  The growable byte buffer of \<open>bytebuf.h\<close> and \<open>bytebuf.c\<close>. Capacity, length and offset are
  64-bit words as in the code, so that every subtraction and doubling is the one the machine
  does; the backing array is a list of \<open>cap\<close> bytes together with the address of its block.
  The theory shows the layout invariant, that the buffer is a byte queue whose contents are
  the bytes between the offset and the length, when growing succeeds, that the doubling loop
  returns, and that the backing array is never leaked or freed twice.
\<close>

section \<open>Data\<close>

definition BYTEBUF_INIT_CAP :: size_t where "BYTEBUF_INIT_CAP = 256"
definition BYTEBUF_MAX :: size_t where "BYTEBUF_MAX = 16 * 1024 * 1024"
definition BYTEBUF_COMPACT_MIN :: size_t where "BYTEBUF_COMPACT_MIN = 4096"

record bytebuf =
  bb_data :: bytes
  bb_ptr :: "addr option"
  bb_cap :: size_t
  bb_len :: size_t
  bb_off :: size_t

section \<open>Growing\<close>

definition compact_in_place :: "bytebuf \<Rightarrow> bytebuf" where
  "compact_in_place b =
     (let live = bb_len b - bb_off b in
      b\<lparr>bb_data := (if live > 0 \<and> bb_off b > 0
                    then blit (bb_data b) 0 (take (unat live) (drop (unat (bb_off b)) (bb_data b)))
                    else bb_data b),
        bb_len := live, bb_off := 0\<rparr>)"

text \<open>
  The doubling loop. It does not return when \<open>new_cap\<close> is 0, which the code excludes by
  starting from \<open>BYTEBUF_INIT_CAP\<close>; the outer \<open>None\<close> is "does not return", the inner
  \<open>None\<close> is the code's \<open>return -1\<close>.
\<close>

partial_function (option) grow_cap :: "size_t \<Rightarrow> size_t \<Rightarrow> size_t \<Rightarrow> size_t option option" where
  "grow_cap new_cap len need =
     (if new_cap - len < need
      then (if new_cap \<ge> BYTEBUF_MAX then Some None
            else if new_cap > BYTEBUF_MAX div 2 then grow_cap BYTEBUF_MAX len need
            else grow_cap (new_cap * 2) len need)
      else Some (Some new_cap))"

text \<open>
  \<open>realloc\<close> keeps the bytes of the old array; the bytes beyond them are indeterminate in C.
  They are zeros here, and no operation reads them before writing them.
\<close>

definition grow_to :: "mem \<Rightarrow> bytebuf \<Rightarrow> size_t \<Rightarrow> rc \<times> mem \<times> bytebuf" where
  "grow_to m b new_cap =
     (case mrealloc (bb_ptr b) m of
        (None, m') \<Rightarrow> (RC_ERR, m', b)
      | (Some p, m') \<Rightarrow>
          (RC_OK, m', b\<lparr>bb_data := bb_data b @ replicate (unat new_cap - unat (bb_cap b)) 0,
                       bb_ptr := Some p, bb_cap := new_cap\<rparr>))"

definition ensure_tail_cap :: "mem \<Rightarrow> bytebuf \<Rightarrow> size_t \<Rightarrow> rc \<times> mem \<times> bytebuf" where
  "ensure_tail_cap m b need =
     (if bb_cap b - bb_len b \<ge> need then (RC_OK, m, b)
      else let b1 = (if bb_off b > 0 then compact_in_place b else b) in
        if bb_off b > 0 \<and> bb_cap b1 - bb_len b1 \<ge> need then (RC_OK, m, b1)
        else (case the (grow_cap (if bb_cap b1 = 0 then BYTEBUF_INIT_CAP else bb_cap b1) (bb_len b1) need) of
                None \<Rightarrow> (RC_ERR, m, b1)
              | Some new_cap \<Rightarrow> grow_to m b1 new_cap))"

section \<open>Lifecycle\<close>

definition bytebuf_init :: bytebuf where
  "bytebuf_init = \<lparr>bb_data = [], bb_ptr = None, bb_cap = 0, bb_len = 0, bb_off = 0\<rparr>"

definition bytebuf_free :: "mem \<Rightarrow> bytebuf \<Rightarrow> mem \<times> bytebuf" where
  "bytebuf_free m b = (mfree_opt (bb_ptr b) m, bytebuf_init)"

definition bytebuf_reset :: "bytebuf \<Rightarrow> bytebuf" where
  "bytebuf_reset b = b\<lparr>bb_len := 0, bb_off := 0\<rparr>"

section \<open>Producer side\<close>

definition bytebuf_append :: "mem \<Rightarrow> bytebuf \<Rightarrow> bytes \<Rightarrow> rc \<times> mem \<times> bytebuf" where
  "bytebuf_append m b src =
     (let n = size_of src in
      if n = 0 then (RC_OK, m, b)
      else case ensure_tail_cap m b n of
        (RC_ERR, m', b') \<Rightarrow> (RC_ERR, m', b')
      | (RC_OK, m', b') \<Rightarrow>
          (RC_OK, m', b'\<lparr>bb_data := blit (bb_data b') (unat (bb_len b')) src, bb_len := bb_len b' + n\<rparr>))"

text \<open>
  \<open>bytebuf_appendf\<close> on the text \<open>s\<close> that \<open>vsnprintf\<close> produces for its format: through the
  128-byte stack buffer when it fits with its NUL, otherwise formatted into the tail, NUL
  included. The program uses it with \<open>%zu\<close> and \<open>PRId64\<close> only, for which \<open>vsnprintf\<close> reports
  no encoding error and produces the same text twice.
\<close>

definition bytebuf_appendf :: "mem \<Rightarrow> bytebuf \<Rightarrow> bytes \<Rightarrow> rc \<times> mem \<times> bytebuf" where
  "bytebuf_appendf m b s =
     (let n = size_of s in
      if n < 128 then bytebuf_append m b s
      else case ensure_tail_cap m b (n + 1) of
        (RC_ERR, m', b') \<Rightarrow> (RC_ERR, m', b')
      | (RC_OK, m', b') \<Rightarrow>
          (RC_OK, m', b'\<lparr>bb_data := blit (bb_data b') (unat (bb_len b')) (s @ [0]), bb_len := bb_len b' + n\<rparr>))"

text \<open>The pointer \<open>bytebuf_reserve\<close> returns is the offset of the tail in the backing array.\<close>

definition bytebuf_reserve :: "mem \<Rightarrow> bytebuf \<Rightarrow> size_t \<Rightarrow> size_t option \<times> mem \<times> bytebuf" where
  "bytebuf_reserve m b n =
     (case ensure_tail_cap m b n of
        (RC_ERR, m', b') \<Rightarrow> (None, m', b')
      | (RC_OK, m', b') \<Rightarrow> (Some (bb_len b'), m', b'))"

definition bytebuf_advance :: "bytebuf \<Rightarrow> size_t \<Rightarrow> bytebuf" where
  "bytebuf_advance b n =
     (let n' = (if n > bb_cap b - bb_len b then bb_cap b - bb_len b else n)
      in b\<lparr>bb_len := bb_len b + n'\<rparr>)"

section \<open>Consumer side\<close>

text \<open>The head pointer: \<open>NULL\<close>, or an offset in the backing array.\<close>

definition bytebuf_data :: "bytebuf \<Rightarrow> size_t option" where
  "bytebuf_data b = (if bb_ptr b = None then None else Some (bb_off b))"

definition bytebuf_len :: "bytebuf \<Rightarrow> size_t" where
  "bytebuf_len b = bb_len b - bb_off b"

definition bytebuf_consume :: "bytebuf \<Rightarrow> size_t \<Rightarrow> bytebuf" where
  "bytebuf_consume b n =
     (let live = bb_len b - bb_off b;
          n' = (if n > live then live else n);
          b1 = b\<lparr>bb_off := bb_off b + n'\<rparr>
      in if bb_off b1 = bb_len b1 then b1\<lparr>bb_off := 0, bb_len := 0\<rparr>
         else if bb_off b1 > BYTEBUF_COMPACT_MIN \<and> bb_off b1 > bb_cap b1 div 2
              then compact_in_place b1
              else b1)"

section \<open>Contents, invariant and ownership\<close>

definition bb_contents :: "bytebuf \<Rightarrow> bytes" where
  "bb_contents b = take (unat (bytebuf_len b)) (drop (unat (bb_off b)) (bb_data b))"

definition bb_inv :: "bytebuf \<Rightarrow> bool" where
  "bb_inv b \<longleftrightarrow> bb_off b \<le> bb_len b \<and> bb_len b \<le> bb_cap b \<and> bb_cap b \<le> BYTEBUF_MAX \<and>
     length (bb_data b) = unat (bb_cap b) \<and> (bb_ptr b = None \<longleftrightarrow> bb_cap b = 0)"

definition bb_blocks :: "bytebuf \<Rightarrow> addr list" where
  "bb_blocks b = (case bb_ptr b of None \<Rightarrow> [] | Some a \<Rightarrow> [a])"

definition BUF_LIMIT :: nat where
  "BUF_LIMIT = 16777216"

section \<open>Arithmetic of the layout\<close>

lemma unat_BYTEBUF_MAX [simp]: "unat BYTEBUF_MAX = BUF_LIMIT"
  by (simp add: BYTEBUF_MAX_def BUF_LIMIT_def)

lemma BUF_LIMIT_SIZE_MAX [simp]: "n \<le> BUF_LIMIT \<Longrightarrow> n \<le> SIZE_MAX"
  by (simp add: BUF_LIMIT_def SIZE_MAX_def)

lemma unat_le_limit: "c \<le> BYTEBUF_MAX \<Longrightarrow> unat c \<le> BUF_LIMIT"
  by (simp add: word_le_nat_alt)

lemma bb_inv_nat:
  assumes "bb_inv b"
  shows "unat (bb_off b) \<le> unat (bb_len b)" "unat (bb_len b) \<le> unat (bb_cap b)"
    "unat (bb_cap b) \<le> BUF_LIMIT" "length (bb_data b) = unat (bb_cap b)"
    "unat (bytebuf_len b) = unat (bb_len b) - unat (bb_off b)"
    "unat (bb_cap b - bb_len b) = unat (bb_cap b) - unat (bb_len b)"
  using assms by (auto simp: bb_inv_def word_nat unat_le_limit bytebuf_len_def)

lemma length_bb_contents: "bb_inv b \<Longrightarrow> length (bb_contents b) = unat (bytebuf_len b)"
  using bb_inv_nat [of b] by (simp add: bb_contents_def)

lemma bb_contents_limit: "bb_inv b \<Longrightarrow> length (bb_contents b) \<le> BUF_LIMIT"
  using bb_inv_nat [of b] by (simp add: length_bb_contents)

text \<open>The loop returns, and it finds room exactly when the limit allows.\<close>

lemma grow_cap_spec:
  "0 < c \<Longrightarrow> unat len \<le> unat c \<Longrightarrow> unat c \<le> BUF_LIMIT \<Longrightarrow>
   (if unat len + unat need \<le> BUF_LIMIT
    then \<exists>c'. grow_cap c len need = Some (Some c') \<and> unat c \<le> unat c' \<and> unat c' \<le> BUF_LIMIT \<and>
           unat len + unat need \<le> unat c' \<and> (c' = c \<or> unat c' \<le> 2 * (unat len + unat need))
    else grow_cap c len need = Some None)"
proof (induction "BUF_LIMIT - unat c" arbitrary: c rule: less_induct)
  case less
  have sub: "unat (c - len) = unat c - unat len"
    using less.prems by (simp add: word_nat)
  have c0: "0 < unat c" using less.prems(1) by (simp add: word_nat)
  show ?case
  proof (cases "c - len < need")
    case False
    with sub less.prems have "unat len + unat need \<le> unat c" by (simp add: word_nat)
    with False less.prems show ?thesis by (subst (1 2) grow_cap.simps) auto
  next
    case True
    with sub have big: "unat c < unat len + unat need" using less.prems by (simp add: word_nat)
    show ?thesis
    proof (cases "c \<ge> BYTEBUF_MAX")
      case max: True
      then have "unat c = BUF_LIMIT" using less.prems by (simp add: word_nat)
      with big True max show ?thesis by (subst (1 2) grow_cap.simps) auto
    next
      case small: False
      define c1 where "c1 = (if c > BYTEBUF_MAX div 2 then BYTEBUF_MAX else c * 2)"
      have step: "grow_cap c len need = grow_cap c1 len need"
        using True small by (subst grow_cap.simps) (auto simp: c1_def)
      have half: "unat (BYTEBUF_MAX div 2) = 8388608"
        by (simp add: BYTEBUF_MAX_def)
      have dbl: "unat (c * 2) = 2 * unat c" if "\<not> c > BYTEBUF_MAX div 2"
        using that half by (simp add: word_nat unat_word_ariths)
      have lim: "unat c < BUF_LIMIT" using small by (simp add: word_nat)
      have c1: "unat c < unat c1" "unat c1 \<le> BUF_LIMIT" "unat c1 \<le> 2 * unat c"
        using dbl half lim c0 by (auto simp: c1_def word_nat BUF_LIMIT_def)
      then have "BUF_LIMIT - unat c1 < BUF_LIMIT - unat c" "0 < c1" "unat len \<le> unat c1"
        using lim less.prems(2) by (auto simp: word_nat)
      note IH = less.hyps [OF this c1(2)]
      show ?thesis
      proof (cases "unat len + unat need \<le> BUF_LIMIT")
        case True
        with IH obtain c' where "grow_cap c1 len need = Some (Some c')" "unat c1 \<le> unat c'"
          "unat c' \<le> BUF_LIMIT" "unat len + unat need \<le> unat c'"
          "c' = c1 \<or> unat c' \<le> 2 * (unat len + unat need)" by auto
        with True c1 big step show ?thesis by auto
      next
        case False
        with IH step show ?thesis by simp
      qed
    qed
  qed
qed

section \<open>The operations on the layout\<close>

lemma compact_in_place_props:
  assumes "bb_inv b"
  shows "bb_inv (compact_in_place b)" "bb_contents (compact_in_place b) = bb_contents b"
    "bb_off (compact_in_place b) = 0" "bb_len (compact_in_place b) = bytebuf_len b"
    "bb_cap (compact_in_place b) = bb_cap b" "bb_ptr (compact_in_place b) = bb_ptr b"
proof -
  note n = bb_inv_nat [OF assms]
  have z: "unat (bb_off b) = 0" if "\<not> bb_off b > 0" using that by (simp add: word_nat)
  show "bb_off (compact_in_place b) = 0" "bb_len (compact_in_place b) = bytebuf_len b"
    "bb_cap (compact_in_place b) = bb_cap b" "bb_ptr (compact_in_place b) = bb_ptr b"
    by (simp_all add: compact_in_place_def Let_def bytebuf_len_def)
  have live: "length (take (unat (bytebuf_len b)) (drop (unat (bb_off b)) (bb_data b))) = unat (bytebuf_len b)"
    using n by simp
  show "bb_inv (compact_in_place b)"
    using assms n live
    by (auto simp: bb_inv_def compact_in_place_def Let_def bytebuf_len_def word_order_nat)
  have "take (unat (bytebuf_len b)) (bb_data (compact_in_place b)) = bb_contents b"
    using n live z
    by (auto simp: bb_contents_def compact_in_place_def Let_def bytebuf_len_def [symmetric] blit_at_0
        word_order_nat)
  then show "bb_contents (compact_in_place b) = bb_contents b"
    by (simp add: bb_contents_def compact_in_place_def Let_def bytebuf_len_def)
qed

lemma grow_to_props:
  assumes inv: "bb_inv b" and g: "grow_to m b nc = (r, m', b')"
    and nc: "unat (bb_cap b) \<le> unat nc" "unat nc \<le> BUF_LIMIT" "0 < nc"
  shows "bb_inv b'" "bb_contents b' = bb_contents b" "bb_len b' = bb_len b" "bb_off b' = bb_off b"
    "r = RC_OK \<Longrightarrow> bb_cap b' = nc" "mem_plenty m \<Longrightarrow> r = RC_OK \<and> mem_plenty m'"
    "owns m (bb_blocks b) F \<Longrightarrow> owns m' (bb_blocks b') F"
proof -
  note n = bb_inv_nat [OF inv]
  obtain p m1 where pm: "mrealloc (bb_ptr b) m = (p, m1)" by fastforce
  show "bb_inv b'" "bb_contents b' = bb_contents b" "bb_len b' = bb_len b" "bb_off b' = bb_off b"
    "r = RC_OK \<Longrightarrow> bb_cap b' = nc" "mem_plenty m \<Longrightarrow> r = RC_OK \<and> mem_plenty m'"
    using inv g nc n pm mem_plenty_mrealloc [OF pm]
    by (auto simp: grow_to_def bb_inv_def bb_contents_def bytebuf_len_def word_order_nat
        split: option.splits)
  assume "owns m (bb_blocks b) F"
  then show "owns m' (bb_blocks b') F"
    using g by (auto simp: grow_to_def mrealloc_def mfree_opt_def bb_blocks_def
        split: option.splits prod.splits intro: owns_malloc_None
        dest: owns_malloc intro!: owns_mfree_mset)
qed

text \<open>What a reservation of \<open>need\<close> bytes gives.\<close>

definition reserved ::
  "frame \<Rightarrow> mem \<Rightarrow> bytebuf \<Rightarrow> size_t \<Rightarrow> rc \<Rightarrow> mem \<Rightarrow> bytebuf \<Rightarrow> bool" where
  "reserved F m b need r m' b' \<longleftrightarrow> bb_inv b' \<and> bb_contents b' = bb_contents b \<and>
     (r = RC_OK \<longrightarrow> unat (bb_len b') + unat need \<le> unat (bb_cap b') \<and>
        length (bb_contents b) + unat need \<le> BUF_LIMIT) \<and>
     (mem_plenty m \<longrightarrow> mem_plenty m' \<and> (length (bb_contents b) + unat need \<le> BUF_LIMIT \<longrightarrow> r = RC_OK)) \<and>
     (owns m (bb_blocks b) F \<longrightarrow> owns m' (bb_blocks b') F)"

text \<open>Growing the array of a buffer without dead bytes.\<close>

lemma reserved_grown:
  assumes b: "bb_inv b" "unat (bb_len b) = length (bb_contents b)"
    and c: "0 < c" "unat (bb_len b) \<le> unat c" "unat c \<le> BUF_LIMIT" "unat (bb_cap b) \<le> unat c"
    and g: "(case the (grow_cap c (bb_len b) need) of None \<Rightarrow> (RC_ERR, m, b)
      | Some new_cap \<Rightarrow> grow_to m b new_cap) = (r, m', b')"
  shows "reserved F m b need r m' b'"
proof (cases "unat (bb_len b) + unat need \<le> BUF_LIMIT")
  case True
  with grow_cap_spec [OF c(1-3), of need] obtain nc where
    nc: "grow_cap c (bb_len b) need = Some (Some nc)" "unat c \<le> unat nc" "unat nc \<le> BUF_LIMIT"
      "unat (bb_len b) + unat need \<le> unat nc" by auto
  with g have g': "grow_to m b nc = (r, m', b')" by simp
  have "unat (bb_cap b) \<le> unat nc" "0 < nc" using nc c by (auto simp: word_order_nat)
  from grow_to_props [OF b(1) g' this(1) nc(3) this(2)] nc True b(2) show ?thesis by (auto simp: reserved_def)
next
  case False
  with grow_cap_spec [OF c(1-3), of need] g have "r = RC_ERR" "m' = m" "b' = b" by auto
  with False b show ?thesis by (auto simp: reserved_def)
qed

lemma ensure_tail_cap_reserves:
  assumes inv: "bb_inv b" and e: "ensure_tail_cap m b need = (r, m', b')"
  shows "reserved F m b need r m' b'"
proof (cases "bb_cap b - bb_len b \<ge> need")
  case True
  with e have "r = RC_OK" "m' = m" "b' = b" by (auto simp: ensure_tail_cap_def)
  with True inv bb_inv_nat [OF inv] length_bb_contents [OF inv] show ?thesis
    by (auto simp: reserved_def word_order_nat)
next
  case cheap: False
  define b1 where "b1 = (if bb_off b > 0 then compact_in_place b else b)"
  have b1: "bb_inv b1" "bb_contents b1 = bb_contents b" "bb_off b1 = 0" "bb_len b1 = bytebuf_len b"
    "bb_cap b1 = bb_cap b" "bb_ptr b1 = bb_ptr b"
    using compact_in_place_props [OF inv] inv by (auto simp: b1_def bytebuf_len_def word_gt_0)
  note n1 = bb_inv_nat [OF b1(1)]
  have len: "unat (bb_len b1) = length (bb_contents b1)"
    using b1(2,4) bb_inv_nat [OF inv] length_bb_contents [OF inv] by simp
  have from_b1: "reserved F m b1 need r m' b' \<Longrightarrow> reserved F m b need r m' b'"
    using b1 by (simp add: reserved_def bb_blocks_def)
  show ?thesis
  proof (cases "bb_off b > 0 \<and> bb_cap b1 - bb_len b1 \<ge> need")
    case True
    with e cheap have "r = RC_OK" "m' = m" "b' = b1" by (auto simp: ensure_tail_cap_def b1_def Let_def)
    with True b1(1) n1 len show ?thesis by (intro from_b1) (auto simp: reserved_def word_order_nat)
  next
    case False
    define c where "c = (if bb_cap b1 = 0 then BYTEBUF_INIT_CAP else bb_cap b1)"
    have c: "0 < c" "unat (bb_len b1) \<le> unat c" "unat c \<le> BUF_LIMIT" "unat (bb_cap b1) \<le> unat c"
      using n1 by (auto simp: c_def BYTEBUF_INIT_CAP_def word_gt_0 BUF_LIMIT_def)
    have "(case the (grow_cap c (bb_len b1) need) of None \<Rightarrow> (RC_ERR, m, b1)
       | Some new_cap \<Rightarrow> grow_to m b1 new_cap) = (r, m', b')"
      using e cheap False by (auto simp: ensure_tail_cap_def b1_def [symmetric] Let_def c_def)
    from reserved_grown [OF b1(1) len c this] show ?thesis by (rule from_b1)
  qed
qed

lemma ensure_tail_cap_props:
  assumes inv: "bb_inv b" and e: "ensure_tail_cap m b need = (r, m', b')"
  shows "bb_inv b'" "bb_contents b' = bb_contents b"
    "r = RC_OK \<Longrightarrow> unat (bb_len b') + unat need \<le> unat (bb_cap b')"
    "r = RC_OK \<Longrightarrow> length (bb_contents b) + unat need \<le> BUF_LIMIT"
    "mem_plenty m \<Longrightarrow> length (bb_contents b) + unat need \<le> BUF_LIMIT \<Longrightarrow> r = RC_OK"
    "mem_plenty m \<Longrightarrow> mem_plenty m'"
    "owns m (bb_blocks b) F \<Longrightarrow> owns m' (bb_blocks b') F"
  using ensure_tail_cap_reserves [OF assms] by (simp_all add: reserved_def)

text \<open>Writing into the reserved tail: \<open>xs\<close> counted, \<open>junk\<close> (a NUL, say) beyond it.\<close>

lemma write_tail_props:
  assumes inv: "bb_inv b" and fit: "unat (bb_len b) + length (xs @ junk) \<le> unat (bb_cap b)"
  defines "b' \<equiv> b\<lparr>bb_data := blit (bb_data b) (unat (bb_len b)) (xs @ junk), bb_len := bb_len b + size_of xs\<rparr>"
  shows "bb_inv b'" "bb_contents b' = bb_contents b @ xs"
proof -
  note n = bb_inv_nat [OF inv]
  have "length xs \<le> SIZE_MAX" using fit n(3) by (intro BUF_LIMIT_SIZE_MAX) simp
  then have sz: "unat (size_of xs) = length xs" by (simp add: unat_size_of)
  have "unat (bb_len b) + length xs \<le> BUF_LIMIT" using fit n by simp
  then have len: "unat (bb_len b') = unat (bb_len b) + length xs"
    by (simp add: b'_def unat_add_bound sz)
  show inv': "bb_inv b'"
    using inv n fit len by (auto simp: bb_inv_def b'_def word_order_nat)
  have "bb_contents b' = drop (unat (bb_off b)) (take (unat (bb_len b')) (bb_data b'))"
    using bb_inv_nat [OF inv'] by (simp add: bb_contents_def drop_take b'_def)
  also have "take (unat (bb_len b')) (bb_data b') = take (unat (bb_len b)) (bb_data b) @ xs"
    using n fit by (simp add: len) (simp add: b'_def blit_def)
  also have "drop (unat (bb_off b)) \<dots> = bb_contents b @ xs"
    using n by (simp add: bb_contents_def drop_take)
  finally show "bb_contents b' = bb_contents b @ xs" .
qed

lemma unat_size_of_room: "length xs \<le> SIZE_MAX \<Longrightarrow> length cs + unat (size_of xs) \<le> BUF_LIMIT \<longleftrightarrow> length cs + length xs \<le> BUF_LIMIT"
  by (simp add: unat_size_of)

lemma size_of_0_iff: "length xs \<le> SIZE_MAX \<Longrightarrow> size_of xs = 0 \<longleftrightarrow> xs = []"
  using unat_size_of [of xs] by (auto simp: word_unat_eq_iff)

lemma bytebuf_append_props:
  assumes inv: "bb_inv b" and sz: "length xs \<le> SIZE_MAX" and a: "bytebuf_append m b xs = (r, m', b')"
  shows "bb_inv b'" "bb_contents b' = bb_contents b @ (if r = RC_OK then xs else [])"
    "mem_plenty m \<Longrightarrow> length (bb_contents b) + length xs \<le> BUF_LIMIT \<Longrightarrow> r = RC_OK"
    "r = RC_OK \<Longrightarrow> length (bb_contents b) + length xs \<le> BUF_LIMIT"
    "owns m (bb_blocks b) F \<Longrightarrow> owns m' (bb_blocks b') F"
proof -
  have all: "bb_inv b' \<and> bb_contents b' = bb_contents b @ (if r = RC_OK then xs else []) \<and>
    (mem_plenty m \<longrightarrow> length (bb_contents b) + length xs \<le> BUF_LIMIT \<longrightarrow> r = RC_OK) \<and>
    (r = RC_OK \<longrightarrow> length (bb_contents b) + length xs \<le> BUF_LIMIT) \<and>
    (owns m (bb_blocks b) F \<longrightarrow> owns m' (bb_blocks b') F)"
  proof (cases "xs = []")
    case True
    with a inv bb_contents_limit show ?thesis by (auto simp: bytebuf_append_def)
  next
    case False
    obtain r1 m1 b1 where e: "ensure_tail_cap m b (size_of xs) = (r1, m1, b1)" by (metis prod_cases3)
    note E = ensure_tail_cap_props [OF inv e] and u = unat_size_of [OF sz]
    show ?thesis
    proof (cases r1)
      case RC_ERR
      with a e False sz have "r = RC_ERR" "m' = m1" "b' = b1"
        by (auto simp: bytebuf_append_def size_of_0_iff)
      with E u RC_ERR show ?thesis by auto
    next
      case RC_OK
      with a e False sz have r: "r = RC_OK" "m' = m1"
        "b' = b1\<lparr>bb_data := blit (bb_data b1) (unat (bb_len b1)) xs, bb_len := bb_len b1 + size_of xs\<rparr>"
        by (auto simp: bytebuf_append_def size_of_0_iff Let_def)
      with E u RC_OK write_tail_props [OF E(1), of xs "[]"] show ?thesis
        by (auto simp: bb_blocks_def)
    qed
  qed
  then show "bb_inv b'" "bb_contents b' = bb_contents b @ (if r = RC_OK then xs else [])"
    "mem_plenty m \<Longrightarrow> length (bb_contents b) + length xs \<le> BUF_LIMIT \<Longrightarrow> r = RC_OK"
    "r = RC_OK \<Longrightarrow> length (bb_contents b) + length xs \<le> BUF_LIMIT"
    "owns m (bb_blocks b) F \<Longrightarrow> owns m' (bb_blocks b') F" by auto
qed

lemma grow_to_plenty: "grow_to m b nc = (r, m', b') \<Longrightarrow> mem_plenty m \<Longrightarrow> mem_plenty m'"
  by (auto simp: grow_to_def split: prod.splits option.splits dest: mem_plenty_mrealloc)

lemma ensure_tail_cap_plenty: "ensure_tail_cap m b need = (r, m', b') \<Longrightarrow> mem_plenty m \<Longrightarrow> mem_plenty m'"
  by (auto simp: ensure_tail_cap_def Let_def split: if_splits option.splits dest: grow_to_plenty)

lemma bytebuf_append_plenty: "bytebuf_append m b xs = (r, m', b') \<Longrightarrow> mem_plenty m \<Longrightarrow> mem_plenty m'"
  by (auto simp: bytebuf_append_def Let_def split: if_splits prod.splits rc.splits dest: ensure_tail_cap_plenty)

text \<open>For the short texts the program formats, \<open>bytebuf_appendf\<close> is \<open>bytebuf_append\<close>.\<close>

lemma bytebuf_appendf_short: "length s < 128 \<Longrightarrow> bytebuf_appendf m b s = bytebuf_append m b s"
  using unat_size_of [of s] by (simp add: bytebuf_appendf_def Let_def word_less_nat_alt SIZE_MAX_def)

lemma bytebuf_appendf_props:
  assumes inv: "bb_inv b" and sz: "length s < SIZE_MAX" and a: "bytebuf_appendf m b s = (r, m', b')"
  shows "bb_inv b'" "bb_contents b' = bb_contents b @ (if r = RC_OK then s else [])"
    "mem_plenty m \<Longrightarrow> length (bb_contents b) + length s < BUF_LIMIT \<Longrightarrow> r = RC_OK"
    "owns m (bb_blocks b) F \<Longrightarrow> owns m' (bb_blocks b') F"
proof -
  have all: "bb_inv b' \<and> bb_contents b' = bb_contents b @ (if r = RC_OK then s else []) \<and>
    (mem_plenty m \<longrightarrow> length (bb_contents b) + length s < BUF_LIMIT \<longrightarrow> r = RC_OK) \<and>
    (owns m (bb_blocks b) F \<longrightarrow> owns m' (bb_blocks b') F)"
  proof (cases "size_of s < 128")
    case True
    with a have "bytebuf_append m b s = (r, m', b')" by (simp add: bytebuf_appendf_def Let_def)
    with bytebuf_append_props [OF inv _ this] sz show ?thesis by auto
  next
    case False
    obtain r1 m1 b1 where e: "ensure_tail_cap m b (size_of s + 1) = (r1, m1, b1)" by (metis prod_cases3)
    have u: "unat (size_of s + 1) = length s + 1"
      using sz unat_size_of [of s] by (subst unat_add_bound) auto
    note E = ensure_tail_cap_props [OF inv e]
    show ?thesis
    proof (cases r1)
      case RC_ERR
      with a e False have "r = RC_ERR" "m' = m1" "b' = b1" by (auto simp: bytebuf_appendf_def Let_def)
      with E u RC_ERR show ?thesis by auto
    next
      case RC_OK
      with a e False have r: "r = RC_OK" "m' = m1"
        "b' = b1\<lparr>bb_data := blit (bb_data b1) (unat (bb_len b1)) (s @ [0]), bb_len := bb_len b1 + size_of s\<rparr>"
        by (auto simp: bytebuf_appendf_def Let_def)
      with E u RC_OK write_tail_props [OF E(1), of s "[0]"] show ?thesis
        by (auto simp: bb_blocks_def)
    qed
  qed
  then show "bb_inv b'" "bb_contents b' = bb_contents b @ (if r = RC_OK then s else [])"
    "mem_plenty m \<Longrightarrow> length (bb_contents b) + length s < BUF_LIMIT \<Longrightarrow> r = RC_OK"
    "owns m (bb_blocks b) F \<Longrightarrow> owns m' (bb_blocks b') F" by auto
qed

lemma bytebuf_consume_props:
  assumes inv: "bb_inv b"
  shows "bb_inv (bytebuf_consume b n)" "bb_contents (bytebuf_consume b n) = drop (unat n) (bb_contents b)"
    "bb_ptr (bytebuf_consume b n) = bb_ptr b"
proof -
  note bn = bb_inv_nat [OF inv]
  define k where "k = (if n > bytebuf_len b then bytebuf_len b else n)"
  define b1 where "b1 = b\<lparr>bb_off := bb_off b + k\<rparr>"
  have k: "unat k = min (unat n) (unat (bytebuf_len b))" by (auto simp: k_def word_order_nat)
  have "unat (bb_off b) + unat k \<le> SIZE_MAX"
    using k bn by (intro BUF_LIMIT_SIZE_MAX) simp
  then have off: "unat (bb_off b1) = unat (bb_off b) + unat k" by (simp add: b1_def unat_add_bound)
  have inv1: "bb_inv b1"
    using inv off k bn unfolding bb_inv_def word_order_nat by (simp add: b1_def)
  have c1: "bb_contents b1 = drop (unat n) (bb_contents b)"
  proof -
    have "bb_contents b1 = take (unat (bytebuf_len b) - unat k) (drop (unat (bb_off b) + unat k) (bb_data b))"
      using bb_inv_nat [OF inv1] bn off by (simp add: bb_contents_def b1_def)
    also have "\<dots> = drop (unat k) (bb_contents b)"
      by (simp add: bb_contents_def drop_take add.commute)
    also have "\<dots> = drop (unat n) (bb_contents b)"
      using k length_bb_contents [OF inv] by (cases "unat n \<le> unat (bytebuf_len b)") auto
    finally show ?thesis .
  qed
  have eq: "bytebuf_consume b n =
     (if bb_off b1 = bb_len b1 then b1\<lparr>bb_off := 0, bb_len := 0\<rparr>
      else if bb_off b1 > BYTEBUF_COMPACT_MIN \<and> bb_off b1 > bb_cap b1 div 2 then compact_in_place b1 else b1)"
    by (simp add: bytebuf_consume_def Let_def b1_def k_def bytebuf_len_def)
  have full: "bb_inv (b1\<lparr>bb_off := 0, bb_len := 0\<rparr>)" "bb_contents (b1\<lparr>bb_off := 0, bb_len := 0\<rparr>) = []"
    using inv1 by (auto simp: bb_inv_def bb_contents_def bytebuf_len_def)
  have empty: "bb_off b1 = bb_len b1 \<Longrightarrow> bb_contents b1 = []"
    by (simp add: bb_contents_def bytebuf_len_def)
  show "bb_inv (bytebuf_consume b n)" "bb_contents (bytebuf_consume b n) = drop (unat n) (bb_contents b)"
    using inv1 c1 full empty compact_in_place_props [OF inv1] by (auto simp: eq)
  show "bb_ptr (bytebuf_consume b n) = bb_ptr b"
    using compact_in_place_props(6) [OF inv1] by (auto simp: eq b1_def)
qed

lemma bytebuf_init_props [simp]: "bb_inv bytebuf_init" "bb_contents bytebuf_init = []" "bb_blocks bytebuf_init = []"
  by (simp_all add: bb_inv_def bytebuf_init_def bb_contents_def bytebuf_len_def BYTEBUF_MAX_def bb_blocks_def)

lemma bytebuf_reset_props: "bb_inv b \<Longrightarrow> bb_inv (bytebuf_reset b)" "bb_contents (bytebuf_reset b) = []"
  by (auto simp: bb_inv_def bytebuf_reset_def bb_contents_def bytebuf_len_def)

lemma bytebuf_free_owns: "bytebuf_free m b = (m', b') \<Longrightarrow> owns m (bb_blocks b @ xs) F \<Longrightarrow> owns m' xs F"
  by (auto simp: bytebuf_free_def mfree_opt_def bb_blocks_def owns_mfree split: option.splits)

interpretation bb: byte_fifo bb_inv bb_contents bytebuf_append mem_plenty BUF_LIMIT
  "\<lambda>b n. bytebuf_consume b (word_of_nat n)"
proof unfold_locales
  show "r = RC_OK" if "bb_inv b" "mem_plenty m" "length (bb_contents b) + length xs \<le> BUF_LIMIT"
    "bytebuf_append m b xs = (r, m', b')" for b m xs r m' b'
    using that bytebuf_append_props(3) [OF that(1) _ that(4)] by simp
  show "bb_inv b'" if "bb_inv b" "length xs \<le> SIZE_MAX" "bytebuf_append m b xs = (r, m', b')" for b xs m r m' b'
    using that by (rule bytebuf_append_props(1))
  show "bb_contents b' = bb_contents b @ xs"
    if "bb_inv b" "length xs \<le> SIZE_MAX" "bytebuf_append m b xs = (RC_OK, m', b')" for b xs m m' b'
    using bytebuf_append_props(2) [OF that] by simp
  show "bb_contents b' = bb_contents b"
    if "bb_inv b" "length xs \<le> SIZE_MAX" "bytebuf_append m b xs = (RC_ERR, m', b')" for b xs m m' b'
    using bytebuf_append_props(2) [OF that] by simp
  show "mem_plenty m'" if "bytebuf_append m b xs = (r, m', b')" "mem_plenty m" for m b xs r m' b'
    using that by (rule bytebuf_append_plenty)
  show "bb_inv (bytebuf_consume b (word_of_nat n))" if "bb_inv b" for b n
    using that by (rule bytebuf_consume_props)
  show "bb_contents (bytebuf_consume b (word_of_nat n)) = drop n (bb_contents b)"
    if "bb_inv b" "n \<le> SIZE_MAX" for b n
    using that by (simp add: bytebuf_consume_props unat_word_of_nat_size)
qed

end
