(* ===== verification/Buffer_Laws.thy ===== *)
theory Buffer_Laws
  imports Bytebuf
begin

text \<open>
  The properties of the byte buffer: every sequence of calls refines a queue of bytes, appending
  fails exactly when the limit or the allocator says so, growing returns, and the reserve/advance
  pair that the event loop reads with appends what was written.
\<close>

section \<open>Sequences of calls\<close>

datatype buf_op = Bc_Append bytes | Bc_Appendf bytes | Bc_Consume size_t | Bc_Reset

text \<open>A call on the buffer, and what it does to the queue when it reports \<open>r\<close>.\<close>

fun buf_call :: "mem \<Rightarrow> bytebuf \<Rightarrow> buf_op \<Rightarrow> rc \<times> mem \<times> bytebuf" where
  "buf_call m b (Bc_Append xs) = bytebuf_append m b xs"
| "buf_call m b (Bc_Appendf xs) = bytebuf_appendf m b xs"
| "buf_call m b (Bc_Consume n) = (RC_OK, m, bytebuf_consume b n)"
| "buf_call m b Bc_Reset = (RC_OK, m, bytebuf_reset b)"

fun queue_call :: "bytes \<Rightarrow> buf_op \<Rightarrow> rc \<Rightarrow> bytes" where
  "queue_call q (Bc_Append xs) r = q @ (if r = RC_OK then xs else [])"
| "queue_call q (Bc_Appendf xs) r = q @ (if r = RC_OK then xs else [])"
| "queue_call q (Bc_Consume n) r = drop (unat n) q"
| "queue_call q Bc_Reset r = []"

fun call_ok :: "buf_op \<Rightarrow> bool" where
  "call_ok (Bc_Append xs) = (length xs \<le> SIZE_MAX)"
| "call_ok (Bc_Appendf xs) = (length xs < SIZE_MAX)"
| "call_ok _ = True"

fun buf_run :: "mem \<Rightarrow> bytebuf \<Rightarrow> buf_op list \<Rightarrow> rc list \<times> mem \<times> bytebuf" where
  "buf_run m b [] = ([], m, b)"
| "buf_run m b (c # cs) =
     (case buf_call m b c of (r, m1, b1) \<Rightarrow>
        (case buf_run m1 b1 cs of (rs, m2, b2) \<Rightarrow> (r # rs, m2, b2)))"

fun queue_run :: "bytes \<Rightarrow> buf_op list \<Rightarrow> rc list \<Rightarrow> bytes" where
  "queue_run q (c # cs) (r # rs) = queue_run (queue_call q c r) cs rs"
| "queue_run q _ _ = q"

lemma buf_call_queue:
  assumes "bb_inv b" "call_ok c" "buf_call m b c = (r, m', b')"
  shows "bb_inv b' \<and> bb_contents b' = queue_call (bb_contents b) c r \<and>
    (owns m (bb_blocks b) F \<longrightarrow> owns m' (bb_blocks b') F)"
proof (cases c)
  case (Bc_Append xs)
  with assms bytebuf_append_props [of b xs m r m' b'] show ?thesis by simp
next
  case (Bc_Appendf xs)
  with assms bytebuf_appendf_props [of b xs m r m' b'] show ?thesis by simp
next
  case (Bc_Consume n)
  with assms bytebuf_consume_props [of b n] show ?thesis by (auto simp: bb_blocks_def)
next
  case Bc_Reset
  with assms bytebuf_reset_props [of b] show ?thesis by (auto simp: bb_blocks_def bytebuf_reset_def)
qed

text \<open>The bytes a sequence of calls adds at most.\<close>

fun call_size :: "buf_op \<Rightarrow> nat" where
  "call_size (Bc_Append xs) = length xs"
| "call_size (Bc_Appendf xs) = length xs"
| "call_size _ = 0"

lemma bytebuf_appendf_plenty:
  "bytebuf_appendf m b xs = (r, m', b') \<Longrightarrow> mem_plenty m \<Longrightarrow> mem_plenty m'"
  by (auto simp: bytebuf_appendf_def Let_def split: if_splits prod.splits rc.splits
      dest: bytebuf_append_plenty ensure_tail_cap_plenty)

lemma buf_call_room:
  assumes "bb_inv b" "call_ok c" "buf_call m b c = (r, m', b')" "mem_plenty m"
    "length (bb_contents b) + call_size c < BUF_LIMIT"
  shows "r = RC_OK" "mem_plenty m'" "length (bb_contents b') \<le> length (bb_contents b) + call_size c"
proof -
  have "r = RC_OK \<and> mem_plenty m'"
  proof (cases c)
    case (Bc_Append xs)
    with assms bytebuf_append_props(3) [of b xs m r m' b'] show ?thesis by (auto dest: bytebuf_append_plenty)
  next
    case (Bc_Appendf xs)
    with assms bytebuf_appendf_props(3) [of b xs m r m' b'] show ?thesis by (auto dest: bytebuf_appendf_plenty)
  qed (use assms in auto)
  moreover have "bb_contents b' = queue_call (bb_contents b) c r"
    using buf_call_queue [OF assms(1-3)] by blast
  ultimately show "r = RC_OK" "mem_plenty m'" "length (bb_contents b') \<le> length (bb_contents b) + call_size c"
    by (cases c; simp)+
qed

lemma buf_run_room:
  "bb_inv b \<Longrightarrow> list_all call_ok cs \<Longrightarrow> mem_plenty m \<Longrightarrow> buf_run m b cs = (rs, m', b') \<Longrightarrow>
   length (bb_contents b) + sum_list (map call_size cs) < BUF_LIMIT \<Longrightarrow> rs = replicate (length cs) RC_OK"
proof (induction cs arbitrary: m b rs)
  case (Cons c cs)
  obtain r m1 b1 where c: "buf_call m b c = (r, m1, b1)" by (metis prod_cases3)
  obtain rs1 where r: "buf_run m1 b1 cs = (rs1, m', b')" "rs = r # rs1"
    using Cons.prems(4) by (auto simp: c split: prod.splits)
  have ok: "call_ok c" "list_all call_ok cs" using Cons.prems(2) by simp_all
  have "length (bb_contents b) + call_size c < BUF_LIMIT" using Cons.prems(5) by simp
  note R = buf_call_room [OF Cons.prems(1) ok(1) c Cons.prems(3) this]
  have "bb_inv b1" using buf_call_queue [OF Cons.prems(1) ok(1) c] by blast
  from Cons.IH [OF this ok(2) R(2) r(1)] R(1,3) Cons.prems(5) r(2) show ?case by simp
qed simp

section \<open>Properties\<close>

text \<open>
  C15. Every sequence of \<open>bytebuf_append\<close>, \<open>bytebuf_appendf\<close>, \<open>bytebuf_consume\<close> and
  \<open>bytebuf_reset\<close> on a sound buffer, under whatever allocation failures, acts on the contents as
  on a queue of bytes: an append that succeeds adds its bytes at the end, one that fails adds
  nothing, consuming drops from the front, and growing, compacting and wrapping the offset back
  are not visible. The layout stays sound and the backing array is owned throughout. When no
  allocation fails and the limit leaves room for everything appended, every call succeeds.
\<close>

theorem buf_run_refines_queue:
  assumes "bb_inv b" "list_all call_ok cs" "owns m (bb_blocks b) F" "buf_run m b cs = (rs, m', b')"
  shows "bb_contents b' = queue_run (bb_contents b) cs rs \<and> bb_inv b' \<and> owns m' (bb_blocks b') F \<and>
    (mem_plenty m \<and> length (bb_contents b) + sum_list (map call_size cs) < unat BYTEBUF_MAX \<longrightarrow>
       rs = replicate (length cs) RC_OK)"
proof -
  have "bb_contents b' = queue_run (bb_contents b) cs rs \<and> bb_inv b' \<and> owns m' (bb_blocks b') F"
    using assms
  proof (induction cs arbitrary: m b rs)
    case (Cons c cs)
    obtain r m1 b1 where c: "buf_call m b c = (r, m1, b1)" by (metis prod_cases3)
    obtain rs1 where r: "buf_run m1 b1 cs = (rs1, m', b')" "rs = r # rs1"
      using Cons.prems(4) by (auto simp: c split: prod.splits)
    from buf_call_queue [OF Cons.prems(1) _ c] Cons.prems(2,3)
    have s: "bb_inv b1" "bb_contents b1 = queue_call (bb_contents b) c r" "owns m1 (bb_blocks b1) F" by auto
    from Cons.IH [OF s(1) _ s(3) r(1)] Cons.prems(2) s(2) r(2) show ?case by simp
  qed simp
  then show ?thesis using buf_run_room [OF assms(1,2) _ assms(4)] by simp
qed

theorem buf_run_refines_queue_witness:
  "case buf_run (mem_init []) bytebuf_init [Bc_Append (cstr ''abc''), Bc_Consume 1, Bc_Appendf (cstr ''7'')] of
     (rs, m', b') \<Rightarrow> rs = [RC_OK, RC_OK, RC_OK] \<and> bb_contents b' = cstr ''bc7''"
proof -
  let ?cs = "[Bc_Append (cstr ''abc''), Bc_Consume 1, Bc_Appendf (cstr ''7'')]"
  obtain rs m' b' where r: "buf_run (mem_init []) bytebuf_init ?cs = (rs, m', b')" by (metis prod_cases3)
  have ok: "list_all call_ok ?cs" by (simp add: cstr_def SIZE_MAX_def)
  have o0: "owns (mem_init []) (bb_blocks bytebuf_init) alone" by simp
  note R = buf_run_refines_queue [OF bytebuf_init_props(1) ok o0 r]
  have rs: "rs = [RC_OK, RC_OK, RC_OK]" using R by (simp add: cstr_def BUF_LIMIT_def numeral_3_eq_3)
  show ?thesis using R by (simp only: r rs prod.case) (simp add: cstr_def)
qed

text \<open>
  \<open>bytebuf_append\<close> succeeds exactly when the result stays within \<open>BYTEBUF_MAX\<close>, unless an
  allocation fails; on failure the contents are what they were.
\<close>

theorem bytebuf_append_room:
  assumes "bb_inv b" "length xs \<le> SIZE_MAX"
  shows "case bytebuf_append m b xs of (r, m', b') \<Rightarrow>
    bb_contents b' = bb_contents b @ (if r = RC_OK then xs else []) \<and>
    (r = RC_OK \<longrightarrow> length (bb_contents b) + length xs \<le> unat BYTEBUF_MAX) \<and>
    (mem_plenty m \<and> length (bb_contents b) + length xs \<le> unat BYTEBUF_MAX \<longrightarrow> r = RC_OK)"
proof -
  obtain r m' b' where a: "bytebuf_append m b xs = (r, m', b')" by (metis prod_cases3)
  from bytebuf_append_props [OF assms a] a show ?thesis by simp
qed

theorem bytebuf_append_room_witness:
  "case bytebuf_append (mem_init []) bytebuf_init (cstr ''abc'') of (r, m', b') \<Rightarrow>
     r = RC_OK \<and> bb_contents b' = cstr ''abc''"
  using bytebuf_append_room [OF bytebuf_init_props(1), of "cstr ''abc''" "mem_init []"]
  by (auto simp: cstr_def SIZE_MAX_def BUF_LIMIT_def split: prod.splits)

text \<open>
  C33. The doubling loop of \<open>ensure_tail_cap\<close> returns from every non-zero capacity the limit
  allows. It finds room whenever the limit leaves it, with a capacity that never shrinks, never
  passes the limit and is the one it had or at most twice what is needed; otherwise it gives up.
\<close>

theorem grow_cap_returns:
  assumes "0 < cap" "len \<le> cap" "cap \<le> BYTEBUF_MAX"
  shows "if unat len + unat need \<le> unat BYTEBUF_MAX
    then \<exists>cap'. grow_cap cap len need = Some (Some cap') \<and> cap \<le> cap' \<and> cap' \<le> BYTEBUF_MAX \<and>
           unat len + unat need \<le> unat cap' \<and> (cap' = cap \<or> unat cap' \<le> 2 * (unat len + unat need))
    else grow_cap cap len need = Some None"
  using grow_cap_spec [OF assms(1), of len need] assms(2,3) by (auto simp: word_order_nat)

theorem grow_cap_returns_witness:
  "\<exists>cap'. grow_cap BYTEBUF_INIT_CAP 200 4096 = Some (Some cap') \<and> 4296 \<le> unat cap' \<and> unat cap' \<le> 8592"
  using grow_cap_returns [of BYTEBUF_INIT_CAP 200 4096]
  by (auto simp: BYTEBUF_INIT_CAP_def BYTEBUF_MAX_def word_le_nat_alt)

text \<open>
  What the event loop does with a successful \<open>bytebuf_reserve\<close>: writing up to \<open>n\<close> bytes at
  the pointer it returned stays inside the backing array, and after \<open>bytebuf_advance\<close> by their
  number the contents are the old ones followed by these bytes.
\<close>

theorem reserve_advance_appends:
  assumes "bb_inv b" "bytebuf_reserve m b n = (Some tail, m', b')" "length xs \<le> unat n"
  shows "unat tail + length xs \<le> length (bb_data b') \<and>
    bb_contents (bytebuf_advance (b'\<lparr>bb_data := blit (bb_data b') (unat tail) xs\<rparr>) (size_of xs)) = bb_contents b @ xs \<and>
    bb_inv (bytebuf_advance (b'\<lparr>bb_data := blit (bb_data b') (unat tail) xs\<rparr>) (size_of xs))"
proof -
  have e: "ensure_tail_cap m b n = (RC_OK, m', b')" and t: "tail = bb_len b'"
    using assms(2) by (auto simp: bytebuf_reserve_def split: prod.splits rc.splits)
  note E = ensure_tail_cap_props [OF assms(1) e]
  have fit: "unat (bb_len b') + length (xs @ []) \<le> unat (bb_cap b')" using E(3) assms(3) by simp
  note B = bb_inv_nat [OF E(1)]
  have "length xs \<le> SIZE_MAX" using fit B(3) by (intro BUF_LIMIT_SIZE_MAX) simp
  then have "size_of xs \<le> bb_cap b' - bb_len b'"
    using fit B by (simp add: word_le_nat_alt unat_size_of)
  then have eq: "bytebuf_advance (b'\<lparr>bb_data := blit (bb_data b') (unat tail) xs\<rparr>) (size_of xs) =
      b'\<lparr>bb_data := blit (bb_data b') (unat (bb_len b')) (xs @ []), bb_len := bb_len b' + size_of xs\<rparr>"
    by (simp add: bytebuf_advance_def Let_def t not_less [symmetric])
  have "unat tail + length xs \<le> length (bb_data b')" using fit B(4) by (simp add: t)
  with write_tail_props [OF E(1) fit] E(2) show ?thesis by (simp only: eq simp_thms)
qed

theorem reserve_advance_appends_witness:
  "\<exists>tail m' b'. bytebuf_reserve (mem_init []) bytebuf_init 4 = (Some tail, m', b') \<and>
     bb_contents (bytebuf_advance (b'\<lparr>bb_data := blit (bb_data b') (unat tail) [1, 2]\<rparr>) (size_of [1, 2])) = [1, 2]"
proof -
  obtain r m' b' where e: "ensure_tail_cap (mem_init []) bytebuf_init 4 = (r, m', b')" by (metis prod_cases3)
  have "r = RC_OK" using ensure_tail_cap_props(5) [OF bytebuf_init_props(1) e] by (simp add: BUF_LIMIT_def)
  with e have r: "bytebuf_reserve (mem_init []) bytebuf_init 4 = (Some (bb_len b'), m', b')"
    by (simp add: bytebuf_reserve_def)
  from reserve_advance_appends [OF bytebuf_init_props(1) r, of "[1, 2]"] r show ?thesis by auto
qed

end
