(* ===== verification/Bytebuf_Heap.thy ===== *)
theory Bytebuf_Heap
  imports Buffer_Laws Ht_Heap
begin

text \<open>
  \<open>bytebuf.c\<close> with its pointer: the backing array is a block of a store whose bytes are
  indeterminate until they are written. An access outside the block or to a block that is
  not there, and a read of an indeterminate byte, have no result, and neither has a doubling loop
  that does not end. The theory shows that no sequence of calls does any of this, and that the calls do
  what \<open>Bytebuf\<close> says.
\<close>

section \<open>The store\<close>

text \<open>A byte of a block is \<open>None\<close> until it is written.\<close>

record bstore =
  bs_mem :: mem
  bs_at :: "addr \<rightharpoonup> byte option list"

record pbuf =
  pb_data :: "addr option"
  pb_cap :: size_t
  pb_len :: size_t
  pb_off :: size_t

text \<open>\<open>memcpy\<close> into a block, \<open>memmove\<close> to its start, and a read of \<open>n\<close> bytes.\<close>

definition c_write :: "addr option \<Rightarrow> nat \<Rightarrow> bytes \<Rightarrow> bstore \<Rightarrow> bstore option" where
  "c_write p off src s = do {
     a \<leftarrow> p;
     cs \<leftarrow> bs_at s a;
     if off + length src \<le> length cs
     then Some (s\<lparr>bs_at := (bs_at s)(a \<mapsto> take off cs @ map Some src @ drop (off + length src) cs)\<rparr>)
     else None }"

definition c_move :: "addr option \<Rightarrow> nat \<Rightarrow> nat \<Rightarrow> bstore \<Rightarrow> bstore option" where
  "c_move p off n s = do {
     a \<leftarrow> p;
     cs \<leftarrow> bs_at s a;
     if off + n \<le> length cs
     then Some (s\<lparr>bs_at := (bs_at s)(a \<mapsto> take n (drop off cs) @ drop n cs)\<rparr>)
     else None }"

definition c_read :: "addr option \<Rightarrow> nat \<Rightarrow> nat \<Rightarrow> bstore \<Rightarrow> bytes option" where
  "c_read p off n s = do {
     a \<leftarrow> p;
     cs \<leftarrow> bs_at s a;
     if off + n \<le> length cs \<and> None \<notin> set (take n (drop off cs))
     then Some (map the (take n (drop off cs)))
     else None }"

text \<open>\<open>realloc\<close>: the old bytes move to a new block, the bytes beyond them are indeterminate.\<close>

definition c_realloc :: "addr option \<Rightarrow> nat \<Rightarrow> bstore \<Rightarrow> (addr option \<times> bstore) option" where
  "c_realloc p n s = do {
     old \<leftarrow> (case p of None \<Rightarrow> Some [] | Some a \<Rightarrow> bs_at s a);
     Some (case malloc (bs_mem s) of
        (None, m) \<Rightarrow> (None, s\<lparr>bs_mem := m\<rparr>)
      | (Some q, m) \<Rightarrow> (Some q, \<lparr>bs_mem = mfree_opt p m,
          bs_at = (case p of None \<Rightarrow> bs_at s | Some a \<Rightarrow> (bs_at s)(a := None))
            (q \<mapsto> take n old @ replicate (n - length old) None)\<rparr>)) }"

section \<open>The operations\<close>

definition p_compact_in_place :: "pbuf \<Rightarrow> bstore \<Rightarrow> (pbuf \<times> bstore) option" where
  "p_compact_in_place b s =
     (let live = pb_len b - pb_off b in do {
        s' \<leftarrow> (if live > 0 \<and> pb_off b > 0 then c_move (pb_data b) (unat (pb_off b)) (unat live) s else Some s);
        Some (b\<lparr>pb_len := live, pb_off := 0\<rparr>, s') })"

definition p_ensure_tail_cap :: "pbuf \<Rightarrow> size_t \<Rightarrow> bstore \<Rightarrow> (rc \<times> pbuf \<times> bstore) option" where
  "p_ensure_tail_cap b need s =
     (if pb_cap b - pb_len b \<ge> need then Some (RC_OK, b, s)
      else do {
        (b1, s1) \<leftarrow> (if pb_off b > 0 then p_compact_in_place b s else Some (b, s));
        if pb_off b > 0 \<and> pb_cap b1 - pb_len b1 \<ge> need then Some (RC_OK, b1, s1)
        else do {
          grown \<leftarrow> grow_cap (if pb_cap b1 = 0 then BYTEBUF_INIT_CAP else pb_cap b1) (pb_len b1) need;
          (case grown of
             None \<Rightarrow> Some (RC_ERR, b1, s1)
           | Some new_cap \<Rightarrow> do {
               (new_data, s2) \<leftarrow> c_realloc (pb_data b1) (unat new_cap) s1;
               Some (if new_data = None then (RC_ERR, b1, s2)
                     else (RC_OK, b1\<lparr>pb_data := new_data, pb_cap := new_cap\<rparr>, s2)) }) } })"

definition p_bytebuf_init :: pbuf where
  "p_bytebuf_init = \<lparr>pb_data = None, pb_cap = 0, pb_len = 0, pb_off = 0\<rparr>"

definition p_bytebuf_free :: "pbuf \<Rightarrow> bstore \<Rightarrow> pbuf \<times> bstore" where
  "p_bytebuf_free b s = (p_bytebuf_init,
     \<lparr>bs_mem = mfree_opt (pb_data b) (bs_mem s),
      bs_at = (case pb_data b of None \<Rightarrow> bs_at s | Some a \<Rightarrow> (bs_at s)(a := None))\<rparr>)"

definition p_bytebuf_reset :: "pbuf \<Rightarrow> pbuf" where
  "p_bytebuf_reset b = b\<lparr>pb_len := 0, pb_off := 0\<rparr>"

definition p_bytebuf_append :: "pbuf \<Rightarrow> bytes \<Rightarrow> bstore \<Rightarrow> (rc \<times> pbuf \<times> bstore) option" where
  "p_bytebuf_append b src s =
     (let n = size_of src in
      if n = 0 then Some (RC_OK, b, s)
      else do {
        (r, b1, s1) \<leftarrow> p_ensure_tail_cap b n s;
        if r = RC_ERR then Some (RC_ERR, b1, s1)
        else do {
          s2 \<leftarrow> c_write (pb_data b1) (unat (pb_len b1)) src s1;
          Some (RC_OK, b1\<lparr>pb_len := pb_len b1 + n\<rparr>, s2) } })"

definition p_bytebuf_appendf :: "pbuf \<Rightarrow> bytes \<Rightarrow> bstore \<Rightarrow> (rc \<times> pbuf \<times> bstore) option" where
  "p_bytebuf_appendf b txt s =
     (let n = size_of txt in
      if n < 128 then p_bytebuf_append b txt s
      else do {
        (r, b1, s1) \<leftarrow> p_ensure_tail_cap b (n + 1) s;
        if r = RC_ERR then Some (RC_ERR, b1, s1)
        else do {
          s2 \<leftarrow> c_write (pb_data b1) (unat (pb_len b1)) (txt @ [0]) s1;
          Some (RC_OK, b1\<lparr>pb_len := pb_len b1 + n\<rparr>, s2) } })"

text \<open>The pointer \<open>bytebuf_reserve\<close> returns is an offset in the block.\<close>

definition p_bytebuf_reserve :: "pbuf \<Rightarrow> size_t \<Rightarrow> bstore \<Rightarrow> (size_t option \<times> pbuf \<times> bstore) option" where
  "p_bytebuf_reserve b n s = do {
     (r, b1, s1) \<leftarrow> p_ensure_tail_cap b n s;
     Some (if r = RC_ERR then None else Some (pb_len b1), b1, s1) }"

definition p_bytebuf_advance :: "pbuf \<Rightarrow> size_t \<Rightarrow> pbuf" where
  "p_bytebuf_advance b n =
     (let n' = (if n > pb_cap b - pb_len b then pb_cap b - pb_len b else n)
      in b\<lparr>pb_len := pb_len b + n'\<rparr>)"

definition p_bytebuf_len :: "pbuf \<Rightarrow> size_t" where
  "p_bytebuf_len b = pb_len b - pb_off b"

text \<open>A reader of the bytes from \<open>bytebuf_data\<close> on; it does not touch the pointer when the length is 0.\<close>

definition p_bytebuf_view :: "pbuf \<Rightarrow> bstore \<Rightarrow> bytes option" where
  "p_bytebuf_view b s =
     (if p_bytebuf_len b = 0 then Some []
      else c_read (pb_data b) (unat (pb_off b)) (unat (p_bytebuf_len b)) s)"

definition p_bytebuf_consume :: "pbuf \<Rightarrow> size_t \<Rightarrow> bstore \<Rightarrow> (pbuf \<times> bstore) option" where
  "p_bytebuf_consume b n s =
     (let live = pb_len b - pb_off b;
          n' = (if n > live then live else n);
          b1 = b\<lparr>pb_off := pb_off b + n'\<rparr>
      in if pb_off b1 = pb_len b1 then Some (b1\<lparr>pb_off := 0, pb_len := 0\<rparr>, s)
         else if pb_off b1 > BYTEBUF_COMPACT_MIN \<and> pb_off b1 > pb_cap b1 div 2
              then p_compact_in_place b1 s
              else Some (b1, s))"

section \<open>The two levels\<close>

text \<open>The block has the capacity's size, and the bytes up to the length are written.\<close>

definition in_store :: "bstore \<Rightarrow> pbuf \<Rightarrow> mem \<Rightarrow> bytebuf \<Rightarrow> bool" where
  "in_store s p m b \<longleftrightarrow> bs_mem s = m \<and>
     pb_data p = bb_ptr b \<and> pb_cap p = bb_cap b \<and> pb_len p = bb_len b \<and> pb_off p = bb_off b \<and>
     (\<forall>a. bb_ptr b = Some a \<longrightarrow> (\<exists>cs. bs_at s a = Some cs \<and> length cs = unat (bb_cap b) \<and>
        take (unat (bb_len b)) cs = map Some (take (unat (bb_len b)) (bb_data b))))"

definition sim_buf :: "frame \<Rightarrow> bstore \<Rightarrow> (rc \<times> pbuf \<times> bstore) option \<Rightarrow> rc \<times> mem \<times> bytebuf \<Rightarrow> bool" where
  "sim_buf F s pres res \<longleftrightarrow> (case res of (r, m', b') \<Rightarrow>
     \<exists>p' s'. pres = Some (r, p', s') \<and> in_store s' p' m' b' \<and> (\<forall>a\<in>fr_live F. bs_at s' a = bs_at s a))"

lemma in_store_fields:
  assumes "in_store s p m b"
  shows "bs_mem s = m" "pb_data p = bb_ptr b" "pb_cap p = bb_cap b" "pb_len p = bb_len b" "pb_off p = bb_off b"
  using assms by (simp_all add: in_store_def)

lemma in_store_block:
  assumes "in_store s p m b" "bb_inv b" "0 < bb_len b \<or> 0 < bb_cap b"
  obtains a cs where "bb_ptr b = Some a" "bs_at s a = Some cs" "length cs = unat (bb_cap b)"
    "take (unat (bb_len b)) cs = map Some (take (unat (bb_len b)) (bb_data b))"
proof -
  have "bb_cap b \<noteq> 0" using assms(2,3) by (auto simp: bb_inv_def)
  then obtain a where "bb_ptr b = Some a" using assms(2) by (auto simp: bb_inv_def)
  with assms(1) that show ?thesis by (auto simp: in_store_def)
qed

lemma own_ptr: "owns m (bb_blocks b) F \<Longrightarrow> bb_ptr b = Some a \<Longrightarrow> a \<notin> fr_live F"
  by (auto simp: owns_def bb_blocks_def)

section \<open>Compaction\<close>

lemma compact_sim:
  assumes st: "in_store s p m b" and inv: "bb_inv b" and own: "owns m (bb_blocks b) F"
  shows "\<exists>p' s'. p_compact_in_place p s = Some (p', s') \<and> in_store s' p' m (compact_in_place b) \<and>
    (\<forall>a\<in>fr_live F. bs_at s' a = bs_at s a)"
proof -
  note f = in_store_fields [OF st] and n = bb_inv_nat [OF inv]
  let ?live = "bb_len b - bb_off b"
  have live: "unat ?live = unat (bb_len b) - unat (bb_off b)" using n(5) by (simp add: bytebuf_len_def)
  show ?thesis
  proof (cases "?live > 0 \<and> bb_off b > 0")
    case False
    then have "?live = 0 \<or> bb_off b = 0" by (simp add: word_gt_0)
    then have "in_store s (p\<lparr>pb_len := ?live, pb_off := 0\<rparr>) m (compact_in_place b)"
      using st False by (auto simp: in_store_def compact_in_place_def Let_def)
    with False f show ?thesis by (auto simp: p_compact_in_place_def Let_def)
  next
    case True
    then have "0 < bb_len b" using n(1) by (auto simp: word_less_nat_alt)
    with in_store_block [OF st inv] obtain a cs where
      a: "bb_ptr b = Some a" "bs_at s a = Some cs" "length cs = unat (bb_cap b)"
      "take (unat (bb_len b)) cs = map Some (take (unat (bb_len b)) (bb_data b))" by blast
    define cs' where "cs' = take (unat ?live) (drop (unat (bb_off b)) cs) @ drop (unat ?live) cs"
    have "take (unat ?live) (drop (unat (bb_off b)) cs) = drop (unat (bb_off b)) (take (unat (bb_len b)) cs)"
      using live by (simp add: drop_take)
    also have "\<dots> = map Some (take (unat ?live) (drop (unat (bb_off b)) (bb_data b)))"
      unfolding a(4) drop_map [symmetric] using live by (simp add: drop_take drop_map)
    finally have moved: "take (unat ?live) (drop (unat (bb_off b)) cs) = map Some (take (unat ?live) (drop (unat (bb_off b)) (bb_data b)))" .
    have len: "length cs' = unat (bb_cap b)" "length (take (unat ?live) (drop (unat (bb_off b)) (bb_data b))) = unat ?live"
      using n live a(3) by (auto simp: cs'_def)
    have "take (unat ?live) cs' = map Some (take (unat ?live) (bb_data (compact_in_place b)))"
      using len True moved by (simp add: cs'_def compact_in_place_def Let_def blit_at_0)
    moreover have "unat (bb_off b) + unat ?live \<le> length cs" using n live a(3) by simp
    ultimately show ?thesis
      using True f a len(1) own_ptr [OF own a(1)] compact_in_place_props [OF inv]
      by (auto simp: p_compact_in_place_def c_move_def Let_def cs'_def in_store_def bytebuf_len_def)
  qed
qed

section \<open>Growing\<close>

lemma grow_to_sim:
  assumes st: "in_store s p m b" and inv: "bb_inv b" and own: "owns m (bb_blocks b) F"
    and nc: "unat (bb_cap b) \<le> unat nc"
  shows "sim_buf F s
    (do { (new_data, s2) \<leftarrow> c_realloc (pb_data p) (unat nc) s;
          Some (if new_data = None then (RC_ERR, p, s2) else (RC_OK, p\<lparr>pb_data := new_data, pb_cap := nc\<rparr>, s2)) })
    (grow_to m b nc)"
proof -
  note f = in_store_fields [OF st] and n = bb_inv_nat [OF inv]
  have "\<exists>old. (case bb_ptr b of None \<Rightarrow> Some [] | Some a \<Rightarrow> bs_at s a) = Some old \<and> length old = unat (bb_cap b) \<and>
      take (unat (bb_len b)) old = map Some (take (unat (bb_len b)) (bb_data b))"
  proof (cases "bb_ptr b")
    case None
    then have "unat (bb_cap b) = 0" "unat (bb_len b) = 0" using inv n by (auto simp: bb_inv_def)
    with None show ?thesis by simp
  next
    case (Some a)
    with st show ?thesis by (auto simp: in_store_def)
  qed
  then obtain old where old: "(case bb_ptr b of None \<Rightarrow> Some [] | Some a \<Rightarrow> bs_at s a) = Some old"
    "length old = unat (bb_cap b)" "take (unat (bb_len b)) old = map Some (take (unat (bb_len b)) (bb_data b))" by blast
  obtain q m1 where q: "malloc m = (q, m1)" by fastforce
  show ?thesis
  proof (cases q)
    case None
    with q f old(1) st show ?thesis
      by (auto simp: c_realloc_def grow_to_def mrealloc_def sim_buf_def in_store_def)
  next
    case (Some a)
    have fresh: "a \<notin> set (bb_blocks b)" "a \<notin> fr_live F" using malloc_fresh [OF own q [unfolded Some]] by auto
    have old': "b' \<notin> fr_live F" if "bb_ptr b = Some b'" for b' using own_ptr [OF own that] .
    have "take (unat nc) old = old" using old(2) nc by simp
    moreover have "take (unat (bb_len b)) (old @ replicate (unat nc - length old) None) =
        map Some (take (unat (bb_len b)) (bb_data b @ replicate (unat nc - unat (bb_cap b)) 0))"
      using old(2,3) n by simp
    ultimately show ?thesis
      using q Some f old(1,2) nc fresh old'
      by (auto simp: c_realloc_def grow_to_def mrealloc_def sim_buf_def in_store_def split: option.split)
  qed
qed

lemma ensure_tail_cap_sim:
  assumes st: "in_store s p m b" and inv: "bb_inv b" and own: "owns m (bb_blocks b) F"
  shows "sim_buf F s (p_ensure_tail_cap p need s) (ensure_tail_cap m b need)"
proof (cases "bb_cap b - bb_len b \<ge> need")
  case True
  with st in_store_fields [OF st] show ?thesis
    by (simp add: p_ensure_tail_cap_def ensure_tail_cap_def sim_buf_def)
next
  case cheap: False
  note f = in_store_fields [OF st]
  define b1 where "b1 = (if bb_off b > 0 then compact_in_place b else b)"
  have b1: "bb_inv b1" "bb_ptr b1 = bb_ptr b" "unat (bb_len b1) \<le> unat (bb_cap b1)" "unat (bb_cap b1) \<le> BUF_LIMIT"
    using compact_in_place_props [OF inv] inv bb_inv_nat [of b1] by (auto simp: b1_def)
  have own1: "owns m (bb_blocks b1) F" using own b1(2) by (simp add: bb_blocks_def)
  have "\<exists>p1 s1. (if pb_off p > 0 then p_compact_in_place p s else Some (p, s)) = Some (p1, s1) \<and>
      in_store s1 p1 m b1 \<and> (\<forall>a\<in>fr_live F. bs_at s1 a = bs_at s a)"
    using compact_sim [OF st inv own] st f by (auto simp: b1_def)
  then obtain p1 s1 where p1: "(if pb_off p > 0 then p_compact_in_place p s else Some (p, s)) = Some (p1, s1)"
    "in_store s1 p1 m b1" "\<forall>a\<in>fr_live F. bs_at s1 a = bs_at s a" by blast
  note f1 = in_store_fields [OF p1(2)]
  show ?thesis
  proof (cases "bb_off b > 0 \<and> bb_cap b1 - bb_len b1 \<ge> need")
    case True
    with cheap p1 f f1 show ?thesis
      by (auto simp: p_ensure_tail_cap_def ensure_tail_cap_def sim_buf_def b1_def Let_def)
  next
    case False
    define c where "c = (if bb_cap b1 = 0 then BYTEBUF_INIT_CAP else bb_cap b1)"
    have c: "0 < c" "unat (bb_len b1) \<le> unat c" "unat c \<le> BUF_LIMIT" "unat (bb_cap b1) \<le> unat c"
      using b1 by (auto simp: c_def BYTEBUF_INIT_CAP_def word_gt_0 BUF_LIMIT_def)
    have pe: "p_ensure_tail_cap p need s = do {
        grown \<leftarrow> grow_cap c (bb_len b1) need;
        (case grown of None \<Rightarrow> Some (RC_ERR, p1, s1)
         | Some nc \<Rightarrow> do { (new_data, s2) \<leftarrow> c_realloc (pb_data p1) (unat nc) s1;
             Some (if new_data = None then (RC_ERR, p1, s2) else (RC_OK, p1\<lparr>pb_data := new_data, pb_cap := nc\<rparr>, s2)) }) }"
    proof -
      have no: "(pb_off p > 0 \<and> bb_cap b1 - bb_len b1 \<ge> need) = False" using False f by simp
      have ch: "(pb_cap p - pb_len p \<ge> need) = False" using cheap f by simp
      show ?thesis
        by (simp only: p_ensure_tail_cap_def p1(1) Option.bind.bind_lunit prod.case no ch if_False c_def f1(3,4))
    qed
    have e: "ensure_tail_cap m b need = (case the (grow_cap c (bb_len b1) need) of None \<Rightarrow> (RC_ERR, m, b1)
        | Some nc \<Rightarrow> grow_to m b1 nc)"
      using cheap False by (auto simp: ensure_tail_cap_def b1_def [symmetric] c_def Let_def)
    from grow_cap_spec [OF c(1-3), of need] consider (stop) "grow_cap c (bb_len b1) need = Some None"
      | (grow) nc where "grow_cap c (bb_len b1) need = Some (Some nc)" "unat (bb_cap b1) \<le> unat nc"
      using c(4) by (auto split: if_splits)
    then show ?thesis
    proof cases
      case stop
      with pe e p1 show ?thesis by (simp add: sim_buf_def)
    next
      case grow
      from grow_to_sim [OF p1(2) b1(1) own1 grow(2)] p1(3) grow(1) show ?thesis
        unfolding pe e by (auto simp: sim_buf_def split: prod.splits)
    qed
  qed
qed

section \<open>Writing at the tail\<close>

lemma c_write_sim:
  assumes st: "in_store s p m b" and inv: "bb_inv b" and own: "owns m (bb_blocks b) F"
    and fit: "unat (bb_len b) + length (xs @ junk) \<le> unat (bb_cap b)" "xs @ junk \<noteq> []"
  shows "\<exists>s'. c_write (pb_data p) (unat (pb_len p)) (xs @ junk) s = Some s' \<and>
    in_store s' (p\<lparr>pb_len := pb_len p + size_of xs\<rparr>) m
      (b\<lparr>bb_data := blit (bb_data b) (unat (bb_len b)) (xs @ junk), bb_len := bb_len b + size_of xs\<rparr>) \<and>
    (\<forall>a\<in>fr_live F. bs_at s' a = bs_at s a)"
proof -
  note f = in_store_fields [OF st] and n = bb_inv_nat [OF inv]
  let ?l = "unat (bb_len b)"
  have "0 < length (xs @ junk)" using fit(2) by (metis length_greater_0_conv)
  then have "0 < unat (bb_cap b)" using fit(1) by linarith
  then have "0 < bb_cap b" by (simp add: word_less_nat_alt)
  with in_store_block [OF st inv] obtain a cs where
    a: "bb_ptr b = Some a" "bs_at s a = Some cs" "length cs = unat (bb_cap b)" "take ?l cs = map Some (take ?l (bb_data b))" by blast
  have "length xs \<le> SIZE_MAX" using fit n(3) by (intro BUF_LIMIT_SIZE_MAX) simp
  then have l': "unat (bb_len b + size_of xs) = ?l + length xs"
    using fit n by (subst unat_add_bound) (auto simp: unat_size_of SIZE_MAX_def BUF_LIMIT_def)
  define cs' where "cs' = take ?l cs @ map Some (xs @ junk) @ drop (?l + length (xs @ junk)) cs"
  have "take (?l + length xs) cs' = map Some (take (?l + length xs) (blit (bb_data b) ?l (xs @ junk)))"
    using a(3,4) n fit(1) by (simp add: cs'_def blit_def)
  moreover have "length cs' = unat (bb_cap b)" using a(3) fit(1) by (simp add: cs'_def)
  ultimately show ?thesis
    using a f fit(1) l' own_ptr [OF own a(1)] by (auto simp: c_write_def in_store_def cs'_def)
qed

lemma write_after_ensure:
  assumes st: "in_store s p m b" and inv: "bb_inv b" and own: "owns m (bb_blocks b) F"
    and e: "ensure_tail_cap m b need = (r1, m1, b1)" and fit: "length (xs @ junk) \<le> unat need" "xs @ junk \<noteq> []"
  shows "sim_buf F s
    (do { (r, p1, s1) \<leftarrow> p_ensure_tail_cap p need s;
          if r = RC_ERR then Some (RC_ERR, p1, s1)
          else do { s2 \<leftarrow> c_write (pb_data p1) (unat (pb_len p1)) (xs @ junk) s1;
                    Some (RC_OK, p1\<lparr>pb_len := pb_len p1 + size_of xs\<rparr>, s2) } })
    (case r1 of RC_ERR \<Rightarrow> (RC_ERR, m1, b1)
     | RC_OK \<Rightarrow> (RC_OK, m1, b1\<lparr>bb_data := blit (bb_data b1) (unat (bb_len b1)) (xs @ junk), bb_len := bb_len b1 + size_of xs\<rparr>))"
proof -
  note E = ensure_tail_cap_props [OF inv e]
  from ensure_tail_cap_sim [OF st inv own, of need] e obtain p1 s1 where
    p1: "p_ensure_tail_cap p need s = Some (r1, p1, s1)" "in_store s1 p1 m1 b1" "\<forall>a\<in>fr_live F. bs_at s1 a = bs_at s a"
    by (auto simp: sim_buf_def)
  show ?thesis
  proof (cases r1)
    case RC_ERR
    with p1 show ?thesis by (simp add: sim_buf_def)
  next
    case RC_OK
    have "unat (bb_len b1) + length (xs @ junk) \<le> unat (bb_cap b1)" using E(3) [OF RC_OK] fit(1) by simp
    from c_write_sim [OF p1(2) E(1) E(7) [OF own] this fit(2)] p1(1,3) RC_OK show ?thesis
      by (auto simp: sim_buf_def)
  qed
qed

lemma append_sim:
  assumes st: "in_store s p m b" and inv: "bb_inv b" and own: "owns m (bb_blocks b) F" and len: "length xs \<le> SIZE_MAX"
  shows "sim_buf F s (p_bytebuf_append p xs s) (bytebuf_append m b xs)"
proof (cases "xs = []")
  case True
  with st show ?thesis by (simp add: p_bytebuf_append_def bytebuf_append_def sim_buf_def)
next
  case False
  obtain r1 m1 b1 where e: "ensure_tail_cap m b (size_of xs) = (r1, m1, b1)" by (metis prod_cases3)
  have "length (xs @ []) \<le> unat (size_of xs)" "xs @ [] \<noteq> []" using len False by (simp_all add: unat_size_of)
  from write_after_ensure [OF st inv own e this, unfolded append_Nil2] False len e show ?thesis
    by (cases r1) (simp_all add: p_bytebuf_append_def bytebuf_append_def Let_def size_of_0_iff)
qed

lemma appendf_sim:
  assumes st: "in_store s p m b" and inv: "bb_inv b" and own: "owns m (bb_blocks b) F" and len: "length xs < SIZE_MAX"
  shows "sim_buf F s (p_bytebuf_appendf p xs s) (bytebuf_appendf m b xs)"
proof (cases "size_of xs < 128")
  case True
  with append_sim [OF st inv own, of xs] len show ?thesis by (simp add: p_bytebuf_appendf_def bytebuf_appendf_def Let_def)
next
  case False
  obtain r1 m1 b1 where e: "ensure_tail_cap m b (size_of xs + 1) = (r1, m1, b1)" by (metis prod_cases3)
  have "unat (size_of xs + 1) = length xs + 1"
    using len unat_size_of [of xs] by (subst unat_add_bound) auto
  then have "length (xs @ [0]) \<le> unat (size_of xs + 1)" "xs @ [0] \<noteq> []" by simp_all
  from write_after_ensure [OF st inv own e this] False e show ?thesis
    by (cases r1) (simp_all add: p_bytebuf_appendf_def bytebuf_appendf_def Let_def)
qed

section \<open>Reading, consuming and filling\<close>

lemma view_sim:
  assumes st: "in_store s p m b" and inv: "bb_inv b"
  shows "p_bytebuf_view p s = Some (bb_contents b)"
proof -
  note f = in_store_fields [OF st] and n = bb_inv_nat [OF inv]
  have l: "p_bytebuf_len p = bytebuf_len b" using f by (simp add: p_bytebuf_len_def bytebuf_len_def)
  show ?thesis
  proof (cases "bytebuf_len b = 0")
    case True
    with l show ?thesis by (simp add: p_bytebuf_view_def bb_contents_def)
  next
    case False
    then have "0 < unat (bytebuf_len b)" by (simp add: unat_gt_0)
    then have "0 < bb_len b" using n(5) by (simp add: word_less_nat_alt)
    with in_store_block [OF st inv] obtain a cs where
      a: "bb_ptr b = Some a" "bs_at s a = Some cs" "length cs = unat (bb_cap b)"
      "take (unat (bb_len b)) cs = map Some (take (unat (bb_len b)) (bb_data b))" by blast
    have "take (unat (bytebuf_len b)) (drop (unat (bb_off b)) cs) = drop (unat (bb_off b)) (take (unat (bb_len b)) cs)"
      using n by (simp add: drop_take)
    also have "\<dots> = map Some (bb_contents b)"
      unfolding a(4) using n by (simp add: bb_contents_def drop_take drop_map take_map)
    finally have "take (unat (bytebuf_len b)) (drop (unat (bb_off b)) cs) = map Some (bb_contents b)" .
    moreover have "unat (bb_off b) + unat (bytebuf_len b) \<le> length cs" using n a(3) by simp
    ultimately show ?thesis
      using False a(1,2) f l by (auto simp: p_bytebuf_view_def c_read_def comp_def)
  qed
qed

lemma consume_sim:
  assumes st: "in_store s p m b" and inv: "bb_inv b" and own: "owns m (bb_blocks b) F"
  shows "\<exists>p' s'. p_bytebuf_consume p k s = Some (p', s') \<and> in_store s' p' m (bytebuf_consume b k) \<and>
    (\<forall>a\<in>fr_live F. bs_at s' a = bs_at s a)"
proof -
  note f = in_store_fields [OF st] and n = bb_inv_nat [OF inv]
  let ?live = "bb_len b - bb_off b"
  define k' where "k' = (if k > ?live then ?live else k)"
  define b1 where "b1 = b\<lparr>bb_off := bb_off b + k'\<rparr>"
  define p1 where "p1 = p\<lparr>pb_off := pb_off p + k'\<rparr>"
  have "unat k' \<le> unat (bb_len b) - unat (bb_off b)"
    using n(5) by (auto simp: k'_def bytebuf_len_def word_le_nat_alt not_less)
  then have "unat (bb_off b + k') \<le> unat (bb_len b)" using n by (subst unat_add_bound) (auto simp: SIZE_MAX_def BUF_LIMIT_def)
  then have inv1: "bb_inv b1" using inv by (simp add: bb_inv_def b1_def word_le_nat_alt)
  have own1: "owns m (bb_blocks b1) F" using own by (simp add: b1_def bb_blocks_def)
  have st1: "in_store s p1 m b1" using st f by (auto simp: in_store_def b1_def p1_def)
  have st0: "in_store s (p1\<lparr>pb_off := 0, pb_len := 0\<rparr>) m (b1\<lparr>bb_off := 0, bb_len := 0\<rparr>)"
    using st1 by (auto simp: in_store_def)
  note f1 = in_store_fields [OF st1]
  have "bytebuf_consume b k = (if bb_off b1 = bb_len b1 then b1\<lparr>bb_off := 0, bb_len := 0\<rparr>
      else if bb_off b1 > BYTEBUF_COMPACT_MIN \<and> bb_off b1 > bb_cap b1 div 2 then compact_in_place b1 else b1)"
    by (simp add: bytebuf_consume_def b1_def k'_def Let_def)
  moreover have "p_bytebuf_consume p k s = (if bb_off b1 = bb_len b1 then Some (p1\<lparr>pb_off := 0, pb_len := 0\<rparr>, s)
      else if bb_off b1 > BYTEBUF_COMPACT_MIN \<and> bb_off b1 > bb_cap b1 div 2 then p_compact_in_place p1 s else Some (p1, s))"
    using f by (simp add: p_bytebuf_consume_def p1_def b1_def k'_def Let_def)
  ultimately show ?thesis using st0 st1 compact_sim [OF st1 inv1 own1] by auto
qed

text \<open>
  The calls of \<open>Buffer_Laws\<close>, the fill of the event loop (\<open>bytebuf_reserve\<close>, the bytes the kernel writes
  at the pointer, \<open>bytebuf_advance\<close>), and \<open>bytebuf_free\<close>.
\<close>

datatype io_op = Io_Call buf_op | Io_Fill size_t bytes | Io_Free

fun io_ok :: "io_op \<Rightarrow> bool" where
  "io_ok (Io_Call c) = call_ok c"
| "io_ok (Io_Fill n xs) = (length xs \<le> unat n)"
| "io_ok Io_Free = True"

fun io_call :: "mem \<Rightarrow> bytebuf \<Rightarrow> io_op \<Rightarrow> rc \<times> mem \<times> bytebuf" where
  "io_call m b (Io_Call c) = buf_call m b c"
| "io_call m b (Io_Fill n xs) =
     (case bytebuf_reserve m b n of
        (None, m', b') \<Rightarrow> (RC_ERR, m', b')
      | (Some tail, m', b') \<Rightarrow>
          (RC_OK, m', bytebuf_advance (b'\<lparr>bb_data := blit (bb_data b') (unat tail) xs\<rparr>) (size_of xs)))"
| "io_call m b Io_Free = (case bytebuf_free m b of (m', b') \<Rightarrow> (RC_OK, m', b'))"

fun p_io_call :: "pbuf \<Rightarrow> io_op \<Rightarrow> bstore \<Rightarrow> (rc \<times> pbuf \<times> bstore) option" where
  "p_io_call b (Io_Call (Bc_Append xs)) s = p_bytebuf_append b xs s"
| "p_io_call b (Io_Call (Bc_Appendf xs)) s = p_bytebuf_appendf b xs s"
| "p_io_call b (Io_Call (Bc_Consume n)) s = do { (b', s') \<leftarrow> p_bytebuf_consume b n s; Some (RC_OK, b', s') }"
| "p_io_call b (Io_Call Bc_Reset) s = Some (RC_OK, p_bytebuf_reset b, s)"
| "p_io_call b (Io_Fill n xs) s = do {
     (tail, b', s') \<leftarrow> p_bytebuf_reserve b n s;
     (case tail of
        None \<Rightarrow> Some (RC_ERR, b', s')
      | Some off \<Rightarrow> do {
          s'' \<leftarrow> (if xs = [] then Some s' else c_write (pb_data b') (unat off) xs s');
          Some (RC_OK, p_bytebuf_advance b' (size_of xs), s'') }) }"
| "p_io_call b Io_Free s = (case p_bytebuf_free b s of (b', s') \<Rightarrow> Some (RC_OK, b', s'))"

fun io_run :: "mem \<Rightarrow> bytebuf \<Rightarrow> io_op list \<Rightarrow> rc list \<times> mem \<times> bytebuf" where
  "io_run m b [] = ([], m, b)"
| "io_run m b (c # cs) =
     (case io_call m b c of (r, m1, b1) \<Rightarrow>
        (case io_run m1 b1 cs of (rs, m2, b2) \<Rightarrow> (r # rs, m2, b2)))"

fun p_io_run :: "pbuf \<Rightarrow> io_op list \<Rightarrow> bstore \<Rightarrow> (rc list \<times> pbuf \<times> bstore) option" where
  "p_io_run b [] s = Some ([], b, s)"
| "p_io_run b (c # cs) s = do {
     (r, b1, s1) \<leftarrow> p_io_call b c s;
     (rs, b2, s2) \<leftarrow> p_io_run b1 cs s1;
     Some (r # rs, b2, s2) }"

text \<open>What the kernel writes is what the buffer gets.\<close>

lemma fill_eq:
  assumes "bb_inv b" "unat (bb_len b) + length xs \<le> unat (bb_cap b)"
  shows "bytebuf_advance (b\<lparr>bb_data := blit (bb_data b) (unat (bb_len b)) xs\<rparr>) (size_of xs) =
      b\<lparr>bb_data := blit (bb_data b) (unat (bb_len b)) (xs @ []), bb_len := bb_len b + size_of xs\<rparr>"
    "pb_cap p = bb_cap b \<Longrightarrow> pb_len p = bb_len b \<Longrightarrow> p_bytebuf_advance p (size_of xs) = p\<lparr>pb_len := pb_len p + size_of xs\<rparr>"
proof -
  note n = bb_inv_nat [OF assms(1)]
  have "length xs \<le> SIZE_MAX" using assms(2) n(3) by (intro BUF_LIMIT_SIZE_MAX) simp
  then have "\<not> size_of xs > bb_cap b - bb_len b"
    using assms(2) n by (simp add: word_less_nat_alt unat_size_of)
  then show "bytebuf_advance (b\<lparr>bb_data := blit (bb_data b) (unat (bb_len b)) xs\<rparr>) (size_of xs) =
      b\<lparr>bb_data := blit (bb_data b) (unat (bb_len b)) (xs @ []), bb_len := bb_len b + size_of xs\<rparr>"
    "pb_cap p = bb_cap b \<Longrightarrow> pb_len p = bb_len b \<Longrightarrow> p_bytebuf_advance p (size_of xs) = p\<lparr>pb_len := pb_len p + size_of xs\<rparr>"
    by (simp_all add: bytebuf_advance_def p_bytebuf_advance_def Let_def)
qed

lemma blit_nothing: "blit ys i [] = ys"
  by (simp add: blit_def)

lemma fill_sim:
  assumes st: "in_store s p m b" and inv: "bb_inv b" and own: "owns m (bb_blocks b) F" and len: "length xs \<le> unat k"
  shows "sim_buf F s (p_io_call p (Io_Fill k xs) s) (io_call m b (Io_Fill k xs))"
proof -
  obtain r1 m1 b1 where e: "ensure_tail_cap m b k = (r1, m1, b1)" by (metis prod_cases3)
  note E = ensure_tail_cap_props [OF inv e]
  from ensure_tail_cap_sim [OF st inv own, of k] e obtain p1 s1 where
    p1: "p_ensure_tail_cap p k s = Some (r1, p1, s1)" "in_store s1 p1 m1 b1" "\<forall>a\<in>fr_live F. bs_at s1 a = bs_at s a"
    by (auto simp: sim_buf_def)
  note f1 = in_store_fields [OF p1(2)]
  show ?thesis
  proof (cases r1)
    case RC_ERR
    with p1 e show ?thesis by (simp add: sim_buf_def bytebuf_reserve_def p_bytebuf_reserve_def)
  next
    case RC_OK
    have fit: "unat (bb_len b1) + length xs \<le> unat (bb_cap b1)" using E(3) [OF RC_OK] len by simp
    note A = fill_eq [OF E(1) fit]
    show ?thesis
    proof (cases "xs = []")
      case True
      have "in_store s1 (p1\<lparr>pb_len := bb_len b1\<rparr>) m1 b1" using p1(2) f1 by (simp add: in_store_def)
      with True p1 e RC_OK A f1 show ?thesis
        by (simp add: sim_buf_def bytebuf_reserve_def p_bytebuf_reserve_def blit_nothing size_of_def)
    next
      case False
      have "unat (bb_len b1) + length (xs @ []) \<le> unat (bb_cap b1)" "xs @ [] \<noteq> []" using fit False by simp_all
      from c_write_sim [OF p1(2) E(1) E(7) [OF own] this] obtain s2 where
        "c_write (pb_data p1) (unat (bb_len b1)) xs s1 = Some s2"
        "in_store s2 (p1\<lparr>pb_len := pb_len p1 + size_of xs\<rparr>) m1
          (b1\<lparr>bb_data := blit (bb_data b1) (unat (bb_len b1)) (xs @ []), bb_len := bb_len b1 + size_of xs\<rparr>)"
        "\<forall>a\<in>fr_live F. bs_at s2 a = bs_at s1 a" using f1 by auto
      with p1(1,3) e RC_OK A f1 False show ?thesis
        by (simp add: sim_buf_def bytebuf_reserve_def p_bytebuf_reserve_def)
    qed
  qed
qed

lemma io_call_sim:
  assumes st: "in_store s p m b" and inv: "bb_inv b" and own: "owns m (bb_blocks b) F" and ok: "io_ok c"
  shows "sim_buf F s (p_io_call p c s) (io_call m b c)"
proof (cases c)
  case (Io_Call d)
  show ?thesis
  proof (cases d)
    case (Bc_Consume n)
    with Io_Call consume_sim [OF st inv own, of n] show ?thesis by (auto simp: sim_buf_def)
  next
    case Bc_Reset
    with Io_Call st show ?thesis
      by (auto simp: sim_buf_def in_store_def p_bytebuf_reset_def bytebuf_reset_def)
  qed (use Io_Call ok append_sim [OF st inv own] appendf_sim [OF st inv own] in auto)
next
  case (Io_Fill n xs)
  with fill_sim [OF st inv own, of xs n] ok show ?thesis by simp
next
  case Io_Free
  then show ?thesis
    using in_store_fields [OF st] own_ptr [OF own]
    by (auto simp: sim_buf_def in_store_def p_bytebuf_free_def p_bytebuf_init_def bytebuf_free_def bytebuf_init_def
        split: option.split)
qed

lemma io_call_inv:
  assumes inv: "bb_inv b" and own: "owns m (bb_blocks b) F" and ok: "io_ok c" and c: "io_call m b c = (r, m', b')"
  shows "bb_inv b' \<and> owns m' (bb_blocks b') F"
proof (cases c)
  case (Io_Call d)
  with buf_call_queue [OF inv, of d m r m' b' F] ok own c show ?thesis by simp
next
  case (Io_Fill n xs)
  obtain r1 m1 b1 where e: "ensure_tail_cap m b n = (r1, m1, b1)" by (metis prod_cases3)
  note E = ensure_tail_cap_props [OF inv e]
  show ?thesis
  proof (cases r1)
    case RC_ERR
    with c Io_Fill e E own show ?thesis by (auto simp: bytebuf_reserve_def)
  next
    case RC_OK
    have fit: "unat (bb_len b1) + length xs \<le> unat (bb_cap b1)" using E(3) [OF RC_OK] ok Io_Fill by simp
    then have "bb_inv (b1\<lparr>bb_data := blit (bb_data b1) (unat (bb_len b1)) (xs @ []), bb_len := bb_len b1 + size_of xs\<rparr>)"
      by (intro write_tail_props(1) [OF E(1)]) simp
    moreover have "b' = b1\<lparr>bb_data := blit (bb_data b1) (unat (bb_len b1)) (xs @ []), bb_len := bb_len b1 + size_of xs\<rparr>" "m' = m1"
      using c Io_Fill e RC_OK fill_eq(1) [OF E(1) fit] by (auto simp: bytebuf_reserve_def)
    ultimately show ?thesis using E(7) [OF own] by (simp add: bb_blocks_def)
  qed
next
  case Io_Free
  have "owns m (bb_blocks b @ []) F" using own by simp
  with bytebuf_free_owns [of m b m' b' "[]" F] c Io_Free show ?thesis by (auto simp: bytebuf_free_def)
qed

section \<open>Memory safety of the buffer\<close>

text \<open>
  C11. The pointer code of \<open>bytebuf.c\<close> is memory safe and refines the buffer of values. From a sound buffer, beside
  blocks \<open>F\<close> of the rest of the program, every sequence of appends, formatted appends, consumes, resets,
  fills of a reserved tail and frees has a result, whatever allocations fail: nothing is written or moved outside
  the array, no released array is touched, no indeterminate byte of a grown array is read, and the blocks \<open>F\<close>
  stay as they are. The statuses are those of \<open>Bytebuf\<close>, and a reader at \<open>bytebuf_data\<close> finds the contents there.
\<close>

theorem buffer_memory_safe:
  assumes "in_store s p m b" "bb_inv b" "owns m (bb_blocks b) F" "list_all io_ok cs"
  shows "case io_run m b cs of (rs, m', b') \<Rightarrow> \<exists>p' s'.
    p_io_run p cs s = Some (rs, p', s') \<and> in_store s' p' m' b' \<and> p_bytebuf_view p' s' = Some (bb_contents b') \<and>
    (\<forall>a\<in>fr_live F. bs_at s' a = bs_at s a) \<and> bb_inv b' \<and> owns m' (bb_blocks b') F"
  using assms
proof (induction cs arbitrary: s p m b)
  case Nil
  with view_sim [OF Nil(1,2)] show ?case by simp
next
  case (Cons c cs)
  have ok: "io_ok c" "list_all io_ok cs" using Cons.prems(4) by simp_all
  obtain r m1 b1 where c: "io_call m b c = (r, m1, b1)" by (metis prod_cases3)
  obtain rs m2 b2 where r: "io_run m1 b1 cs = (rs, m2, b2)" by (metis prod_cases3)
  from io_call_sim [OF Cons.prems(1-3) ok(1)] c obtain p1 s1 where
    p1: "p_io_call p c s = Some (r, p1, s1)" "in_store s1 p1 m1 b1" "\<forall>a\<in>fr_live F. bs_at s1 a = bs_at s a"
    by (auto simp: sim_buf_def)
  from io_call_inv [OF Cons.prems(2,3) ok(1) c] have "bb_inv b1" "owns m1 (bb_blocks b1) F" by auto
  from Cons.IH [OF p1(2) this ok(2)] p1(1,3) c r show ?case by auto
qed

definition bstore_init :: "bool list \<Rightarrow> bstore" where
  "bstore_init os = \<lparr>bs_mem = mem_init os, bs_at = Map.empty\<rparr>"

lemma in_store_init: "in_store (bstore_init os) p_bytebuf_init (mem_init os) bytebuf_init"
  by (simp add: in_store_def bstore_init_def p_bytebuf_init_def bytebuf_init_def)

theorem buffer_memory_safe_witness:
  "\<exists>rs p s. p_io_run p_bytebuf_init [Io_Call (Bc_Append (cstr ''abc'')), Io_Call (Bc_Consume 1), Io_Fill 4096 (cstr ''de''),
      Io_Free] (bstore_init [True, False]) = Some (rs, p, s) \<and> p_bytebuf_view p s = Some [] \<and> m_live (bs_mem s) = {}"
proof -
  let ?cs = "[Io_Call (Bc_Append (cstr ''abc'')), Io_Call (Bc_Consume 1), Io_Fill 4096 (cstr ''de''), Io_Free]"
  obtain rs m' b' where r: "io_run (mem_init [True, False]) bytebuf_init ?cs = (rs, m', b')" by (metis prod_cases3)
  have "list_all io_ok ?cs" by (simp add: cstr_def SIZE_MAX_def)
  moreover have "owns (mem_init [True, False]) (bb_blocks bytebuf_init) alone" by simp
  ultimately obtain p' s' where p': "p_io_run p_bytebuf_init ?cs (bstore_init [True, False]) = Some (rs, p', s')"
    "in_store s' p' m' b'" "p_bytebuf_view p' s' = Some (bb_contents b')" "owns m' (bb_blocks b') alone"
    using buffer_memory_safe [OF in_store_init bytebuf_init_props(1), of "[True, False]" alone ?cs] r by auto
  have "b' = bytebuf_init" using r by (auto simp: bytebuf_free_def split: prod.splits)
  with p' in_store_fields(1) [OF p'(2)] show ?thesis by (auto simp: owns_def bb_contents_def bytebuf_init_def bb_blocks_def alone_def)
qed

end
