(* ===== verification/Resp_Ref.thy ===== *)
theory Resp_Ref
  imports Resp_Parse
begin

text \<open>
  A reference parser on lists of bytes, and the proof that the parser of \<open>Resp_Parse\<close> computes
  it on the window of the input it is given. An outcome of the reference parser carries the
  bytes of the arguments instead of slices.
\<close>

section \<open>The reference parser\<close>

fun map_status :: "('a \<Rightarrow> 'b) \<Rightarrow> 'a resp_status \<Rightarrow> 'b resp_status" where
  "map_status f (RESP_OK x) = RESP_OK (f x)"
| "map_status f RESP_NEED_MORE = RESP_NEED_MORE"
| "map_status f RESP_PROTOCOL_ERR = RESP_PROTOCOL_ERR"

fun bind_status :: "'a resp_status \<Rightarrow> ('a \<Rightarrow> 'b resp_status) \<Rightarrow> 'b resp_status" where
  "bind_status (RESP_OK x) f = f x"
| "bind_status RESP_NEED_MORE f = RESP_NEED_MORE"
| "bind_status RESP_PROTOCOL_ERR f = RESP_PROTOCOL_ERR"

definition bump :: "nat \<Rightarrow> ('a \<times> nat) resp_status \<Rightarrow> ('a \<times> nat) resp_status" where
  "bump k = map_status (\<lambda>(v, n). (v, k + n))"

fun int_scan :: "bool \<Rightarrow> bool \<Rightarrow> int \<Rightarrow> bytes \<Rightarrow> (int \<times> nat) resp_status" where
  "int_scan negative seen v [] = RESP_NEED_MORE"
| "int_scan negative seen v (c # cs) =
     (if c = CR then
        (case cs of [] \<Rightarrow> RESP_NEED_MORE
         | d # _ \<Rightarrow> (if d \<noteq> LF then RESP_PROTOCOL_ERR
                     else if \<not> seen then RESP_PROTOCOL_ERR
                     else RESP_OK (if negative then - v else v, 2)))
      else if \<not> is_digit c then RESP_PROTOCOL_ERR
      else if v > DIGIT_GUARD then RESP_PROTOCOL_ERR
      else bump 1 (int_scan negative True (v * 10 + int (unat (c - 48))) cs))"

definition ref_int :: "bytes \<Rightarrow> (int \<times> nat) resp_status" where
  "ref_int w = (if w \<noteq> [] \<and> hd w = 45 then bump 1 (int_scan True False 0 (tl w))
     else int_scan False False 0 w)"

definition ref_bulk :: "bytes \<Rightarrow> (bytes \<times> nat) resp_status" where
  "ref_bulk w =
     (if w = [] then RESP_NEED_MORE
      else if hd w \<noteq> 36 then RESP_PROTOCOL_ERR
      else bind_status (ref_int (tl w)) (\<lambda>(len, h).
        if len < 0 \<or> len > RESP_MAX_BULK_LEN then RESP_PROTOCOL_ERR
        else let hs = 1 + h; bs = nat len
             in if length w < hs + bs + 2 then RESP_NEED_MORE
                else if w ! (hs + bs) \<noteq> CR \<or> w ! (hs + bs + 1) \<noteq> LF then RESP_PROTOCOL_ERR
                else RESP_OK (take bs (drop hs w), hs + bs + 2)))"

fun ref_bulks :: "nat \<Rightarrow> bytes \<Rightarrow> (bytes list \<times> nat) resp_status" where
  "ref_bulks 0 w = RESP_OK ([], 0)"
| "ref_bulks (Suc n) w = bind_status (ref_bulk w) (\<lambda>(a, u).
     map_status (\<lambda>(as, k). (a # as, u + k)) (ref_bulks n (drop u w)))"

definition ref_multi_bulk :: "bytes \<Rightarrow> (bytes list \<times> nat) resp_status" where
  "ref_multi_bulk w = bind_status (ref_int (tl w)) (\<lambda>(argc, h).
     if argc < 1 \<or> argc > int RESP_MAX_ARGC then RESP_PROTOCOL_ERR
     else bump (1 + h) (ref_bulks (nat argc) (drop (1 + h) w)))"

text \<open>The maximal runs of bytes that are neither space nor tab.\<close>

function tokens :: "bytes \<Rightarrow> bytes list" where
  "tokens [] = []"
| "tokens (c # cs) =
     (if is_blank c then tokens cs
      else (c # takeWhile (\<lambda>x. \<not> is_blank x) cs) # tokens (dropWhile (\<lambda>x. \<not> is_blank x) cs))"
  by pat_completeness auto
termination by (relation "measure length") (auto simp: le_imp_less_Suc length_dropWhile_le)

definition strip_cr :: "bytes \<Rightarrow> bytes" where
  "strip_cr l = (if l \<noteq> [] \<and> last l = CR then butlast l else l)"

definition ref_inline :: "bytes \<Rightarrow> (bytes list \<times> nat) resp_status" where
  "ref_inline w =
     (if LF \<notin> set (take RESP_MAX_INLINE_LEN w)
      then (if length w \<ge> RESP_MAX_INLINE_LEN then RESP_PROTOCOL_ERR else RESP_NEED_MORE)
      else let line = takeWhile (\<lambda>x. x \<noteq> LF) w; ts = tokens (strip_cr line)
           in if length ts > RESP_MAX_ARGC \<or> ts = [] then RESP_PROTOCOL_ERR
              else RESP_OK (ts, length line + 1))"

definition ref_request :: "bytes \<Rightarrow> (bytes list \<times> nat) resp_status" where
  "ref_request w =
     (if w = [] then RESP_NEED_MORE
      else if hd w = 42 then ref_multi_bulk w
      else ref_inline w)"

section \<open>The parser on a window\<close>

definition window :: "bytes \<Rightarrow> nat \<Rightarrow> nat \<Rightarrow> bytes" where
  "window input at avail = take avail (drop at input)"

lemma window_length: "at + avail \<le> length input \<Longrightarrow> length (window input at avail) = avail"
  by (simp add: window_def)

lemma window_Cons:
  "0 < avail \<Longrightarrow> at + avail \<le> length input \<Longrightarrow>
   window input at avail = input ! at # window input (at + 1) (avail - 1)"
  by (cases avail) (auto simp: window_def take_Suc hd_drop_conv_nth drop_Suc [symmetric] tl_drop drop_tl)

lemma window_0 [simp]: "window input at 0 = []"
  by (simp add: window_def)

lemma window_nth: "i < avail \<Longrightarrow> at + avail \<le> length input \<Longrightarrow> window input at avail ! i = input ! (at + i)"
  by (simp add: window_def)

lemma window_drop: "drop k (window input at avail) = window input (at + k) (avail - k)"
  by (simp add: window_def drop_take add.commute)

lemma window_take: "k \<le> avail \<Longrightarrow> take k (window input at avail) = window input at k"
  by (simp add: window_def min_def)

lemma is_digit_iff: "\<not> (c < 48 \<or> c > 57) \<longleftrightarrow> is_digit c"
  by (auto simp: is_digit_def)

lemma bump_bump: "bump a (bump b s) = bump (a + b) s"
  by (cases s) (auto simp: bump_def)

lemma bump_simps [simp]:
  "bump k (RESP_OK (v, n)) = RESP_OK (v, k + n)" "bump k RESP_NEED_MORE = RESP_NEED_MORE"
  "bump k RESP_PROTOCOL_ERR = RESP_PROTOCOL_ERR" "bump 0 s = s"
  by (simp_all add: bump_def) (cases s; auto)

lemma bump_eq [simp]:
  "bump k s = RESP_NEED_MORE \<longleftrightarrow> s = RESP_NEED_MORE"
  "bump k s = RESP_PROTOCOL_ERR \<longleftrightarrow> s = RESP_PROTOCOL_ERR"
  "bump k s = RESP_OK (v, m) \<longleftrightarrow> (\<exists>n. s = RESP_OK (v, n) \<and> m = k + n)"
  by (cases s; auto simp: bump_def)+

lemma int_loop_scan:
  "at + avail \<le> length p \<Longrightarrow> da \<le> i \<Longrightarrow>
   int_loop p at avail neg da v i = bump i (int_scan neg (da < i) v (window p (at + i) (avail - i)))"
proof (induction p at avail neg da v i rule: int_loop.induct)
  case (1 p at avail neg da v i)
  show ?case
  proof (cases "i < avail")
    case False
    then show ?thesis by (subst int_loop.simps) simp
  next
    case True
    have w: "window p (at + i) (avail - i) = p ! (at + i) # window p (at + i + 1) (avail - i - 1)"
      using True "1.prems" by (intro window_Cons) auto
    have w2: "window p (Suc (at + i)) (avail - Suc i) =
       (if Suc i < avail then p ! Suc (at + i) # window p (Suc (Suc (at + i))) (avail - Suc (Suc i)) else [])"
      using "1.prems" window_Cons [of "avail - Suc i" "Suc (at + i)" p] by auto
    show ?thesis
    proof (cases "p ! (at + i) = CR")
      case c: True
      have "i = da \<longleftrightarrow> \<not> da < i" using "1.prems" by auto
      with True c show ?thesis
        unfolding w by (subst int_loop.simps) (simp add: w2 Let_def)
    next
      case c: False
      show ?thesis
      proof (cases "is_digit (p ! (at + i)) \<and> v \<le> DIGIT_GUARD")
        case False
        with True c show ?thesis
          unfolding w by (subst int_loop.simps) (auto simp: Let_def is_digit_iff [symmetric])
      next
        case d: True
        then have "\<not> (p ! (at + i) < 48 \<or> p ! (at + i) > 57)" "\<not> v > DIGIT_GUARD"
          by (auto simp: is_digit_def not_less)
        from "1.IH" [OF True refl c this "1.prems"(1)] "1.prems"(2) d True c show ?thesis
          unfolding w by (subst int_loop.simps) (auto simp: Let_def bump_bump is_digit_def)
      qed
    qed
  qed
qed

lemma parse_int_ref:
  assumes "at + avail \<le> length p"
  shows "parse_int_until_crlf p at avail = ref_int (window p at avail)"
proof (cases "0 < avail")
  case True
  then show ?thesis
    using assms window_Cons [OF True assms] int_loop_scan [OF assms, of 1 1] int_loop_scan [OF assms, of 0 0]
    by (simp add: parse_int_until_crlf_def ref_int_def)
next
  case False
  then show ?thesis
    using int_loop_scan [OF assms, of 0 0] by (simp add: parse_int_until_crlf_def ref_int_def)
qed

lemma int_scan_bounds: "int_scan neg seen v w = RESP_OK (r, n) \<Longrightarrow> 2 \<le> n \<and> n \<le> length w"
  by (induction neg seen v w arbitrary: n rule: int_scan.induct) (auto split: if_splits list.splits)

lemma ref_int_bounds: "ref_int w = RESP_OK (v, n) \<Longrightarrow> 2 \<le> n \<and> n \<le> length w"
  by (cases w) (auto simp: ref_int_def simp del: int_scan.simps split: if_splits dest!: int_scan_bounds)

text \<open>No C object is larger than \<open>PTRDIFF_MAX\<close>, so the size computations do not wrap.\<close>

definition OBJ_MAX :: nat where
  "OBJ_MAX = 9223372036854775807"

lemma bulk_total_no_wrap:
  "h \<le> avail \<Longrightarrow> avail \<le> OBJ_MAX \<Longrightarrow> l \<le> RESP_MAX_BULK_LEN \<Longrightarrow>
   (1 + h + nat l + 2) mod 2 ^ 64 = 1 + h + nat l + 2"
  by (intro mod_less) (auto simp: OBJ_MAX_def RESP_MAX_BULK_LEN_def)

lemma parse_bulk_ref:
  assumes bnd: "at + avail \<le> length p" "avail \<le> OBJ_MAX"
  shows "map_status (\<lambda>(s, n). (slice_bytes p s, n)) (parse_bulk p at avail) = ref_bulk (window p at avail)"
    (is "map_status ?f _ = _")
proof (cases "avail = 0")
  case True
  then show ?thesis by (simp add: parse_bulk_def ref_bulk_def)
next
  case False
  then have w: "window p at avail = p ! at # window p (at + 1) (avail - 1)"
    using bnd by (intro window_Cons) auto
  have ri: "parse_int_until_crlf p (at + 1) (avail - 1) = ref_int (window p (at + 1) (avail - 1))"
    using False bnd by (intro parse_int_ref) auto
  show ?thesis
  proof (cases "\<exists>l h. ref_int (window p (at + 1) (avail - 1)) = RESP_OK (l, h)")
    case no: False
    then show ?thesis
      using False w ri by (cases "ref_int (window p (at + 1) (avail - 1))")
        (auto simp: parse_bulk_def ref_bulk_def)
  next
    case True
    then obtain l h where lh: "ref_int (window p (at + 1) (avail - 1)) = RESP_OK (l, h)" by blast
    have h: "h \<le> avail - 1"
      using ref_int_bounds [OF lh] bnd False by (simp add: window_length)
    have tot: "(1 + h + nat l + 2) mod 2 ^ 64 = 1 + h + nat l + 2" if "l \<le> RESP_MAX_BULK_LEN"
      using that h bnd by (intro bulk_total_no_wrap) auto
    have wl: "length (window p at avail) = avail" using bnd(1) by (rule window_length)
    have nth: "window p at avail ! (1 + h + nat l) = p ! (at + (1 + h) + nat l)"
        "window p at avail ! (1 + h + nat l + 1) = p ! (at + (1 + h) + nat l + 1)"
        "take (nat l) (drop (1 + h) (window p at avail)) = slice_bytes p \<lparr>sl_at = at + (1 + h), sl_len = nat l\<rparr>"
      if "1 + h + nat l + 2 \<le> avail"
      using that bnd(1) window_nth [of "1 + h + nat l" avail at p] window_nth [of "1 + h + nat l + 1" avail at p]
      by (auto simp: ac_simps slice_bytes_def window_drop window_take) (simp add: window_def)
    have ref: "ref_bulk (window p at avail) =
      (if p ! at \<noteq> 36 then RESP_PROTOCOL_ERR
       else if l < 0 \<or> l > RESP_MAX_BULK_LEN then RESP_PROTOCOL_ERR
       else if avail < 1 + h + nat l + 2 then RESP_NEED_MORE
       else if window p at avail ! (1 + h + nat l) \<noteq> CR \<or> window p at avail ! (1 + h + nat l + 1) \<noteq> LF
            then RESP_PROTOCOL_ERR
            else RESP_OK (take (nat l) (drop (1 + h) (window p at avail)), 1 + h + nat l + 2))"
      using wl lh unfolding w by (simp add: ref_bulk_def Let_def)
    have code: "parse_bulk p at avail =
      (if p ! at \<noteq> 36 then RESP_PROTOCOL_ERR
       else if l < 0 \<or> l > RESP_MAX_BULK_LEN then RESP_PROTOCOL_ERR
       else if avail < 1 + h + nat l + 2 then RESP_NEED_MORE
       else if p ! (at + (1 + h) + nat l) \<noteq> CR \<or> p ! (at + (1 + h) + nat l + 1) \<noteq> LF
            then RESP_PROTOCOL_ERR
            else RESP_OK (\<lparr>sl_at = at + (1 + h), sl_len = nat l\<rparr>, 1 + h + nat l + 2))"
      using False ri lh tot by (simp add: parse_bulk_def Let_def)
    show ?thesis unfolding ref code using nth by simp
  qed
qed

lemma parse_bulk_slice:
  assumes "parse_bulk p at avail = RESP_OK (s, n)" "at + avail \<le> length p" "avail \<le> OBJ_MAX"
  shows "at < sl_at s \<and> sl_at s + sl_len s + 2 = at + n \<and> n \<le> avail"
proof -
  from assms(1) have a0: "avail \<noteq> 0" by (cases "avail = 0") (simp_all add: parse_bulk_def)
  then have ri: "parse_int_until_crlf p (at + 1) (avail - 1) = ref_int (window p (at + 1) (avail - 1))"
    using assms(2) by (intro parse_int_ref) auto
  from assms(1) obtain l h where lh: "ref_int (window p (at + 1) (avail - 1)) = RESP_OK (l, h)"
    by (cases "ref_int (window p (at + 1) (avail - 1))") (auto simp: parse_bulk_def ri [simplified] a0 split: if_splits)
  have "h \<le> avail - 1" using ref_int_bounds [OF lh] assms(2) a0 by (simp add: window_length)
  with assms(1,3) lh a0 bulk_total_no_wrap [of h avail l] show ?thesis
    by (auto simp: parse_bulk_def ri [simplified] Let_def not_less split: if_splits)
qed

section \<open>Multi-bulk requests\<close>

text \<open>A request with its slices resolved, the form in which the outcomes are compared.\<close>

definition request_view :: "bytes \<Rightarrow> resp_request \<Rightarrow> bytes list \<times> nat" where
  "request_view input r = (map (slice_bytes input) (rq_args r), rq_consumed r)"

definition slice_within :: "nat \<Rightarrow> resp_slice \<Rightarrow> bool" where
  "slice_within n s \<longleftrightarrow> sl_at s + sl_len s < n"

lemma multi_bulk_loop_ref:
  "pos \<le> len \<Longrightarrow> len \<le> length input \<Longrightarrow> len \<le> OBJ_MAX \<Longrightarrow>
   map_status (request_view input) (multi_bulk_loop input len n pos tmp) =
   map_status (\<lambda>(as, k). (map (slice_bytes input) tmp @ as, pos + k))
     (ref_bulks n (window input pos (len - pos)))"
proof (induction n arbitrary: pos tmp)
  case 0
  then show ?case by (simp add: request_view_def)
next
  case (Suc n)
  have b: "pos + (len - pos) \<le> length input" "len - pos \<le> OBJ_MAX" using Suc.prems by auto
  note ref = parse_bulk_ref [OF b]
  show ?case
  proof (cases "parse_bulk input pos (len - pos)")
    case (RESP_OK x)
    obtain s u where x: "x = (s, u)" by fastforce
    with RESP_OK have ok: "parse_bulk input pos (len - pos) = RESP_OK (s, u)" by simp
    have u: "u \<le> len - pos" using parse_bulk_slice [OF ok b] by blast
    have rb: "ref_bulk (window input pos (len - pos)) = RESP_OK (slice_bytes input s, u)"
      using ref ok by simp
    have "len - pos - u = len - (pos + u)" by simp
    then have "map_status (request_view input) (multi_bulk_loop input len n (pos + u) (tmp @ [s])) =
       map_status (\<lambda>(as, k). (map (slice_bytes input) (tmp @ [s]) @ as, pos + u + k))
         (ref_bulks n (window input (pos + u) (len - pos - u)))"
      using Suc.IH [of "pos + u" "tmp @ [s]"] u Suc.prems by simp
    with ok rb show ?thesis
      by (cases "ref_bulks n (window input (pos + u) (len - pos - u))") (auto simp: window_drop)
  qed (use ref in \<open>auto dest: sym\<close>)
qed

lemma multi_bulk_loop_slices:
  "pos \<le> len \<Longrightarrow> len \<le> length input \<Longrightarrow> len \<le> OBJ_MAX \<Longrightarrow>
   multi_bulk_loop input len n pos tmp = RESP_OK r \<Longrightarrow> \<forall>s\<in>set tmp. slice_within pos s \<Longrightarrow>
   length (rq_args r) = length tmp + n \<and> pos \<le> rq_consumed r \<and> rq_consumed r \<le> len \<and>
   (\<forall>s\<in>set (rq_args r). slice_within (rq_consumed r) s)"
proof (induction n arbitrary: pos tmp)
  case (Suc n)
  have b: "pos + (len - pos) \<le> length input" "len - pos \<le> OBJ_MAX" using Suc.prems by auto
  from Suc.prems(4) obtain s u where ok: "parse_bulk input pos (len - pos) = RESP_OK (s, u)"
    "multi_bulk_loop input len n (pos + u) (tmp @ [s]) = RESP_OK r"
    by (auto split: resp_status.splits)
  have s: "pos < sl_at s \<and> sl_at s + sl_len s + 2 = pos + u \<and> u \<le> len - pos"
    using parse_bulk_slice [OF ok(1) b] .
  then have "\<forall>t\<in>set (tmp @ [s]). slice_within (pos + u) t"
    using Suc.prems(5) by (fastforce simp: slice_within_def)
  moreover have "pos + u \<le> len" using s Suc.prems(1) by arith
  ultimately show ?case using Suc.IH [of "pos + u" "tmp @ [s]"] Suc.prems(2,3) ok(2) by simp
qed auto

lemma parse_multi_bulk_ref:
  assumes "0 < len" "len \<le> length input" "len \<le> OBJ_MAX"
  shows "map_status (request_view input) (parse_multi_bulk input len) = ref_multi_bulk (window input 0 len)"
proof -
  have w: "tl (window input 0 len) = window input 1 (len - 1)"
    using window_Cons [of len 0 input] assms by simp
  have ri: "parse_int_until_crlf input 1 (len - 1) = ref_int (window input 1 (len - 1))"
    using assms by (intro parse_int_ref) auto
  show ?thesis
  proof (cases "ref_int (window input 1 (len - 1))")
    case (RESP_OK x)
    obtain n h where x: "x = (n, h)" by fastforce
    have h: "1 + h \<le> len"
      using ref_int_bounds [of _ n h] RESP_OK x assms by (fastforce simp: window_length)
    note L = multi_bulk_loop_ref [OF h assms(2,3), of "nat n" "[]"]
    show ?thesis
    proof (cases "n < 1 \<or> n > int RESP_MAX_ARGC")
      case True
      with RESP_OK x ri w show ?thesis by (auto simp: parse_multi_bulk_def ref_multi_bulk_def)
    next
      case False
      with RESP_OK x ri have "parse_multi_bulk input len = multi_bulk_loop input len (nat n) (1 + h) []"
        by (auto simp: parse_multi_bulk_def)
      moreover have "ref_multi_bulk (window input 0 len) =
          bump (1 + h) (ref_bulks (nat n) (window input (1 + h) (len - (1 + h))))"
        using False RESP_OK x w by (auto simp: ref_multi_bulk_def window_drop)
      ultimately show ?thesis using L by (simp add: bump_def)
    qed
  qed (auto simp: parse_multi_bulk_def ref_multi_bulk_def ri [simplified] w [simplified])
qed

section \<open>Inline requests\<close>

lemma window_split: "i < e \<Longrightarrow> e \<le> length input \<Longrightarrow>
   window input i (e - i) = input ! i # window input (Suc i) (e - Suc i)"
  using window_Cons [of "e - i" i input] by simp

lemma find_nl_eq:
  "i \<le> lim \<Longrightarrow> lim \<le> length input \<Longrightarrow>
   find_nl input lim i = i + length (takeWhile (\<lambda>x. x \<noteq> LF) (window input i (lim - i)))"
proof (induction input lim i rule: find_nl.induct)
  case (1 input lim i)
  then show ?case
    by (subst find_nl.simps) (cases "i < lim"; auto simp: window_split)
qed

lemma skip_blanks_eq:
  "i \<le> e \<Longrightarrow> e \<le> length input \<Longrightarrow>
   skip_blanks input e i = i + length (takeWhile is_blank (window input i (e - i)))"
proof (induction input e i rule: skip_blanks.induct)
  case (1 input e i)
  then show ?case
    by (subst skip_blanks.simps) (cases "i < e"; auto simp: window_split)
qed

lemma skip_token_eq:
  "i \<le> e \<Longrightarrow> e \<le> length input \<Longrightarrow>
   skip_token input e i = i + length (takeWhile (\<lambda>x. \<not> is_blank x) (window input i (e - i)))"
proof (induction input e i rule: skip_token.induct)
  case (1 input e i)
  then show ?case
    by (subst skip_token.simps) (cases "i < e"; auto simp: window_split)
qed

lemma tokens_dropWhile: "tokens (dropWhile is_blank w) = tokens w"
  by (induction w) auto

lemma tokens_token: "w \<noteq> [] \<Longrightarrow> \<not> is_blank (hd w) \<Longrightarrow>
   tokens w = takeWhile (\<lambda>x. \<not> is_blank x) w # tokens (dropWhile (\<lambda>x. \<not> is_blank x) w)"
  by (cases w) auto

lemma dropWhile_window:
  "i \<le> e \<Longrightarrow> e \<le> length input \<Longrightarrow>
   dropWhile P (window input i (e - i)) =
   window input (i + length (takeWhile P (window input i (e - i))))
     (e - (i + length (takeWhile P (window input i (e - i)))))"
  by (simp add: dropWhile_eq_drop window_drop)

lemma takeWhile_window:
  "i \<le> e \<Longrightarrow> e \<le> length input \<Longrightarrow>
   takeWhile P (window input i (e - i)) =
   window input i (length (takeWhile P (window input i (e - i))))"
  using length_takeWhile_le [of P "window input i (e - i)"]
  by (subst takeWhile_eq_take) (simp add: window_take window_length)

text \<open>The next token of an inline request: its slice, and what follows it.\<close>

lemma inline_token:
  assumes i: "i < e" "e \<le> length input"
    and stop: "\<not> is_blank (input ! i)"
  shows "skip_token input e i \<le> e"
    "tokens (window input i (e - i)) =
      slice_bytes input \<lparr>sl_at = i, sl_len = skip_token input e i - i\<rparr> #
      tokens (window input (skip_token input e i) (e - skip_token input e i))"
proof -
  let ?w = "window input i (e - i)" and ?i2 = "skip_token input e i" and ?P = "\<lambda>x. \<not> is_blank x"
  have i2: "?i2 = i + length (takeWhile ?P ?w)" using i by (intro skip_token_eq) auto
  have "length ?w = e - i" using i by (simp add: window_length)
  with length_takeWhile_le [of ?P ?w] i2 i show "?i2 \<le> e" by simp
  have "?w = input ! i # window input (Suc i) (e - Suc i)" by (rule window_split [OF i])
  then have "tokens ?w = takeWhile ?P ?w # tokens (dropWhile ?P ?w)"
    using stop by (intro tokens_token) auto
  moreover have "takeWhile ?P ?w = slice_bytes input \<lparr>sl_at = i, sl_len = ?i2 - i\<rparr>"
    using takeWhile_window [of i e input ?P] i i2 by (simp add: slice_bytes_def window_def)
  moreover have "dropWhile ?P ?w = window input ?i2 (e - ?i2)"
    using dropWhile_window [of i e input ?P] i i2 by simp
  ultimately show "tokens ?w = slice_bytes input \<lparr>sl_at = i, sl_len = ?i2 - i\<rparr> # tokens (window input ?i2 (e - ?i2))"
    by simp
qed

lemma inline_loop_ref:
  "i \<le> e \<Longrightarrow> e \<le> length input \<Longrightarrow> length tmp \<le> RESP_MAX_ARGC \<Longrightarrow>
   map_status (map (slice_bytes input)) (inline_loop input e i tmp) =
   (let ts = map (slice_bytes input) tmp @ tokens (window input i (e - i))
    in if length ts > RESP_MAX_ARGC then RESP_PROTOCOL_ERR else RESP_OK ts)"
proof (induction input e i tmp rule: inline_loop.induct)
  case (1 input e i tmp)
  let ?w = "window input i (e - i)"
  let ?i1 = "skip_blanks input e i"
  have i1: "?i1 = i + length (takeWhile is_blank ?w)" using "1.prems"(1,2) by (rule skip_blanks_eq)
  have "length ?w = e - i" using "1.prems" by (simp add: window_length)
  with length_takeWhile_le [of is_blank ?w] "1.prems" i1 have i1e: "?i1 \<le> e" by simp
  have "dropWhile is_blank ?w = window input ?i1 (e - ?i1)"
    using dropWhile_window [OF "1.prems"(1,2), of is_blank] i1 by simp
  then have tk: "tokens ?w = tokens (window input ?i1 (e - ?i1))"
    using tokens_dropWhile [of ?w] by simp
  show ?case
  proof (cases "?i1 < e")
    case False
    with i1e have "?i1 = e" by simp
    with tk have "tokens ?w = []" by simp
    with \<open>?i1 = e\<close> "1.prems" show ?thesis by (subst inline_loop.simps) (auto simp: Let_def)
  next
    case True
    then have ie: "i < e" using skip_blanks_ge [of i input e] by simp
    note t = inline_token [OF True "1.prems"(2) skip_blanks_stop [OF True], folded tk]
    show ?thesis
    proof (cases "length tmp \<ge> RESP_MAX_ARGC")
      case full: True
      with True ie t(2) "1.prems" show ?thesis
        by (subst inline_loop.simps) (auto simp: Let_def Suc_le_eq)
    next
      case room: False
      let ?i2 = "skip_token input e ?i1"
      let ?s = "\<lparr>sl_at = ?i1, sl_len = ?i2 - ?i1\<rparr>"
      have step: "inline_loop input e i tmp = inline_loop input e ?i2 (tmp @ [?s])"
        using ie True room by (subst inline_loop.simps) (simp add: Let_def)
      have "length (tmp @ [?s]) \<le> RESP_MAX_ARGC" using room by simp
      from "1.IH" [OF ie refl _ room refl t(1) "1.prems"(2) this] True
      show ?thesis unfolding step t(2) by simp
    qed
  qed
qed

lemma takeWhile_take: "length (takeWhile P xs) < n \<Longrightarrow> takeWhile P (take n xs) = takeWhile P xs"
  by (induction xs arbitrary: n) (auto simp: take_Cons split: nat.splits)

lemma notin_length_takeWhile: "x \<notin> set xs \<longleftrightarrow> length (takeWhile (\<lambda>y. y \<noteq> x) xs) = length xs"
  by (induction xs) auto

lemma strip_cr_take:
  "strip_cr l = take (if length l > 0 \<and> l ! (length l - 1) = CR then length l - 1 else length l) l"
  by (auto simp: strip_cr_def butlast_conv_take last_conv_nth)

text \<open>The line that the search for LF finds, and the line without its CR.\<close>

lemma find_nl_line:
  assumes len: "len \<le> length input" and lim: "lim = min len RESP_MAX_INLINE_LEN"
  shows "find_nl input lim 0 = length (takeWhile (\<lambda>x. x \<noteq> LF) (take RESP_MAX_INLINE_LEN (window input 0 len)))"
    "find_nl input lim 0 = lim \<longleftrightarrow> LF \<notin> set (take RESP_MAX_INLINE_LEN (window input 0 len))"
proof -
  let ?t = "take RESP_MAX_INLINE_LEN (window input 0 len)"
  have wl: "length (window input 0 len) = len" using len by (simp add: window_length)
  have t: "window input 0 lim = ?t" "length ?t = lim"
    using wl by (auto simp: lim window_def min_def)
  show f: "find_nl input lim 0 = length (takeWhile (\<lambda>x. x \<noteq> LF) ?t)"
    using find_nl_eq [of 0 lim input] len t(1) by (simp add: lim)
  show "find_nl input lim 0 = lim \<longleftrightarrow> LF \<notin> set ?t"
    unfolding f using t(2) notin_length_takeWhile by metis
qed

lemma strip_cr_line:
  assumes "nl \<le> length input"
  shows "strip_cr (window input 0 nl) = window input 0 (if nl > 0 \<and> input ! (nl - 1) = CR then nl - 1 else nl)"
proof -
  have len: "length (window input 0 nl) = nl" using assms by (simp add: window_length)
  have "window input 0 nl ! (nl - 1) = input ! (nl - 1)" if "nl > 0"
    using that assms window_nth [of "nl - 1" nl 0 input] by simp
  then show ?thesis
    unfolding strip_cr_take len by (auto simp: window_take)
qed

lemma parse_inline_ref:
  assumes "len \<le> length input"
  shows "map_status (request_view input) (parse_inline input len) = ref_inline (window input 0 len)"
proof -
  let ?w = "window input 0 len" and ?P = "\<lambda>x. x \<noteq> LF"
  define lim where "lim = (if len < RESP_MAX_INLINE_LEN then len else RESP_MAX_INLINE_LEN)"
  have "lim = min len RESP_MAX_INLINE_LEN" by (simp add: lim_def min_def)
  note F = find_nl_line [OF assms this]
  have wl: "length ?w = len" using assms by (simp add: window_length)
  define nl where "nl = find_nl input lim 0"
  show ?thesis
  proof (cases "nl = lim")
    case True
    with F(2) wl show ?thesis
      by (simp add: parse_inline_def ref_inline_def lim_def [symmetric] nl_def [symmetric] Let_def)
  next
    case False
    with F(2) have LF: "LF \<in> set (take RESP_MAX_INLINE_LEN ?w)" by (simp add: nl_def)
    have "takeWhile ?P ?w = takeWhile ?P (take RESP_MAX_INLINE_LEN ?w)"
      using takeWhile_append1 [OF LF, of ?P "drop RESP_MAX_INLINE_LEN ?w"] by simp
    then have len_line: "length (takeWhile ?P ?w) = nl" using F(1) by (simp add: nl_def)
    then have nlen: "nl \<le> len" using length_takeWhile_le [of ?P ?w] wl by simp
    then have line: "takeWhile ?P ?w = window input 0 nl"
      using takeWhile_eq_take [of ?P ?w] len_line by (simp add: window_take)
    define e where "e = (if nl > 0 \<and> input ! (nl - 1) = CR then nl - 1 else nl)"
    have sc: "strip_cr (window input 0 nl) = window input 0 e" "e \<le> length input"
      using strip_cr_line [of nl input] nlen assms by (auto simp: e_def)
    have code: "parse_inline input len = (case inline_loop input e 0 [] of
         RESP_NEED_MORE \<Rightarrow> RESP_NEED_MORE
       | RESP_PROTOCOL_ERR \<Rightarrow> RESP_PROTOCOL_ERR
       | RESP_OK tmp \<Rightarrow> (if length tmp = 0 then RESP_PROTOCOL_ERR
            else RESP_OK \<lparr>rq_args = tmp, rq_consumed = nl + 1\<rparr>))"
      using False unfolding parse_inline_def lim_def [symmetric] Let_def nl_def [symmetric] e_def by simp
    have ref: "ref_inline ?w = (if length (tokens (window input 0 e)) > RESP_MAX_ARGC \<or> tokens (window input 0 e) = []
         then RESP_PROTOCOL_ERR else RESP_OK (tokens (window input 0 e), nl + 1))"
      using LF len_line by (simp add: ref_inline_def Let_def line sc(1))
    from inline_loop_ref [OF le0 sc(2), of "[]"] show ?thesis
      unfolding code ref by (cases "inline_loop input e 0 []") (auto simp: request_view_def Let_def split: if_splits)
  qed
qed

text \<open>The parser is the reference parser on the first \<open>len\<close> bytes of its input.\<close>

lemma resp_parse_request_ref:
  assumes "len \<le> length input" "len \<le> OBJ_MAX"
  shows "map_status (request_view input) (resp_parse_request input len) = ref_request (take len input)"
proof (cases "len = 0")
  case False
  then have "window input 0 len = input ! 0 # window input 1 (len - 1)"
    using window_Cons [of len 0 input] assms by simp
  moreover have "take len input = window input 0 len" by (simp add: window_def)
  ultimately show ?thesis
    using False assms parse_multi_bulk_ref [of len input] parse_inline_ref [of len input]
    by (simp add: resp_parse_request_def ref_request_def)
qed (simp add: resp_parse_request_def ref_request_def)

end
