(* ===== verification/Resp_Props.thy ===== *)
theory Resp_Props
  imports Resp_Ref
begin

text \<open>
  What the request parser guarantees: bounds of its slices, finality of its outcomes when more
  bytes arrive, and round trips with the two wire forms. The lemmas are proved on the reference
  parser and carried to the code by \<open>resp_parse_request_ref\<close>.
\<close>

section \<open>Outcomes are final\<close>

lemma int_scan_final:
  "int_scan neg seen v w \<noteq> RESP_NEED_MORE \<Longrightarrow> int_scan neg seen v (w @ y) = int_scan neg seen v w"
proof (induction neg seen v w rule: int_scan.induct)
  case (2 neg seen v c cs)
  show ?case
  proof (cases "c = CR")
    case True
    with "2.prems" show ?thesis by (cases cs) auto
  next
    case False
    with 2 show ?thesis by (simp split: if_splits)
  qed
qed simp

lemma ref_int_final: "ref_int w \<noteq> RESP_NEED_MORE \<Longrightarrow> ref_int (w @ y) = ref_int w"
  using int_scan_final [of True False 0 "tl w" y] int_scan_final [of False False 0 w y]
  by (cases w) (auto simp: ref_int_def simp del: int_scan.simps(2))

lemma ref_bulk_final: "ref_bulk w \<noteq> RESP_NEED_MORE \<Longrightarrow> ref_bulk (w @ y) = ref_bulk w"
proof (cases w)
  case (Cons c cs)
  assume final: "ref_bulk w \<noteq> RESP_NEED_MORE"
  show ?thesis
  proof (cases "c = 36 \<and> (\<exists>l h. ref_int cs = RESP_OK (l, h))")
    case True
    then obtain l h where lh: "c = 36" "ref_int cs = RESP_OK (l, h)" by blast
    then have "ref_int (cs @ y) = RESP_OK (l, h)" using ref_int_final [of cs y] by simp
    with final lh Cons show ?thesis
      by (auto simp: ref_bulk_def Let_def nth_append nth_Cons' split: if_splits)
  next
    case False
    with final Cons ref_int_final [of cs y] show ?thesis
      by (cases "ref_int cs") (auto simp: ref_bulk_def)
  qed
qed (simp add: ref_bulk_def)

lemma ref_bulk_bounds: "ref_bulk w = RESP_OK (a, u) \<Longrightarrow> 0 < u \<and> u \<le> length w"
  by (cases w; cases "ref_int (tl w)") (auto simp: ref_bulk_def Let_def split: if_splits)

lemma ref_bulks_final: "ref_bulks n w \<noteq> RESP_NEED_MORE \<Longrightarrow> ref_bulks n (w @ y) = ref_bulks n w"
proof (induction n arbitrary: w)
  case (Suc n)
  then have f: "ref_bulk (w @ y) = ref_bulk w" by (intro ref_bulk_final) auto
  show ?case
  proof (cases "ref_bulk w")
    case (RESP_OK x)
    obtain a u where x: "x = (a, u)" by fastforce
    then have "u \<le> length w" using ref_bulk_bounds RESP_OK by blast
    moreover have "ref_bulks n (drop u w) \<noteq> RESP_NEED_MORE"
      using Suc.prems RESP_OK x by auto
    ultimately show ?thesis using Suc.IH RESP_OK x f by simp
  qed (simp_all add: f)
qed simp

lemma ref_multi_bulk_final:
  assumes "w \<noteq> []" "ref_multi_bulk w \<noteq> RESP_NEED_MORE"
  shows "ref_multi_bulk (w @ y) = ref_multi_bulk w"
proof -
  obtain c cs where w: "w = c # cs" using assms(1) by (cases w) auto
  show ?thesis
  proof (cases "ref_int cs")
    case (RESP_OK x)
    obtain n h where x: "x = (n, h)" by fastforce
    have "ref_int (cs @ y) = ref_int cs" using RESP_OK by (intro ref_int_final) simp
    moreover have "h \<le> length cs" using RESP_OK x ref_int_bounds by blast
    moreover have "ref_bulks (nat n) (drop h cs) \<noteq> RESP_NEED_MORE" if "\<not> (n < 1 \<or> n > int RESP_MAX_ARGC)"
      using assms(2) RESP_OK x that by (auto simp: w ref_multi_bulk_def)
    ultimately show ?thesis
      using RESP_OK x by (auto simp: w ref_multi_bulk_def ref_bulks_final)
  next
    case RESP_NEED_MORE
    with assms(2) show ?thesis by (simp add: w ref_multi_bulk_def)
  next
    case RESP_PROTOCOL_ERR
    then have "ref_int (cs @ y) = RESP_PROTOCOL_ERR" using ref_int_final [of cs y] by simp
    with RESP_PROTOCOL_ERR show ?thesis by (simp add: w ref_multi_bulk_def)
  qed
qed

lemma ref_inline_final:
  assumes "ref_inline w \<noteq> RESP_NEED_MORE"
  shows "ref_inline (w @ y) = ref_inline w"
proof (cases "LF \<in> set (take RESP_MAX_INLINE_LEN w)")
  case True
  then have "LF \<in> set w" by (meson in_set_takeD)
  then have "takeWhile (\<lambda>x. x \<noteq> LF) (w @ y) = takeWhile (\<lambda>x. x \<noteq> LF) w"
    by (intro takeWhile_append1) auto
  with True show ?thesis by (auto simp: ref_inline_def Let_def)
next
  case False
  with assms have "length w \<ge> RESP_MAX_INLINE_LEN" by (auto simp: ref_inline_def split: if_splits)
  with False show ?thesis by (simp add: ref_inline_def)
qed

lemma ref_request_final:
  assumes "ref_request w \<noteq> RESP_NEED_MORE"
  shows "ref_request (w @ y) = ref_request w"
  using assms ref_multi_bulk_final [of w y] ref_inline_final [of w y]
  by (cases w) (auto simp: ref_request_def)

section \<open>Bounds and progress\<close>

lemma ref_bulks_bounds:
  "ref_bulks n w = RESP_OK (as, k) \<Longrightarrow> length as = n \<and> k \<le> length w"
proof (induction n arbitrary: w as k)
  case (Suc n)
  then obtain a u as' k' where *: "ref_bulk w = RESP_OK (a, u)" "ref_bulks n (drop u w) = RESP_OK (as', k')"
    "as = a # as'" "k = u + k'"
    by (cases "ref_bulk w"; cases "ref_bulks n (drop (snd (case ref_bulk w of RESP_OK x \<Rightarrow> x)) w)") auto
  with Suc.IH [OF *(2)] ref_bulk_bounds [OF *(1)] show ?case by auto
qed simp

lemma ref_request_bounds:
  assumes "ref_request w = RESP_OK (as, k)"
  shows "as \<noteq> []" "length as \<le> RESP_MAX_ARGC" "0 < k" "k \<le> length w"
proof -
  have "as \<noteq> [] \<and> length as \<le> RESP_MAX_ARGC \<and> 0 < k \<and> k \<le> length w"
  proof (cases "hd w = 42")
    case True
    with assms have w: "w \<noteq> []" "ref_multi_bulk w = RESP_OK (as, k)"
      by (auto simp: ref_request_def split: if_splits)
    then obtain n h m where *: "ref_int (tl w) = RESP_OK (n, h)" "\<not> (n < 1 \<or> n > int RESP_MAX_ARGC)"
      "ref_bulks (nat n) (drop (1 + h) w) = RESP_OK (as, m)" "k = 1 + h + m"
      by (cases "ref_int (tl w)") (auto simp: ref_multi_bulk_def split: if_splits)
    with ref_bulks_bounds [OF *(3)] ref_int_bounds [OF *(1)] w show ?thesis by auto
  next
    case False
    with assms have "w \<noteq> []" "ref_inline w = RESP_OK (as, k)"
      by (auto simp: ref_request_def split: if_splits)
    moreover from this have "LF \<in> set w" by (auto simp: ref_inline_def split: if_splits dest: in_set_takeD)
    then have "length (takeWhile (\<lambda>x. x \<noteq> LF) w) < length w"
      using notin_length_takeWhile [of LF w] length_takeWhile_le [of "\<lambda>x. x \<noteq> LF" w] by linarith
    ultimately show ?thesis by (auto simp: ref_inline_def Let_def split: if_splits)
  qed
  then show "as \<noteq> []" "length as \<le> RESP_MAX_ARGC" "0 < k" "k \<le> length w" by auto
qed

lemma inline_loop_slices:
  "i \<le> e \<Longrightarrow> e \<le> length input \<Longrightarrow> inline_loop input e i tmp = RESP_OK ss \<Longrightarrow>
   \<forall>s\<in>set tmp. sl_at s + sl_len s \<le> e \<Longrightarrow> \<forall>s\<in>set ss. sl_at s + sl_len s \<le> e"
proof (induction input e i tmp rule: inline_loop.induct)
  case (1 input e i tmp)
  let ?i1 = "skip_blanks input e i" and ?i2 = "skip_token input e (skip_blanks input e i)"
  show ?case
  proof (cases "i < e \<and> \<not> ?i1 \<ge> e \<and> \<not> length tmp \<ge> RESP_MAX_ARGC")
    case True
    then have c: "i < e" "\<not> ?i1 \<ge> e" "\<not> length tmp \<ge> RESP_MAX_ARGC" by auto
    have "?i1 \<le> ?i2" by (rule skip_token_ge)
    moreover have "?i2 \<le> e"
      using skip_token_eq [of ?i1 e input] c "1.prems"(2)
        length_takeWhile_le [of "\<lambda>x. \<not> is_blank x" "window input ?i1 (e - ?i1)"]
      by (simp add: window_length)
    moreover have "inline_loop input e i tmp =
        inline_loop input e ?i2 (tmp @ [\<lparr>sl_at = ?i1, sl_len = ?i2 - ?i1\<rparr>])"
      using c by (subst inline_loop.simps) (simp add: Let_def)
    ultimately show ?thesis
      using "1.IH" [OF c(1) refl c(2,3) refl] "1.prems"(2-4) by simp
  next
    case False
    with "1.prems" show ?thesis
      by (subst (asm) inline_loop.simps) (auto simp: Let_def split: if_splits)
  qed
qed

lemma parse_inline_slices:
  assumes "parse_inline input len = RESP_OK r" "len \<le> length input"
  shows "\<forall>s\<in>set (rq_args r). slice_within (rq_consumed r) s"
proof -
  define lim where "lim = (if len < RESP_MAX_INLINE_LEN then len else RESP_MAX_INLINE_LEN)"
  define nl where "nl = find_nl input lim 0"
  define e where "e = (if nl > 0 \<and> input ! (nl - 1) = CR then nl - 1 else nl)"
  from assms(1) obtain ss where ss: "inline_loop input e 0 [] = RESP_OK ss" "rq_args r = ss"
    "rq_consumed r = nl + 1"
    unfolding parse_inline_def lim_def [symmetric] Let_def nl_def [symmetric] e_def
    by (auto split: if_splits resp_status.splits)
  have "nl \<le> lim" using find_nl_eq [of 0 lim input] assms(2)
      length_takeWhile_le [of "\<lambda>x. x \<noteq> LF" "window input 0 lim"]
    by (simp add: nl_def lim_def window_length)
  then have "e \<le> nl" "e \<le> length input" using assms(2) by (auto simp: e_def lim_def split: if_splits)
  with inline_loop_slices [OF _ _ ss(1)] ss show ?thesis
    by (fastforce simp: slice_within_def)
qed

section \<open>Round trips with the wire forms\<close>

definition encode_bulk :: "bytes \<Rightarrow> bytes" where
  "encode_bulk a = 36 # dec_digits (length a) @ crlf @ a @ crlf"

text \<open>The multi-bulk form of a request, as \<open>redis-cli\<close> sends it.\<close>

definition encode_request :: "bytes list \<Rightarrow> bytes" where
  "encode_request as = 42 # dec_digits (length as) @ crlf @ concat (map encode_bulk as)"

definition request_ok :: "bytes list \<Rightarrow> bool" where
  "request_ok as \<longleftrightarrow> as \<noteq> [] \<and> length as \<le> RESP_MAX_ARGC \<and>
     (\<forall>a\<in>set as. int (length a) \<le> RESP_MAX_BULK_LEN)"

lemma digit_not_cr: "is_digit c \<Longrightarrow> c \<noteq> CR"
  by (auto simp: is_digit_def CR_def)

lemma int_scan_digits:
  "\<forall>c\<in>set ds. is_digit c \<Longrightarrow> seen \<or> ds \<noteq> [] \<Longrightarrow> int (dec_value a ds) \<le> DIGIT_GUARD * 10 + 9 \<Longrightarrow>
   int_scan neg seen (int a) (ds @ crlf @ y) =
     RESP_OK (if neg then - int (dec_value a ds) else int (dec_value a ds), length ds + 2)"
proof (induction ds arbitrary: a seen)
  case Nil
  then show ?case by (simp add: crlf_def)
next
  case (Cons c ds)
  have d: "is_digit c" "c \<noteq> CR" using Cons.prems(1) digit_not_cr by auto
  have "a * 10 + unat (c - 48) \<le> dec_value a (c # ds)"
    by (simp add: dec_value_Cons dec_value_mono)
  then have "int a * 10 \<le> DIGIT_GUARD * 10 + 9" using Cons.prems(3) by linarith
  then have "\<not> int a > DIGIT_GUARD" by linarith
  moreover have "int_scan neg True (int (a * 10 + unat (c - 48))) (ds @ crlf @ y) =
      RESP_OK (if neg then - int (dec_value a (c # ds)) else int (dec_value a (c # ds)), length ds + 2)"
    using Cons.IH [of True "a * 10 + unat (c - 48)"] Cons.prems by (simp add: dec_value_Cons)
  ultimately show ?case using d by simp
qed

lemma ref_int_digits:
  assumes "int n \<le> DIGIT_GUARD * 10 + 9"
  shows "ref_int (dec_digits n @ crlf @ y) = RESP_OK (int n, length (dec_digits n) + 2)"
proof -
  have "is_digit (hd (dec_digits n))" by (intro dec_digits_digits [of _ n] hd_in_set) simp
  then have "hd (dec_digits n @ crlf @ y) \<noteq> 45"
    by (auto simp: is_digit_def)
  moreover have "int_scan False False (int 0) (dec_digits n @ crlf @ y) =
      RESP_OK (int n, length (dec_digits n) + 2)"
    using assms int_scan_digits [of "dec_digits n" False 0 False y] dec_digits_digits by simp
  ultimately show ?thesis by (simp add: ref_int_def)
qed

lemma guard_value: "DIGIT_GUARD * 10 + 9 = 9223372036854775799"
  by (simp add: DIGIT_GUARD_def INT64_MAX_def)

lemma ref_bulk_encode:
  assumes "int (length a) \<le> RESP_MAX_BULK_LEN"
  shows "ref_bulk (encode_bulk a @ y) = RESP_OK (a, length (encode_bulk a))"
proof -
  let ?d = "dec_digits (length a)"
  have "int (length a) \<le> DIGIT_GUARD * 10 + 9"
    using assms by (simp add: guard_value RESP_MAX_BULK_LEN_def)
  then have i: "ref_int (?d @ crlf @ a @ crlf @ y) = RESP_OK (int (length a), length ?d + 2)"
    by (rule ref_int_digits)
  have e: "encode_bulk a @ y = 36 # ?d @ crlf @ a @ crlf @ y" by (simp add: encode_bulk_def)
  have dr: "drop (1 + (length ?d + 2)) (encode_bulk a @ y) = a @ crlf @ y"
    by (simp add: e crlf_def)
  have nth: "(encode_bulk a @ y) ! (1 + (length ?d + 2) + length a) = CR"
    "(encode_bulk a @ y) ! (1 + (length ?d + 2) + length a + 1) = LF"
  proof -
    let ?k = "1 + (length ?d + 2)"
    have "(encode_bulk a @ y) ! (?k + (length a + j)) = (a @ crlf @ y) ! (length a + j)" for j
      using nth_drop [of ?k "encode_bulk a @ y" "length a + j"] dr
      by (simp add: encode_bulk_def)
    from this [of 0] this [of 1] show
      "(encode_bulk a @ y) ! (?k + length a) = CR" "(encode_bulk a @ y) ! (?k + length a + 1) = LF"
      by (simp_all add: crlf_def nth_append ac_simps)
  qed
  show ?thesis
    using i assms dr nth unfolding ref_bulk_def e
    by (simp add: Let_def) (simp add: encode_bulk_def crlf_def)
qed

lemma ref_bulks_encode:
  "\<forall>a\<in>set as. int (length a) \<le> RESP_MAX_BULK_LEN \<Longrightarrow>
   ref_bulks (length as) (concat (map encode_bulk as) @ y) =
     RESP_OK (as, length (concat (map encode_bulk as)))"
  by (induction as) (simp_all add: ref_bulk_encode)

lemma ref_request_encode:
  assumes "request_ok as"
  shows "ref_request (encode_request as @ y) = RESP_OK (as, length (encode_request as))"
proof -
  let ?d = "dec_digits (length as)"
  have "int (length as) \<le> DIGIT_GUARD * 10 + 9"
    using assms by (simp add: guard_value request_ok_def RESP_MAX_ARGC_def)
  then have i: "ref_int (?d @ crlf @ concat (map encode_bulk as) @ y) = RESP_OK (int (length as), length ?d + 2)"
    by (rule ref_int_digits)
  have e: "encode_request as @ y = 42 # ?d @ crlf @ concat (map encode_bulk as) @ y"
    by (simp add: encode_request_def)
  have dr: "drop (1 + (length ?d + 2)) (encode_request as @ y) = concat (map encode_bulk as) @ y"
    by (simp add: e crlf_def)
  have "\<not> (int (length as) < 1 \<or> int (length as) > int RESP_MAX_ARGC)"
    using assms by (cases as) (auto simp: request_ok_def)
  with i dr have "ref_multi_bulk (encode_request as @ y) = RESP_OK (as, length (encode_request as))"
    using ref_bulks_encode [of as y] assms unfolding ref_multi_bulk_def e
    by (simp add: request_ok_def) (simp add: encode_request_def crlf_def)
  then show ?thesis by (simp add: ref_request_def encode_request_def)
qed

text \<open>A proper prefix of an encoded request is neither complete nor malformed.\<close>

lemma ref_request_prefix:
  assumes ok: "request_ok as" and p: "encode_request as = w @ v" "v \<noteq> []"
  shows "ref_request w = RESP_NEED_MORE"
proof (rule ccontr)
  assume n: "ref_request w \<noteq> RESP_NEED_MORE"
  then have "ref_request w = RESP_OK (as, length (encode_request as))"
    using ref_request_final [OF n, of v] ref_request_encode [OF ok, of "[]"] p by simp
  then have "length (encode_request as) \<le> length w" by (rule ref_request_bounds(4))
  with p show False by simp
qed

section \<open>The inline form\<close>

fun join_blank :: "bytes list \<Rightarrow> bytes" where
  "join_blank [] = []"
| "join_blank [a] = a"
| "join_blank (a # as) = a @ 32 # join_blank as"

definition word_ok :: "bytes \<Rightarrow> bool" where
  "word_ok a \<longleftrightarrow> a \<noteq> [] \<and> (\<forall>c\<in>set a. \<not> is_blank c \<and> c \<noteq> CR \<and> c \<noteq> LF)"

lemma takeWhile_all_append: "\<forall>x\<in>set a. P x \<Longrightarrow> takeWhile P (a @ b) = a @ takeWhile P b"
  by (induction a) auto

lemma dropWhile_all_append: "\<forall>x\<in>set a. P x \<Longrightarrow> dropWhile P (a @ b) = dropWhile P b"
  by (induction a) auto

lemma tokens_join: "\<forall>a\<in>set as. word_ok a \<Longrightarrow> tokens (join_blank as) = as"
proof (induction as rule: join_blank.induct)
  case (2 a)
  then have "a \<noteq> []" "\<not> is_blank (hd a)" "\<forall>x\<in>set a. \<not> is_blank x" by (auto simp: word_ok_def)
  then show ?case using tokens_token [of a] by (simp add: takeWhile_eq_all_conv [THEN iffD2] dropWhile_eq_Nil_conv [THEN iffD2])
next
  case (3 a b as)
  then have a: "a \<noteq> []" "\<not> is_blank (hd a)" "\<forall>x\<in>set a. \<not> is_blank x" by (auto simp: word_ok_def)
  have bl: "is_blank 32" by (simp add: is_blank_def)
  have "tokens (a @ 32 # join_blank (b # as)) = a # tokens (32 # join_blank (b # as))"
    using a bl tokens_token [of "a @ 32 # join_blank (b # as)"]
    by (simp add: takeWhile_all_append dropWhile_all_append)
  with 3 bl show ?case by simp
qed simp

lemma join_blank_set: "\<forall>a\<in>set as. word_ok a \<Longrightarrow> c \<in> set (join_blank as) \<Longrightarrow> c \<noteq> CR \<and> c \<noteq> LF"
  by (induction as rule: join_blank.induct) (auto simp: word_ok_def CR_def LF_def)

lemma join_blank_last: "as \<noteq> [] \<Longrightarrow> \<forall>a\<in>set as. word_ok a \<Longrightarrow> join_blank as \<noteq> []"
  by (cases as rule: join_blank.cases) (auto simp: word_ok_def)

text \<open>A line of words, ended by CR LF (\<open>cr\<close>) or by a bare LF.\<close>

lemma ref_request_inline:
  assumes w: "as \<noteq> []" "length as \<le> RESP_MAX_ARGC" "\<forall>a\<in>set as. word_ok a" "hd (hd as) \<noteq> 42"
    and len: "length (join_blank as) + 2 \<le> RESP_MAX_INLINE_LEN"
  shows "ref_request (join_blank as @ (if cr then crlf else [LF]) @ y) =
    RESP_OK (as, length (join_blank as) + (if cr then 2 else 1))"
proof -
  let ?l = "join_blank as" and ?e = "if cr then crlf else [LF]"
  define line where "line = ?l @ (if cr then [CR] else [])"
  have ne: "?l \<noteq> []" using w join_blank_last by blast
  have l: "c \<noteq> CR \<and> c \<noteq> LF" if "c \<in> set ?l" for c using join_blank_set w that by blast
  have in_eq: "?l @ ?e @ y = line @ LF # y" by (simp add: line_def crlf_def)
  have noLF: "\<forall>x\<in>set line. x \<noteq> LF" using l by (auto simp: line_def CR_def LF_def)
  have tw: "takeWhile (\<lambda>x. x \<noteq> LF) (line @ LF # y) = line"
    using noLF by (simp add: takeWhile_all_append)
  have "length line + 1 \<le> RESP_MAX_INLINE_LEN" using len by (simp add: line_def)
  then have "LF \<in> set (take RESP_MAX_INLINE_LEN (line @ LF # y))"
    by (cases "RESP_MAX_INLINE_LEN - length line") auto
  moreover have "strip_cr line = ?l"
    using ne l [of "last ?l"] by (auto simp: strip_cr_def line_def)
  moreover have "hd (line @ LF # y) \<noteq> 42"
  proof -
    have "hd ?l = hd (hd as)" using w(1,3) by (cases as rule: join_blank.cases) (auto simp: word_ok_def)
    then show ?thesis using ne w(4) by (simp add: line_def)
  qed
  ultimately show ?thesis
    unfolding in_eq using w tw tokens_join [of as]
    by (auto simp: ref_request_def ref_inline_def Let_def line_def)
qed

section \<open>The request the code returns\<close>

lemma parse_multi_bulk_slices:
  assumes "parse_multi_bulk input len = RESP_OK r" "0 < len" "len \<le> length input" "len \<le> OBJ_MAX"
  shows "\<forall>s\<in>set (rq_args r). slice_within (rq_consumed r) s"
proof -
  have ri: "parse_int_until_crlf input 1 (len - 1) = ref_int (window input 1 (len - 1))"
    using assms by (intro parse_int_ref) auto
  from assms(1) obtain n h where *: "ref_int (window input 1 (len - 1)) = RESP_OK (n, h)"
    "multi_bulk_loop input len (nat n) (1 + h) [] = RESP_OK r"
    unfolding parse_multi_bulk_def ri by (auto split: resp_status.splits if_splits)
  have "1 + h \<le> len"
    using ref_int_bounds [OF *(1)] assms by (fastforce simp: window_length)
  with multi_bulk_loop_slices [OF _ assms(3,4) *(2)] show ?thesis by simp
qed

lemma resp_parse_request_shape:
  assumes ok: "resp_parse_request input len = RESP_OK r" and len: "len \<le> length input" "len \<le> OBJ_MAX"
  shows "\<forall>s\<in>set (rq_args r). slice_within (rq_consumed r) s"
    "0 < length (rq_args r)" "length (rq_args r) \<le> RESP_MAX_ARGC"
    "0 < rq_consumed r" "rq_consumed r \<le> len"
    "ref_request (take len input) = RESP_OK (map (slice_bytes input) (rq_args r), rq_consumed r)"
proof -
  show ref: "ref_request (take len input) = RESP_OK (map (slice_bytes input) (rq_args r), rq_consumed r)"
    using resp_parse_request_ref [OF len] ok by (simp add: request_view_def)
  from ref_request_bounds [OF ref] len show "0 < length (rq_args r)" "length (rq_args r) \<le> RESP_MAX_ARGC"
    "0 < rq_consumed r" "rq_consumed r \<le> len" by auto
  show "\<forall>s\<in>set (rq_args r). slice_within (rq_consumed r) s"
    using ok parse_multi_bulk_slices [OF _ _ len, of r] parse_inline_slices [OF _ len(1), of r]
    by (auto simp: resp_parse_request_def split: if_splits)
qed

end
