(* ===== verification/Resp_Reply.thy ===== *)
theory Resp_Reply
  imports Bytebuf
begin

text \<open>
  The reply serializers of \<open>resp.c\<close>: each appends one RESP2 reply to a byte buffer in up to
  three pieces. Beside them stand the replies as data, their encoding, and a reader of the wire
  form as a client would have; the theory shows that a serializer writes the encoding of its
  reply when there is room, a prefix of its pieces otherwise, and that the reader recovers a
  reply from its encoding whatever follows it.
\<close>

section \<open>The serializers\<close>

text \<open>The bytes of a C string up to its NUL, which is what \<open>strlen\<close> counts.\<close>

definition c_chars :: "bytes \<Rightarrow> bytes" where
  "c_chars s = takeWhile (\<lambda>c. c \<noteq> 0) s"

definition resp_reply_simple_string :: "mem \<Rightarrow> bytebuf \<Rightarrow> bytes \<Rightarrow> rc \<times> mem \<times> bytebuf" where
  "resp_reply_simple_string m out s =
     (case bytebuf_append m out [43] of
        (RC_ERR, m1, out1) \<Rightarrow> (RC_ERR, m1, out1)
      | (RC_OK, m1, out1) \<Rightarrow>
     (case bytebuf_append m1 out1 (c_chars s) of
        (RC_ERR, m2, out2) \<Rightarrow> (RC_ERR, m2, out2)
      | (RC_OK, m2, out2) \<Rightarrow> bytebuf_append m2 out2 crlf))"

definition resp_reply_error :: "mem \<Rightarrow> bytebuf \<Rightarrow> bytes \<Rightarrow> rc \<times> mem \<times> bytebuf" where
  "resp_reply_error m out msg =
     (case bytebuf_append m out [45] of
        (RC_ERR, m1, out1) \<Rightarrow> (RC_ERR, m1, out1)
      | (RC_OK, m1, out1) \<Rightarrow>
     (case bytebuf_append m1 out1 (c_chars msg) of
        (RC_ERR, m2, out2) \<Rightarrow> (RC_ERR, m2, out2)
      | (RC_OK, m2, out2) \<Rightarrow> bytebuf_append m2 out2 crlf))"

definition resp_reply_integer :: "mem \<Rightarrow> bytebuf \<Rightarrow> int \<Rightarrow> rc \<times> mem \<times> bytebuf" where
  "resp_reply_integer m out n = bytebuf_appendf m out (58 # fmt_d64 n @ crlf)"

definition resp_reply_bulk :: "mem \<Rightarrow> bytebuf \<Rightarrow> bytes \<Rightarrow> rc \<times> mem \<times> bytebuf" where
  "resp_reply_bulk m out bs =
     (case bytebuf_appendf m out (36 # fmt_zu (size_of bs) @ crlf) of
        (RC_ERR, m1, out1) \<Rightarrow> (RC_ERR, m1, out1)
      | (RC_OK, m1, out1) \<Rightarrow>
     (case bytebuf_append m1 out1 bs of
        (RC_ERR, m2, out2) \<Rightarrow> (RC_ERR, m2, out2)
      | (RC_OK, m2, out2) \<Rightarrow> bytebuf_append m2 out2 crlf))"

definition resp_reply_nil :: "mem \<Rightarrow> bytebuf \<Rightarrow> rc \<times> mem \<times> bytebuf" where
  "resp_reply_nil m out = bytebuf_append m out (cstr ''$-1'' @ crlf)"

definition resp_reply_array_header :: "mem \<Rightarrow> bytebuf \<Rightarrow> size_t \<Rightarrow> rc \<times> mem \<times> bytebuf" where
  "resp_reply_array_header m out n = bytebuf_appendf m out (42 # fmt_zu n @ crlf)"

section \<open>Replies and their encoding\<close>

datatype reply =
    RSimple bytes
  | RError bytes
  | RInt int
  | RBulk bytes
  | RNil
  | RArray "bytes list"

definition bulk_bytes :: "bytes \<Rightarrow> bytes" where
  "bulk_bytes bs = 36 # fmt_zu (size_of bs) @ crlf @ bs @ crlf"

fun encode_reply :: "reply \<Rightarrow> bytes" where
  "encode_reply (RSimple s) = 43 # s @ crlf"
| "encode_reply (RError s) = 45 # s @ crlf"
| "encode_reply (RInt n) = 58 # fmt_d64 n @ crlf"
| "encode_reply (RBulk bs) = bulk_bytes bs"
| "encode_reply RNil = cstr ''$-1'' @ crlf"
| "encode_reply (RArray xs) = 42 # fmt_zu (word_of_nat (length xs)) @ crlf @ concat (map bulk_bytes xs)"

text \<open>The pieces a serializer writes.\<close>

definition simple_pieces :: "bytes \<Rightarrow> bytes list" where
  "simple_pieces s = [[43], c_chars s, crlf]"

definition error_pieces :: "bytes \<Rightarrow> bytes list" where
  "error_pieces s = [[45], c_chars s, crlf]"

definition bulk_pieces :: "bytes \<Rightarrow> bytes list" where
  "bulk_pieces bs = [36 # fmt_zu (size_of bs) @ crlf, bs, crlf]"

section \<open>A serializer writes its pieces in turn\<close>

lemma fmt_zu_length: "length (fmt_zu n) \<le> 20"
proof -
  have "unat n \<le> SIZE_MAX" by simp
  then show ?thesis
    using dec_digits_length [of "unat n" 19] by (simp add: fmt_zu_def SIZE_MAX_def)
qed

lemma fmt_d64_length:
  assumes "int64_range n"
  shows "length (fmt_d64 n) \<le> 20"
proof -
  have "nat (- n) < 10 ^ Suc 18" "nat n < 10 ^ Suc 18"
    using assms by (auto simp: int64_range_def INT64_MAX_def INT64_MIN_def)
  then show ?thesis
    using dec_digits_length [of "nat (- n)" 18] dec_digits_length [of "nat n" 18]
    by (auto simp: fmt_d64_def)
qed

lemma write_pieces_1: "write_pieces app m b [p] = app m b p"
  by (auto split: prod.splits rc.splits)

lemma reply_simple_pieces:
  "resp_reply_simple_string m out s = write_pieces bytebuf_append m out (simple_pieces s)"
  by (auto simp: resp_reply_simple_string_def simple_pieces_def split: prod.splits rc.splits)

lemma reply_error_pieces:
  "resp_reply_error m out s = write_pieces bytebuf_append m out (error_pieces s)"
  by (auto simp: resp_reply_error_def error_pieces_def split: prod.splits rc.splits)

lemma reply_bulk_pieces:
  "resp_reply_bulk m out bs = write_pieces bytebuf_append m out (bulk_pieces bs)"
proof -
  have "length (36 # fmt_zu (size_of bs) @ crlf) < 128"
    using fmt_zu_length [of "size_of bs"] by simp
  from bytebuf_appendf_short [OF this] show ?thesis
    by (auto simp: resp_reply_bulk_def bulk_pieces_def split: prod.splits rc.splits)
qed

lemma reply_nil_pieces:
  "resp_reply_nil m out = write_pieces bytebuf_append m out [cstr ''$-1'' @ crlf]"
  by (simp add: resp_reply_nil_def write_pieces_1 del: write_pieces.simps)

lemma reply_integer_pieces:
  assumes "int64_range n"
  shows "resp_reply_integer m out n = write_pieces bytebuf_append m out [58 # fmt_d64 n @ crlf]"
  using fmt_d64_length [OF assms] bytebuf_appendf_short [of "58 # fmt_d64 n @ crlf"]
  by (simp add: resp_reply_integer_def write_pieces_1 del: write_pieces.simps)

lemma reply_array_pieces:
  "resp_reply_array_header m out n = write_pieces bytebuf_append m out [42 # fmt_zu n @ crlf]"
  using fmt_zu_length [of n] bytebuf_appendf_short [of "42 # fmt_zu n @ crlf"]
  by (simp add: resp_reply_array_header_def write_pieces_1 del: write_pieces.simps)

lemma c_chars_id: "0 \<notin> set s \<Longrightarrow> c_chars s = s"
  by (auto simp: c_chars_def takeWhile_eq_all_conv)

lemma c_chars_no_nul: "0 \<notin> set (c_chars s)"
  by (auto simp: c_chars_def dest: set_takeWhileD)

lemma write_pieces_append:
  "write_pieces app m b (ps @ qs) =
    (case write_pieces app m b ps of
       (RC_ERR, m', b') \<Rightarrow> (RC_ERR, m', b')
     | (RC_OK, m', b') \<Rightarrow> write_pieces app m' b' qs)"
  by (induction ps arbitrary: m b) (auto split: prod.splits rc.splits)

lemma short_le [simp]: "2 \<le> SIZE_MAX" "Suc 0 \<le> SIZE_MAX"
  by (simp_all add: SIZE_MAX_def)

lemma c_chars_length: "length (c_chars s) \<le> length s"
  by (simp add: c_chars_def length_takeWhile_le)

lemma bulk_pieces_size: "length bs \<le> SIZE_MAX \<Longrightarrow> \<forall>p\<in>set (bulk_pieces bs). length p \<le> SIZE_MAX"
  using fmt_zu_length [of "size_of bs"] by (simp add: bulk_pieces_def SIZE_MAX_def)

lemma concat_bulk_pieces: "concat (bulk_pieces bs) = bulk_bytes bs"
  by (simp add: bulk_pieces_def bulk_bytes_def)

lemma concat_concat_bulk: "concat (concat (map bulk_pieces ks)) = concat (map bulk_bytes ks)"
  by (induction ks) (simp_all add: concat_bulk_pieces)

section \<open>A client's reader\<close>

text \<open>A line up to its CR LF, and what follows.\<close>

definition read_line :: "bytes \<Rightarrow> (bytes \<times> bytes) option" where
  "read_line bs = (case dropWhile (\<lambda>c. c \<noteq> CR) bs of
     c # d # rest \<Rightarrow> (if d = LF then Some (takeWhile (\<lambda>c. c \<noteq> CR) bs, rest) else None)
   | _ \<Rightarrow> None)"

definition read_int :: "bytes \<Rightarrow> int" where
  "read_int ds = (case ds of [] \<Rightarrow> 0
     | c # cs \<Rightarrow> (if c = 45 then - int (dec_value 0 cs) else int (dec_value 0 ds)))"

definition read_bulk :: "bytes \<Rightarrow> (bytes option \<times> bytes) option" where
  "read_bulk bs = (case bs of [] \<Rightarrow> None
     | c # cs \<Rightarrow> (if c \<noteq> 36 then None else
         case read_line cs of None \<Rightarrow> None
         | Some (l, rest) \<Rightarrow>
             (if read_int l = -1 then Some (None, rest)
              else let n = nat (read_int l) in
                (if length rest < n + 2 \<or> take 2 (drop n rest) \<noteq> crlf then None
                 else Some (Some (take n rest), drop (n + 2) rest)))))"

fun read_bulks :: "nat \<Rightarrow> bytes \<Rightarrow> (bytes list \<times> bytes) option" where
  "read_bulks 0 bs = Some ([], bs)"
| "read_bulks (Suc n) bs = (case read_bulk bs of
     Some (Some x, rest) \<Rightarrow> (case read_bulks n rest of
        Some (xs, rest') \<Rightarrow> Some (x # xs, rest') | None \<Rightarrow> None)
   | _ \<Rightarrow> None)"

definition read_reply :: "bytes \<Rightarrow> (reply \<times> bytes) option" where
  "read_reply bs = (case bs of [] \<Rightarrow> None
     | c # cs \<Rightarrow>
       (if c = 43 then map_option (\<lambda>(l, r). (RSimple l, r)) (read_line cs)
        else if c = 45 then map_option (\<lambda>(l, r). (RError l, r)) (read_line cs)
        else if c = 58 then map_option (\<lambda>(l, r). (RInt (read_int l), r)) (read_line cs)
        else if c = 36 then map_option (\<lambda>(x, r). (case x of None \<Rightarrow> RNil | Some b \<Rightarrow> RBulk b, r)) (read_bulk bs)
        else if c = 42 then (case read_line cs of None \<Rightarrow> None
          | Some (l, r) \<Rightarrow> map_option (\<lambda>(xs, r'). (RArray xs, r')) (read_bulks (nat (read_int l)) r))
        else None))"

text \<open>Lines hold no CR; the lengths are those of objects in memory.\<close>

fun reply_ok :: "reply \<Rightarrow> bool" where
  "reply_ok (RSimple s) \<longleftrightarrow> CR \<notin> set s"
| "reply_ok (RError s) \<longleftrightarrow> CR \<notin> set s"
| "reply_ok (RInt n) \<longleftrightarrow> True"
| "reply_ok (RBulk bs) \<longleftrightarrow> length bs \<le> SIZE_MAX"
| "reply_ok RNil \<longleftrightarrow> True"
| "reply_ok (RArray xs) \<longleftrightarrow> length xs \<le> SIZE_MAX \<and> (\<forall>x\<in>set xs. length x \<le> SIZE_MAX)"

lemma read_line_append:
  assumes "CR \<notin> set l"
  shows "read_line (l @ crlf @ y) = Some (l, y)"
proof -
  have "takeWhile (\<lambda>c. c \<noteq> CR) (l @ CR # LF # y) = l"
    using assms by (subst takeWhile_append2) (auto intro: ccontr)
  moreover have "dropWhile (\<lambda>c. c \<noteq> CR) (l @ CR # LF # y) = CR # LF # y"
    using assms by (subst dropWhile_append2) (auto intro: ccontr)
  ultimately show ?thesis by (simp add: read_line_def crlf_def)
qed

lemma digits_no_cr: "CR \<notin> set (dec_digits n)"
  using dec_digits_digits [of CR n] by (auto simp: is_digit_def CR_def)

lemma digits_hd: "hd (dec_digits n) \<noteq> 45"
proof -
  have "is_digit (hd (dec_digits n))" by (intro dec_digits_digits [of _ n] hd_in_set) simp
  then show ?thesis by (auto simp: is_digit_def)
qed

lemma read_int_digits: "read_int (dec_digits n) = int n"
  using digits_hd [of n] dec_value_digits [of n] by (cases "dec_digits n") (auto simp: read_int_def)

lemma read_int_fmt: "read_int (fmt_d64 n) = n"
  by (auto simp: fmt_d64_def read_int_digits) (auto simp: read_int_def)

lemma fmt_d64_no_cr: "CR \<notin> set (fmt_d64 n)"
  using digits_no_cr by (auto simp: fmt_d64_def CR_def)

lemma fmt_zu_no_cr: "CR \<notin> set (fmt_zu n)"
  using digits_no_cr by (simp add: fmt_zu_def)

lemma read_bulk_append:
  assumes "length bs \<le> SIZE_MAX"
  shows "read_bulk (bulk_bytes bs @ y) = Some (Some bs, y)"
proof -
  have "read_int (fmt_zu (size_of bs)) = int (length bs)"
    using assms by (simp add: fmt_zu_def read_int_digits unat_size_of)
  moreover have "read_line (fmt_zu (size_of bs) @ crlf @ bs @ crlf @ y) =
      Some (fmt_zu (size_of bs), bs @ crlf @ y)"
    by (rule read_line_append [OF fmt_zu_no_cr])
  ultimately show ?thesis
    by (simp add: read_bulk_def bulk_bytes_def Let_def)
qed

lemma read_bulks_append:
  "\<forall>x\<in>set xs. length x \<le> SIZE_MAX \<Longrightarrow>
   read_bulks (length xs) (concat (map bulk_bytes xs) @ y) = Some (xs, y)"
  by (induction xs) (simp_all add: read_bulk_append)

lemma read_reply_encode: "reply_ok r \<Longrightarrow> read_reply (encode_reply r @ y) = Some (r, y)"
proof (cases r)
  case (RBulk bs)
  assume "reply_ok r"
  then have "read_bulk (bulk_bytes bs @ y) = Some (Some bs, y)"
    by (intro read_bulk_append) (simp add: RBulk)
  moreover have "bulk_bytes bs @ y = 36 # fmt_zu (size_of bs) @ crlf @ bs @ crlf @ y"
    by (simp add: bulk_bytes_def)
  ultimately show ?thesis by (simp add: read_reply_def RBulk)
next
  case RNil
  have "cstr ''$-1'' = [36, 45, 49]" by (simp add: cstr_def)
  moreover have "read_line ([45, 49] @ crlf @ y) = Some ([45, 49], y)"
    by (rule read_line_append) (simp add: CR_def)
  moreover have "read_int [45, 49] = -1" by (simp add: read_int_def dec_value_def)
  ultimately show ?thesis by (simp add: read_reply_def read_bulk_def RNil)
next
  case (RArray xs)
  assume "reply_ok r"
  then have "read_bulks (length xs) (concat (map bulk_bytes xs) @ y) = Some (xs, y)"
    and "read_int (fmt_zu (word_of_nat (length xs))) = int (length xs)"
    by (auto simp: RArray fmt_zu_def read_int_digits unat_word_of_nat_size intro!: read_bulks_append)
  then show ?thesis
    by (simp add: RArray read_reply_def read_line_append [OF fmt_zu_no_cr])
qed (auto simp: read_reply_def read_line_append read_line_append [OF fmt_d64_no_cr] read_int_fmt)

end
