(* ===== verification/Wire_Laws.thy ===== *)
theory Wire_Laws
  imports Resp_Props Resp_Reply
begin

text \<open>
  The properties of the wire protocol: the request parser against the reference parser, what it
  promises its caller, round trips with an encoder of requests, and the replies as a client reads
  them.
\<close>

section \<open>Writing a reply\<close>

text \<open>A reply written with the serializers; an array is its header and then its elements.\<close>

fun write_bulks :: "mem \<Rightarrow> bytebuf \<Rightarrow> bytes list \<Rightarrow> rc \<times> mem \<times> bytebuf" where
  "write_bulks m b [] = (RC_OK, m, b)"
| "write_bulks m b (x # xs) =
     (case resp_reply_bulk m b x of
        (RC_ERR, m1, b1) \<Rightarrow> (RC_ERR, m1, b1)
      | (RC_OK, m1, b1) \<Rightarrow> write_bulks m1 b1 xs)"

fun write_reply :: "mem \<Rightarrow> bytebuf \<Rightarrow> reply \<Rightarrow> rc \<times> mem \<times> bytebuf" where
  "write_reply m b (RSimple s) = resp_reply_simple_string m b s"
| "write_reply m b (RError s) = resp_reply_error m b s"
| "write_reply m b (RInt n) = resp_reply_integer m b n"
| "write_reply m b (RBulk x) = resp_reply_bulk m b x"
| "write_reply m b RNil = resp_reply_nil m b"
| "write_reply m b (RArray xs) =
     (case resp_reply_array_header m b (word_of_nat (length xs)) of
        (RC_ERR, m1, b1) \<Rightarrow> (RC_ERR, m1, b1)
      | (RC_OK, m1, b1) \<Rightarrow> write_bulks m1 b1 xs)"

text \<open>The replies the serializers are made for: C strings hold no NUL, integers are 64-bit.\<close>

fun sendable :: "reply \<Rightarrow> bool" where
  "sendable (RSimple s) = (0 \<notin> set s \<and> CR \<notin> set s \<and> length s \<le> SIZE_MAX)"
| "sendable (RError s) = (0 \<notin> set s \<and> CR \<notin> set s \<and> length s \<le> SIZE_MAX)"
| "sendable (RInt n) = int64_range n"
| "sendable (RBulk x) = (length x \<le> SIZE_MAX)"
| "sendable RNil = True"
| "sendable (RArray xs) = (length xs \<le> SIZE_MAX \<and> (\<forall>x\<in>set xs. length x \<le> SIZE_MAX))"

fun reply_pieces :: "reply \<Rightarrow> bytes list" where
  "reply_pieces (RSimple s) = simple_pieces s"
| "reply_pieces (RError s) = error_pieces s"
| "reply_pieces (RInt n) = [58 # fmt_d64 n @ crlf]"
| "reply_pieces (RBulk x) = bulk_pieces x"
| "reply_pieces RNil = [cstr ''$-1'' @ crlf]"
| "reply_pieces (RArray xs) = [42 # fmt_zu (word_of_nat (length xs)) @ crlf] @ concat (map bulk_pieces xs)"

lemma write_bulks_pieces:
  "write_bulks m b xs = write_pieces bytebuf_append m b (concat (map bulk_pieces xs))"
  by (induction xs arbitrary: m b)
     (simp_all add: write_pieces_append reply_bulk_pieces del: write_pieces.simps(2) split: prod.splits rc.splits)

lemma write_reply_pieces:
  assumes "sendable r"
  shows "write_reply m b r = write_pieces bytebuf_append m b (reply_pieces r)"
proof (cases r)
  case (RArray xs)
  show ?thesis
    unfolding RArray write_reply.simps reply_pieces.simps write_pieces_append
    by (simp only: reply_array_pieces write_bulks_pieces)
qed (use assms in \<open>simp_all only: write_reply.simps reply_pieces.simps sendable.simps
      reply_simple_pieces reply_error_pieces reply_bulk_pieces reply_nil_pieces reply_integer_pieces\<close>)

lemma concat_reply_pieces: "sendable r \<Longrightarrow> concat (reply_pieces r) = encode_reply r"
  by (cases r) (simp_all add: simple_pieces_def error_pieces_def c_chars_id concat_bulk_pieces concat_concat_bulk)

lemma reply_pieces_size:
  assumes "sendable r"
  shows "\<forall>p\<in>set (reply_pieces r). length p \<le> SIZE_MAX"
proof (cases r)
  case (RInt n)
  with assms show ?thesis using fmt_d64_length [of n] by (simp add: SIZE_MAX_def)
next
  case (RArray xs)
  with assms show ?thesis
    using fmt_zu_length [of "word_of_nat (length xs)"] bulk_pieces_size by (fastforce simp: SIZE_MAX_def)
next
  case (RBulk x)
  with assms show ?thesis using bulk_pieces_size by simp
qed (use assms c_chars_length in \<open>auto simp: simple_pieces_def error_pieces_def cstr_def SIZE_MAX_def intro: order_trans\<close>)

lemma sendable_reply_ok: "sendable r \<Longrightarrow> reply_ok r"
  by (cases r) simp_all

section \<open>Properties of the parser\<close>

text \<open>
  C12. On an input whose first \<open>len\<close> bytes may be read, \<open>resp_parse_request\<close> decides exactly as
  the reference parser does on these \<open>len\<close> bytes: the same status, and on success the same
  arguments and the same number of bytes consumed. So it depends on no byte outside them.
\<close>

theorem parser_refines_reference:
  assumes "len \<le> length input" "len \<le> OBJ_MAX"
  shows "map_status (request_view input) (resp_parse_request input len) = ref_request (take len input)"
  by (rule resp_parse_request_ref [OF assms])

theorem parser_refines_reference_witness:
  "map_status (request_view (cstr ''?'' @ crlf @ [0])) (resp_parse_request (cstr ''?'' @ crlf @ [0]) 3) =
     RESP_OK ([cstr ''?''], 3)"
proof -
  have "ref_request (cstr ''?'' @ crlf) = RESP_OK ([cstr ''?''], 3)"
    using ref_request_inline [of "[cstr ''?'']" True "[]"]
    by (simp add: word_ok_def cstr_def is_blank_def CR_def LF_def RESP_MAX_ARGC_def RESP_MAX_INLINE_LEN_def)
  moreover have "take 3 (cstr ''?'' @ crlf @ [0]) = cstr ''?'' @ crlf" by (simp add: cstr_def crlf_def)
  ultimately show ?thesis
    using parser_refines_reference [of 3 "cstr ''?'' @ crlf @ [0]"] by (simp add: cstr_def OBJ_MAX_def)
qed

text \<open>
  C26. When \<open>resp_parse_request\<close> succeeds it gives between 1 and 32 arguments, each a slice
  that lies before the end of the consumed bytes, and it consumes at least one and at most \<open>len\<close>
  bytes: the caller makes progress and reads no byte it did not receive.
\<close>

theorem parser_bounds:
  assumes "resp_parse_request input len = RESP_OK r" "len \<le> length input" "len \<le> OBJ_MAX"
  shows "0 < length (rq_args r) \<and> length (rq_args r) \<le> RESP_MAX_ARGC \<and>
    (\<forall>s\<in>set (rq_args r). sl_at s + sl_len s < rq_consumed r) \<and> 0 < rq_consumed r \<and> rq_consumed r \<le> len"
  using resp_parse_request_shape [OF assms] by (simp_all add: slice_within_def)

theorem parser_bounds_witness:
  "\<exists>r. resp_parse_request (encode_request [cstr ''PING'']) (length (encode_request [cstr ''PING''])) = RESP_OK r \<and>
     0 < rq_consumed r \<and> length (rq_args r) \<le> RESP_MAX_ARGC"
proof -
  let ?i = "encode_request [cstr ''PING'']"
  have ok: "request_ok [cstr ''PING'']"
    by (simp add: request_ok_def RESP_MAX_ARGC_def RESP_MAX_BULK_LEN_def cstr_def)
  have len: "length ?i \<le> OBJ_MAX"
    by (simp add: encode_request_def encode_bulk_def cstr_def OBJ_MAX_def)
  have "map_status (request_view ?i) (resp_parse_request ?i (length ?i)) = RESP_OK ([cstr ''PING''], length ?i)"
    using resp_parse_request_ref [of "length ?i" ?i] len ref_request_encode [OF ok, of "[]"] by simp
  then obtain r where r: "resp_parse_request ?i (length ?i) = RESP_OK r"
    by (cases "resp_parse_request ?i (length ?i)") auto
  from parser_bounds [OF r _ len] r show ?thesis by auto
qed

text \<open>
  C25. Once \<open>resp_parse_request\<close> decides (a request or a protocol error) on the bytes received
  so far, bytes that arrive later do not change the decision: how the stream is cut into reads
  does not matter.
\<close>

theorem parser_decision_final:
  assumes "resp_parse_request w (length w) \<noteq> RESP_NEED_MORE" "length (w @ later) \<le> OBJ_MAX"
  shows "map_status (request_view (w @ later)) (resp_parse_request (w @ later) (length (w @ later))) =
    map_status (request_view w) (resp_parse_request w (length w))"
proof -
  have w: "map_status (request_view w) (resp_parse_request w (length w)) = ref_request w"
    using resp_parse_request_ref [of "length w" w] assms(2) by simp
  with assms(1) have "ref_request w \<noteq> RESP_NEED_MORE" by (cases "resp_parse_request w (length w)") auto
  then have "ref_request (w @ later) = ref_request w" by (rule ref_request_final)
  with w show ?thesis using resp_parse_request_ref [of "length (w @ later)" "w @ later"] assms(2) by simp
qed

theorem parser_decision_final_witness:
  "resp_parse_request [LF] 1 = RESP_PROTOCOL_ERR \<and>
   map_status (request_view ([LF] @ [0])) (resp_parse_request ([LF] @ [0]) 2) = RESP_PROTOCOL_ERR"
proof -
  have "ref_request [LF] = RESP_PROTOCOL_ERR"
    by (simp add: ref_request_def ref_inline_def strip_cr_def LF_def RESP_MAX_INLINE_LEN_def)
  then have p: "resp_parse_request [LF] (length [LF]) = RESP_PROTOCOL_ERR"
    using resp_parse_request_ref [of 1 "[LF]"]
    by (cases "resp_parse_request [LF] (length [LF])") (simp_all add: OBJ_MAX_def)
  with parser_decision_final [of "[LF]" "[0]"] show ?thesis by (simp add: OBJ_MAX_def numeral_2_eq_2)
qed

text \<open>
  C16. Parsing the multi-bulk encoding of a request, whatever follows it in the buffer, gives
  back the request and consumes exactly its encoding.
\<close>

theorem parser_inverts_encoding:
  assumes "request_ok as" "length (encode_request as @ later) \<le> OBJ_MAX"
  shows "map_status (request_view (encode_request as @ later))
      (resp_parse_request (encode_request as @ later) (length (encode_request as @ later))) =
    RESP_OK (as, length (encode_request as))"
  using resp_parse_request_ref [of "length (encode_request as @ later)" "encode_request as @ later"]
    ref_request_encode [OF assms(1), of later] assms(2) by simp

theorem parser_inverts_encoding_witness:
  "map_status (request_view (encode_request [[0, 10], []] @ [42]))
      (resp_parse_request (encode_request [[0, 10], []] @ [42]) (length (encode_request [[0, 10], []] @ [42]))) =
    RESP_OK ([[0, 10], []], length (encode_request [[0, 10], []]))"
  by (rule parser_inverts_encoding)
     (simp_all add: request_ok_def RESP_MAX_ARGC_def RESP_MAX_BULK_LEN_def encode_request_def encode_bulk_def OBJ_MAX_def)

text \<open>
  On every proper prefix of the encoding of a request the parser asks for more bytes: a
  request that arrives in pieces is never rejected and never executed early.
\<close>

theorem parser_waits_on_prefix:
  assumes "request_ok as" "encode_request as = w @ v" "v \<noteq> []" "length w \<le> OBJ_MAX"
  shows "resp_parse_request w (length w) = RESP_NEED_MORE"
  using resp_parse_request_ref [of "length w" w] ref_request_prefix [OF assms(1-3)] assms(4)
  by (cases "resp_parse_request w (length w)") auto

theorem parser_waits_on_prefix_witness:
  "resp_parse_request (butlast (encode_request [[97], [98]])) (length (butlast (encode_request [[97], [98]]))) =
     RESP_NEED_MORE"
proof (rule parser_waits_on_prefix [of "[[97], [98]]" _ "[last (encode_request [[97], [98]])]"])
  show "length (butlast (encode_request [[97], [98]])) \<le> OBJ_MAX"
    by (simp add: encode_request_def encode_bulk_def OBJ_MAX_def)
qed (simp_all add: request_ok_def RESP_MAX_ARGC_def RESP_MAX_BULK_LEN_def encode_request_def)



section \<open>Properties of the replies\<close>

text \<open>
  C17. A \<open>sendable\<close> reply that a serializer wrote completely (status \<open>0\<close>) is read back by a client as that reply, and the
  client is left with exactly what was sent after it: such replies can be read one after the other from the
  stream. \<open>sendable\<close> asks that a status or error text has no CR and no NUL, an
  integer has 64 bits, and lengths are those of objects in memory; the serializers do not check the
  first, and the echo of an unknown command name can violate it.
\<close>

theorem reply_read_back:
  assumes "bb_inv b" "sendable r" "write_reply m b r = (RC_OK, m', b')"
  shows "\<exists>w. bb_contents b' = bb_contents b @ w \<and> (\<forall>later. read_reply (w @ later) = Some (r, later))"
proof (intro exI conjI allI)
  show "bb_contents b' = bb_contents b @ encode_reply r"
    using bb.write_pieces_ok [OF assms(1) reply_pieces_size [OF assms(2)]] assms(2,3)
    by (simp add: write_reply_pieces concat_reply_pieces)
  show "read_reply (encode_reply r @ later) = Some (r, later)" for later
    by (rule read_reply_encode [OF sendable_reply_ok [OF assms(2)]])
qed

theorem reply_read_back_witness:
  "\<exists>m' b' w. write_reply (mem_init []) bytebuf_init (RArray [[97], []]) = (RC_OK, m', b') \<and>
     bb_contents b' = w \<and> read_reply (w @ [1]) = Some (RArray [[97], []], [1])"
proof -
  let ?r = "RArray [[97], []]"
  have s: "sendable ?r" by (simp add: SIZE_MAX_def)
  obtain rc m' b' where w: "write_reply (mem_init []) bytebuf_init ?r = (rc, m', b')" by (metis prod_cases3)
  have "length (concat (reply_pieces ?r)) \<le> 1000"
    by (simp only: concat_reply_pieces [OF s]) (simp add: bulk_bytes_def fmt_zu_def size_of_def)
  then have "rc = RC_OK"
    using bb.write_pieces_room [OF bytebuf_init_props(1) reply_pieces_size [OF s], of "mem_init []" rc m' b']
      w write_reply_pieces [OF s] by (simp add: BUF_LIMIT_def del: reply_pieces.simps write_reply.simps)
  from reply_read_back [OF bytebuf_init_props(1) s w [unfolded this]] w this show ?thesis by auto
qed

text \<open>
  A serializer succeeds whenever nothing fails to be allocated and the reply fits the
  buffer; and when it fails, what it has added is a prefix of the reply, so that the bytes before
  it are intact.
\<close>

theorem reply_all_or_prefix:
  assumes "bb_inv b" "sendable r"
  shows "case write_reply m b r of (rc, m', b') \<Rightarrow>
    bb_inv b' \<and>
    (mem_plenty m \<and> length (bb_contents b) + length (encode_reply r) \<le> unat BYTEBUF_MAX \<longrightarrow> rc = RC_OK) \<and>
    (\<exists>p s. encode_reply r = p @ s \<and> bb_contents b' = bb_contents b @ p \<and> (rc = RC_OK \<longrightarrow> s = []))"
proof -
  obtain rc m' b' where w: "write_reply m b r = (rc, m', b')" by (metis prod_cases3)
  note P = w [unfolded write_reply_pieces [OF assms(2)]]
  note sz = reply_pieces_size [OF assms(2)]
  have "\<exists>p s. encode_reply r = p @ s \<and> bb_contents b' = bb_contents b @ p \<and> (rc = RC_OK \<longrightarrow> s = [])"
  proof (cases rc)
    case RC_OK
    with bb.write_pieces_ok [OF assms(1) sz] P concat_reply_pieces [OF assms(2)] show ?thesis by auto
  next
    case RC_ERR
    obtain k where k: "bb_contents b' = bb_contents b @ concat (take k (reply_pieces r))"
      using bb.write_pieces_prefix [OF assms(1) sz P] by blast
    have "encode_reply r = concat (take k (reply_pieces r)) @ concat (drop k (reply_pieces r))"
      by (metis append_take_drop_id concat_append concat_reply_pieces [OF assms(2)])
    with k RC_ERR show ?thesis by blast
  qed
  with bb.write_pieces_inv [OF assms(1) sz P] bb.write_pieces_room [OF assms(1) sz _ _ P]
    concat_reply_pieces [OF assms(2)] w show ?thesis by simp
qed

theorem reply_all_or_prefix_witness:
  "case write_reply (mem_init []) bytebuf_init (RInt (- 7)) of (rc, m', b') \<Rightarrow>
     rc = RC_OK \<and> bb_contents b' = encode_reply (RInt (- 7))"
proof -
  have "sendable (RInt (- 7))" by (simp add: int64_range_def INT64_MIN_def INT64_MAX_def)
  from reply_all_or_prefix [OF bytebuf_init_props(1) this, of "mem_init []"] show ?thesis
    by (auto simp: fmt_d64_def BUF_LIMIT_def split: prod.splits)
qed

end
