(* ===== verification/Glob.thy ===== *)
theory Glob
  imports Redis_Base
begin

text \<open>
  The glob matcher of \<open>command.c\<close>, used by \<open>KEYS\<close>. A pattern is also read as a list of items,
  whose meaning is an inductive relation; the theory shows that the matcher, with its
  collapsed stars, its early exits and its class scanning, decides that relation.
\<close>

section \<open>The matcher\<close>

definition CH_STAR :: byte where "CH_STAR = 42"
definition CH_QUEST :: byte where "CH_QUEST = 63"
definition CH_OPEN :: byte where "CH_OPEN = 91"
definition CH_CLOSE :: byte where "CH_CLOSE = 93"
definition CH_CARET :: byte where "CH_CARET = 94"
definition CH_BANG :: byte where "CH_BANG = 33"
definition CH_ESC :: byte where "CH_ESC = 92"

text \<open>
  The loop over the members of a class, up to its \<open>]\<close> or the end of the pattern: the pattern
  there, and whether the first byte of \<open>str\<close> was listed.
\<close>

function class_loop :: "bytes \<Rightarrow> bytes \<Rightarrow> bool \<Rightarrow> bytes \<times> bool" where
  "class_loop pat str matched =
     (if pat \<noteq> [] \<and> hd pat \<noteq> CH_CLOSE then
        (let p = (if hd pat = CH_ESC \<and> length pat > 1 then tl pat else pat)
         in class_loop (tl p) str (matched \<or> (str \<noteq> [] \<and> hd p = hd str)))
      else (pat, matched))"
  by pat_completeness auto
termination by (relation "measure (\<lambda>(pat, str, matched). length pat)") auto

declare class_loop.simps [simp del]

lemma class_loop_length: "length (fst (class_loop pat str matched)) \<le> length pat"
proof (induction pat str matched rule: class_loop.induct)
  case (1 pat str matched)
  show ?case
  proof (cases "pat \<noteq> [] \<and> hd pat \<noteq> CH_CLOSE")
    case True
    with "1.IH" [OF True refl] show ?thesis
      by (subst class_loop.simps) (auto simp: Let_def)
  qed (subst class_loop.simps, auto)
qed

function glob_match :: "bytes \<Rightarrow> bytes \<Rightarrow> bool" where
  "glob_match pat str =
     (if pat = [] then str = []
      else let pc = hd pat in
        if pc = CH_STAR then
          (let rest = dropWhile (\<lambda>c. c = CH_STAR) pat
           in if rest = [] then True
              else list_ex (\<lambda>k. glob_match rest (drop k str)) [0..<Suc (length str)])
        else if pc = CH_QUEST then
          (if str = [] then False else glob_match (tl pat) (tl str))
        else if pc = CH_OPEN then
          (let p1 = tl pat;
               negate = (p1 \<noteq> [] \<and> (hd p1 = CH_CARET \<or> hd p1 = CH_BANG));
               p2 = (if negate then tl p1 else p1);
               (p3, matched) = class_loop p2 str False
           in if p3 = [] then False
              else if \<not> (if negate then \<not> matched else matched) \<or> str = [] then False
              else glob_match (tl p3) (tl str))
        else
          (let p1 = (if pc = CH_ESC \<and> length pat > 1 then tl pat else pat)
           in if str = [] \<or> hd p1 \<noteq> hd str then False
              else glob_match (tl p1) (tl str)))"
  by pat_completeness auto
termination
proof (relation "measure (\<lambda>(pat, str). length pat)")
  fix pat str :: bytes and pc rest k
  assume "pat \<noteq> []" "pc = hd pat" "pc = CH_STAR" "rest = dropWhile (\<lambda>c. c = CH_STAR) pat"
  then show "((rest, drop k str), (pat, str)) \<in> measure (\<lambda>(pat, str). length pat)"
    by (cases pat) (auto simp: le_imp_less_Suc length_dropWhile_le)
next
  fix pat str :: bytes and pc p1 negate p2 x p3 matched
  assume "pat \<noteq> []" "p1 = tl pat" "p2 = (if negate then tl p1 else p1)" "x = class_loop p2 str False"
    "(p3, matched) = x" "p3 \<noteq> []"
  moreover have "length (fst (class_loop p2 str False)) \<le> length p2" by (rule class_loop_length)
  ultimately have "length p3 < length pat" "length (tl p3) < length p3"
    by (cases pat; auto simp: prod_eq_iff split: if_splits)+
  then show "((tl p3, tl str), (pat, str)) \<in> measure (\<lambda>(pat, str). length pat)" by simp
qed auto

declare glob_match.simps [simp del]

section \<open>The meaning of a pattern\<close>

text \<open>\<open>Broken\<close> is a class without its \<open>]\<close>; it matches nothing.\<close>

datatype item = Lit byte | AnyOne | Star | Class bool "bytes" | Broken

text \<open>The members of a class and the pattern after its \<open>]\<close>; \<open>None\<close> when it is not closed.\<close>

function class_items :: "bytes \<Rightarrow> (bytes \<times> bytes) option" where
  "class_items [] = None"
| "class_items (p # ps) =
     (if p = CH_CLOSE then Some ([], ps)
      else if p = CH_ESC \<and> ps \<noteq> [] then
        map_option (\<lambda>(cs, rest). (hd ps # cs, rest)) (class_items (tl ps))
      else map_option (\<lambda>(cs, rest). (p # cs, rest)) (class_items ps))"
  by pat_completeness auto
termination by (relation "measure length") auto

lemma class_items_length: "class_items p = Some (cs, rest) \<Longrightarrow> length rest < length p"
  by (induction p arbitrary: cs rule: class_items.induct) (fastforce split: if_splits)+

function compile :: "bytes \<Rightarrow> item list" where
  "compile [] = []"
| "compile (p # ps) =
     (if p = CH_STAR then Star # compile ps
      else if p = CH_QUEST then AnyOne # compile ps
      else if p = CH_OPEN then
        (let negate = (ps \<noteq> [] \<and> (hd ps = CH_CARET \<or> hd ps = CH_BANG))
         in case class_items (if negate then tl ps else ps) of
              None \<Rightarrow> [Broken]
            | Some (cs, rest) \<Rightarrow> Class negate cs # compile rest)
      else if p = CH_ESC \<and> ps \<noteq> [] then Lit (hd ps) # compile (tl ps)
      else Lit p # compile ps)"
  by pat_completeness auto
termination
  by (relation "measure length") (auto split: if_splits dest!: class_items_length)

inductive matches :: "item list \<Rightarrow> bytes \<Rightarrow> bool" where
  m_nil: "matches [] []"
| m_lit: "matches its s \<Longrightarrow> matches (Lit c # its) (c # s)"
| m_any: "matches its s \<Longrightarrow> matches (AnyOne # its) (c # s)"
| m_star: "matches its s \<Longrightarrow> matches (Star # its) (pre @ s)"
| m_class: "matches its s \<Longrightarrow> (c \<in> set cs) \<noteq> negate \<Longrightarrow> matches (Class negate cs # its) (c # s)"

inductive_simps matches_Nil: "matches [] s"
inductive_simps matches_Lit: "matches (Lit c # its) s"
inductive_simps matches_AnyOne: "matches (AnyOne # its) s"
inductive_simps matches_Star: "matches (Star # its) s"
inductive_simps matches_Class: "matches (Class negate cs # its) s"
inductive_simps matches_Broken: "matches (Broken # its) s"

lemmas matches_simps = matches_Nil matches_Lit matches_AnyOne matches_Star matches_Class matches_Broken

section \<open>The matcher decides the meaning\<close>

lemma matches_Star_drop: "matches (Star # its) s \<longleftrightarrow> (\<exists>k \<le> length s. matches its (drop k s))"
proof
  assume "matches (Star # its) s"
  then obtain pre t where "s = pre @ t" "matches its t" by (auto simp: matches_Star)
  then show "\<exists>k \<le> length s. matches its (drop k s)" by (intro exI [of _ "length pre"]) simp
next
  assume "\<exists>k \<le> length s. matches its (drop k s)"
  then obtain k where "matches its (drop k s)" by blast
  then have "matches (Star # its) (take k s @ drop k s)" by (rule m_star)
  then show "matches (Star # its) s" by simp
qed

text \<open>Runs of stars collapse, and a final star accepts everything.\<close>

lemma matches_Star_Star: "matches (Star # Star # its) s \<longleftrightarrow> matches (Star # its) s"
  by (simp add: matches_Star) (metis append.assoc append_Nil)

lemma compile_stars:
  "matches (Star # compile ps) s \<longleftrightarrow> matches (Star # compile (dropWhile (\<lambda>c. c = CH_STAR) ps)) s"
  by (induction ps) (auto simp: matches_Star_Star)

lemma class_loop_items:
  "class_loop pat str matched =
    (case class_items pat of
       None \<Rightarrow> ([], snd (class_loop pat str matched))
     | Some (cs, rest) \<Rightarrow> (CH_CLOSE # rest, matched \<or> (str \<noteq> [] \<and> hd str \<in> set cs)))"
proof (induction pat str matched rule: class_loop.induct)
  case (1 pat str matched)
  show ?case
  proof (cases "pat \<noteq> [] \<and> hd pat \<noteq> CH_CLOSE")
    case False
    then show ?thesis by (cases pat) (auto simp: class_loop.simps [of "[]"] class_loop.simps [of "CH_CLOSE # xs" for xs])
  next
    case True
    define p where "p = (if hd pat = CH_ESC \<and> length pat > 1 then tl pat else pat)"
    have step: "class_loop pat str matched = class_loop (tl p) str (matched \<or> (str \<noteq> [] \<and> hd p = hd str))"
      using True by (subst class_loop.simps) (simp add: p_def Let_def)
    have items: "class_items pat = map_option (\<lambda>(cs, rest). (hd p # cs, rest)) (class_items (tl p))"
      using True by (cases pat) (auto simp: p_def)
    show ?thesis
      using "1.IH" [OF True p_def] unfolding step items
      by (cases "class_items (tl p)") auto
  qed
qed

text \<open>The matcher, one equation per kind of pattern.\<close>

lemmas glob_chars = CH_STAR_def CH_QUEST_def CH_OPEN_def CH_CLOSE_def CH_CARET_def CH_BANG_def CH_ESC_def

definition class_neg :: "bytes \<Rightarrow> bool" where
  "class_neg ps \<longleftrightarrow> ps \<noteq> [] \<and> (hd ps = CH_CARET \<or> hd ps = CH_BANG)"

definition class_body :: "bytes \<Rightarrow> bytes" where
  "class_body ps = (if class_neg ps then tl ps else ps)"

definition lit_tail :: "byte \<Rightarrow> bytes \<Rightarrow> bytes" where
  "lit_tail p ps = (if p = CH_ESC \<and> ps \<noteq> [] then ps else p # ps)"

lemma glob_match_Nil: "glob_match [] str \<longleftrightarrow> str = []"
  by (subst glob_match.simps) simp

lemma list_ex_upto: "list_ex P [0..<Suc n] \<longleftrightarrow> (\<exists>k \<le> n. P k)"
  by (simp only: list_ex_iff set_upt Bex_def atLeastLessThan_iff less_Suc_eq_le) simp

lemma glob_match_star:
  "glob_match (CH_STAR # ps) str \<longleftrightarrow>
     dropWhile (\<lambda>c. c = CH_STAR) ps = []
     \<or> (\<exists>k \<le> length str. glob_match (dropWhile (\<lambda>c. c = CH_STAR) ps) (drop k str))"
  (is "?L \<longleftrightarrow> ?r = [] \<or> ?E")
proof -
  have "?L \<longleftrightarrow> (if ?r = [] then True
          else list_ex (\<lambda>k. glob_match ?r (drop k str)) [0..<Suc (length str)])"
    by (subst glob_match.simps) (simp only: Let_def list.sel list.simps dropWhile.simps refl if_True if_False)
  also have "\<dots> \<longleftrightarrow> ?r = [] \<or> ?E"
    by (simp only: list_ex_upto if_bool_eq_disj simp_thms) blast
  finally show ?thesis .
qed

lemma glob_match_quest: "glob_match (CH_QUEST # ps) str \<longleftrightarrow> str \<noteq> [] \<and> glob_match ps (tl str)"
  by (subst glob_match.simps) (simp add: glob_chars)

lemma glob_match_open:
  "glob_match (CH_OPEN # ps) str \<longleftrightarrow>
     (case class_items (class_body ps) of
        None \<Rightarrow> False
      | Some (cs, rest) \<Rightarrow> str \<noteq> [] \<and> (hd str \<in> set cs) \<noteq> class_neg ps \<and> glob_match rest (tl str))"
proof -
  have ne: "CH_OPEN \<noteq> CH_STAR" "CH_OPEN \<noteq> CH_QUEST" by (simp_all add: glob_chars)
  obtain p3 matched where cl: "class_loop (class_body ps) str False = (p3, matched)" by fastforce
  have "glob_match (CH_OPEN # ps) str \<longleftrightarrow> (if p3 = [] then False
          else if \<not> (if class_neg ps then \<not> matched else matched) \<or> str = [] then False
          else glob_match (tl p3) (tl str))"
    using cl ne
    by (subst glob_match.simps)
       (simp add: Let_def class_neg_def [symmetric] class_body_def [symmetric])
  then show ?thesis
    using class_loop_items [of "class_body ps" str False] cl
    by (cases "class_items (class_body ps)") auto
qed

lemma glob_match_lit:
  assumes "p \<noteq> CH_STAR" "p \<noteq> CH_QUEST" "p \<noteq> CH_OPEN"
  shows "glob_match (p # ps) str \<longleftrightarrow>
     str \<noteq> [] \<and> hd str = hd (lit_tail p ps) \<and> glob_match (tl (lit_tail p ps)) (tl str)"
  using assms by (subst glob_match.simps) (auto simp: Let_def lit_tail_def)

lemma compile_open:
  "compile (CH_OPEN # ps) = (case class_items (class_body ps) of
     None \<Rightarrow> [Broken] | Some (cs, rest) \<Rightarrow> Class (class_neg ps) cs # compile rest)"
proof -
  have ne: "CH_OPEN \<noteq> CH_STAR" "CH_OPEN \<noteq> CH_QUEST" by (simp_all add: glob_chars)
  then show ?thesis
    by (simp add: Let_def class_neg_def [symmetric] class_body_def [symmetric])
qed

lemma compile_lit:
  assumes "p \<noteq> CH_STAR" "p \<noteq> CH_QUEST" "p \<noteq> CH_OPEN"
  shows "compile (p # ps) = Lit (hd (lit_tail p ps)) # compile (tl (lit_tail p ps))"
  using assms by (auto simp: lit_tail_def)

lemma class_body_length: "length (class_body ps) \<le> length ps"
  by (simp add: class_body_def)

lemma lit_tail_length: "length (tl (lit_tail p ps)) \<le> length ps"
  by (simp add: lit_tail_def)

text \<open>The two long cases, given the claim for shorter patterns.\<close>

lemma star_matches:
  assumes IH: "\<And>q s. length q \<le> length ps \<Longrightarrow> glob_match q s \<longleftrightarrow> matches (compile q) s"
  shows "glob_match (CH_STAR # ps) str \<longleftrightarrow> matches (compile (CH_STAR # ps)) str"
proof -
  let ?rest = "dropWhile (\<lambda>c. c = CH_STAR) ps"
  have m: "matches (compile (CH_STAR # ps)) str \<longleftrightarrow> matches (Star # compile ?rest) str"
    using compile_stars [of ps str] by simp
  have g: "glob_match (CH_STAR # ps) str \<longleftrightarrow> ?rest = [] \<or> (\<exists>k \<le> length str. matches (compile ?rest) (drop k str))"
    using IH [OF length_dropWhile_le, of "\<lambda>c. c = CH_STAR"] by (simp add: glob_match_star)
  have all: "matches (Star # []) str" using m_star [OF m_nil, of str] by simp
  show ?thesis
  proof (cases "?rest = []")
    case True
    with m g all show ?thesis by simp
  next
    case False
    with m g show ?thesis by (simp only: matches_Star_drop simp_thms)
  qed
qed

lemma open_matches:
  assumes IH: "\<And>q s. length q \<le> length ps \<Longrightarrow> glob_match q s \<longleftrightarrow> matches (compile q) s"
  shows "glob_match (CH_OPEN # ps) str \<longleftrightarrow> matches (compile (CH_OPEN # ps)) str"
proof (cases "class_items (class_body ps)")
  case None
  then show ?thesis by (simp add: glob_match_open compile_open matches_Broken del: compile.simps)
next
  case (Some x)
  obtain cs rest where x: "x = (cs, rest)" by fastforce
  with Some class_items_length [of "class_body ps" cs rest] class_body_length [of ps]
  have "length rest \<le> length ps" by simp
  with Some x IH [of rest] show ?thesis
    by (cases str) (auto simp: glob_match_open compile_open matches_Class simp del: compile.simps)
qed

lemma glob_match_matches: "glob_match pat str \<longleftrightarrow> matches (compile pat) str"
proof (induction pat arbitrary: str rule: length_induct)
  case (1 pat)
  show ?case
  proof (cases pat)
    case Nil
    then show ?thesis by (simp add: glob_match_Nil matches_Nil)
  next
    case (Cons p ps)
    then have IH: "glob_match q s \<longleftrightarrow> matches (compile q) s" if "length q \<le> length ps" for q s
      using that "1.IH" by simp
    consider (star) "p = CH_STAR" | (quest) "p = CH_QUEST" | (open_) "p = CH_OPEN"
      | (lit) "p \<noteq> CH_STAR" "p \<noteq> CH_QUEST" "p \<noteq> CH_OPEN" by blast
    then show ?thesis
    proof cases
      case star
      show ?thesis unfolding Cons star by (rule star_matches [OF IH])
    next
      case quest
      have "compile pat = AnyOne # compile ps" using Cons quest by (simp add: glob_chars)
      with Cons quest IH [of ps] show ?thesis
        by (cases str) (auto simp: glob_match_quest matches_AnyOne)
    next
      case open_
      show ?thesis unfolding Cons open_ by (rule open_matches [OF IH])
    next
      case lit
      with Cons IH [OF lit_tail_length [of p ps]] show ?thesis
        by (cases str) (auto simp: glob_match_lit compile_lit matches_Lit simp del: compile.simps)
    qed
  qed
qed

section \<open>Patterns without metacharacters\<close>

definition plain_char :: "byte \<Rightarrow> bool" where
  "plain_char c \<longleftrightarrow> c \<noteq> CH_STAR \<and> c \<noteq> CH_QUEST \<and> c \<noteq> CH_OPEN \<and> c \<noteq> CH_ESC"

lemma compile_plain: "\<forall>c\<in>set pat. plain_char c \<Longrightarrow> compile pat = map Lit pat"
  by (induction pat) (auto simp: plain_char_def)

lemma matches_map_Lit: "matches (map Lit w) s \<longleftrightarrow> s = w"
  by (induction w arbitrary: s) (auto simp: matches_Nil matches_Lit)

lemma glob_match_plain: "\<forall>c\<in>set pat. plain_char c \<Longrightarrow> glob_match pat s \<longleftrightarrow> s = pat"
  by (simp add: glob_match_matches compile_plain matches_map_Lit)

lemma glob_match_all: "glob_match [CH_STAR] s"
  by (simp add: glob_match_star)

end
