(* ===== verification/Command.thy ===== *)
theory Command
  imports Hashtable Resp_Reply Glob
begin

text \<open>
  The command layer of \<open>command.c\<close>: the helpers on argument bytes, the seventeen handlers, the
  dispatch table and \<open>command_execute\<close>. A request is the list of its arguments' bytes (what the
  slices of the parsed request denote), and a handler maps the context (allocator, store and
  reply buffer) to its status and the context it leaves. Borrowed pointers into the store are
  the bytes they point to when they are read.
\<close>

section \<open>Context\<close>

record command_ctx =
  c_mem :: mem
  c_store :: hashtable
  c_out :: bytebuf

type_synonym handler = "command_ctx \<Rightarrow> bytes list \<Rightarrow> rc \<times> command_ctx"

text \<open>A reply: the calls of the serializers on the buffer of the context.\<close>

definition on_out ::
  "(mem \<Rightarrow> bytebuf \<Rightarrow> rc \<times> mem \<times> bytebuf) \<Rightarrow> command_ctx \<Rightarrow> rc \<times> command_ctx" where
  "on_out f ctx = (case f (c_mem ctx) (c_out ctx) of
     (r, m', out') \<Rightarrow> (r, ctx\<lparr>c_mem := m', c_out := out'\<rparr>))"

definition reply_simple :: "string \<Rightarrow> command_ctx \<Rightarrow> rc \<times> command_ctx" where
  "reply_simple s = on_out (\<lambda>m out. resp_reply_simple_string m out (cstr s))"

definition reply_error :: "bytes \<Rightarrow> command_ctx \<Rightarrow> rc \<times> command_ctx" where
  "reply_error msg = on_out (\<lambda>m out. resp_reply_error m out msg)"

definition reply_integer :: "int \<Rightarrow> command_ctx \<Rightarrow> rc \<times> command_ctx" where
  "reply_integer n = on_out (\<lambda>m out. resp_reply_integer m out n)"

definition reply_bulk :: "bytes \<Rightarrow> command_ctx \<Rightarrow> rc \<times> command_ctx" where
  "reply_bulk bs = on_out (\<lambda>m out. resp_reply_bulk m out bs)"

definition reply_nil :: "command_ctx \<Rightarrow> rc \<times> command_ctx" where
  "reply_nil = on_out resp_reply_nil"

definition reply_array_header :: "size_t \<Rightarrow> command_ctx \<Rightarrow> rc \<times> command_ctx" where
  "reply_array_header n = on_out (\<lambda>m out. resp_reply_array_header m out n)"

definition store_set :: "command_ctx \<Rightarrow> bytes \<Rightarrow> bytes \<Rightarrow> rc \<times> command_ctx" where
  "store_set ctx key val = (case ht_set (c_mem ctx) (c_store ctx) key val of
     (r, m', st') \<Rightarrow> (r, ctx\<lparr>c_mem := m', c_store := st'\<rparr>))"

section \<open>Helpers\<close>

fun slice_eq_ci :: "bytes \<Rightarrow> bytes \<Rightarrow> bool" where
  "slice_eq_ci s [] = (s = [])"
| "slice_eq_ci s (u # us) =
     (case s of
        [] \<Rightarrow> False
      | c # cs \<Rightarrow>
          (let c' = (if c \<ge> 97 \<and> c \<le> 122 then c - 97 + 65 else c)
           in if c' \<noteq> u then False else slice_eq_ci cs us))"

text \<open>
  The loop of \<open>parse_int64\<close>. The accumulator is an \<open>int64_t\<close>; it is an \<open>int\<close> here, and
  \<open>parse_int64_loop_range\<close> shows that it stays in range, so that no signed operation overflows.
\<close>

fun parse_int64_loop :: "bytes \<Rightarrow> int \<Rightarrow> int option" where
  "parse_int64_loop [] v = Some v"
| "parse_int64_loop (c # cs) v =
     (if c < 48 \<or> c > 57 then None
      else if v > (INT64_MAX - 9) div 10 then None
      else parse_int64_loop cs (v * 10 + uint (c - 48)))"

definition parse_int64 :: "bytes \<Rightarrow> int option" where
  "parse_int64 bs =
     (if length bs = 0 then None
      else let negative = (hd bs = 45) in
        if negative \<and> length bs = 1 then None
        else (case parse_int64_loop (if negative then tl bs else bs) 0 of
                None \<Rightarrow> None
              | Some v \<Rightarrow> Some (if negative then - v else v)))"

section \<open>Basic commands\<close>

definition cmd_ping :: handler where
  "cmd_ping ctx args =
     (if length args = 1 then reply_simple ''PONG'' ctx else reply_bulk (args ! 1) ctx)"

definition cmd_get :: handler where
  "cmd_get ctx args = (case ht_get (c_store ctx) (args ! 1) of
     Some val \<Rightarrow> reply_bulk val ctx
   | None \<Rightarrow> reply_nil ctx)"

definition cmd_set :: handler where
  "cmd_set ctx args = (case store_set ctx (args ! 1) (args ! 2) of
     (RC_ERR, ctx') \<Rightarrow> reply_error (cstr ''ERR out of memory'') ctx'
   | (RC_OK, ctx') \<Rightarrow> reply_simple ''OK'' ctx')"

fun del_loop :: "command_ctx \<Rightarrow> bytes list \<Rightarrow> int \<Rightarrow> int \<times> command_ctx" where
  "del_loop ctx [] deleted = (deleted, ctx)"
| "del_loop ctx (k # ks) deleted =
     (case ht_del (c_mem ctx) (c_store ctx) k of
        (hit, m', st') \<Rightarrow>
          del_loop (ctx\<lparr>c_mem := m', c_store := st'\<rparr>) ks (if hit then deleted + 1 else deleted))"

definition cmd_del :: handler where
  "cmd_del ctx args = (case del_loop ctx (tl args) 0 of (deleted, ctx') \<Rightarrow> reply_integer deleted ctx')"

fun exists_loop :: "hashtable \<Rightarrow> bytes list \<Rightarrow> int \<Rightarrow> int" where
  "exists_loop st [] found = found"
| "exists_loop st (k # ks) found =
     exists_loop st ks (if ht_get st k \<noteq> None then found + 1 else found)"

definition cmd_exists :: handler where
  "cmd_exists ctx args = reply_integer (exists_loop (c_store ctx) (tl args) 0) ctx"

definition cmd_command :: handler where
  "cmd_command ctx args = reply_array_header 0 ctx"

section \<open>Integer arithmetic\<close>

definition incrby_apply :: "command_ctx \<Rightarrow> bytes \<Rightarrow> int \<Rightarrow> int \<Rightarrow> rc \<times> command_ctx" where
  "incrby_apply ctx key cur delta =
     (if (delta > 0 \<and> cur > INT64_MAX - delta) \<or> (delta < 0 \<and> cur < INT64_MIN - delta)
      then reply_error (cstr ''ERR increment or decrement would overflow'') ctx
      else let next_v = cur + delta;
               fmt = fmt_d64 next_v
        in if length fmt \<ge> 24 then reply_error (cstr ''ERR internal format error'') ctx
        else (case store_set ctx key fmt of
                (RC_ERR, ctx') \<Rightarrow> reply_error (cstr ''ERR out of memory'') ctx'
              | (RC_OK, ctx') \<Rightarrow> reply_integer next_v ctx'))"

definition incrby_op :: "command_ctx \<Rightarrow> bytes \<Rightarrow> int \<Rightarrow> rc \<times> command_ctx" where
  "incrby_op ctx key delta =
     (case ht_get (c_store ctx) key of
        None \<Rightarrow> incrby_apply ctx key 0 delta
      | Some cur_p \<Rightarrow>
          (case parse_int64 cur_p of
             None \<Rightarrow> reply_error (cstr ''ERR value is not an integer or out of range'') ctx
           | Some cur \<Rightarrow> incrby_apply ctx key cur delta))"

definition cmd_incr :: handler where
  "cmd_incr ctx args = incrby_op ctx (args ! 1) 1"

definition cmd_decr :: handler where
  "cmd_decr ctx args = incrby_op ctx (args ! 1) (-1)"

definition cmd_incrby :: handler where
  "cmd_incrby ctx args = (case parse_int64 (args ! 2) of
     None \<Rightarrow> reply_error (cstr ''ERR value is not an integer or out of range'') ctx
   | Some delta \<Rightarrow> incrby_op ctx (args ! 1) delta)"

definition cmd_decrby :: handler where
  "cmd_decrby ctx args = (case parse_int64 (args ! 2) of
     None \<Rightarrow> reply_error (cstr ''ERR value is not an integer or out of range'') ctx
   | Some delta \<Rightarrow>
       (if delta = INT64_MIN
        then reply_error (cstr ''ERR increment or decrement would overflow'') ctx
        else incrby_op ctx (args ! 1) (- delta)))"

section \<open>Strings\<close>

definition cmd_strlen :: handler where
  "cmd_strlen ctx args = (case ht_get (c_store ctx) (args ! 1) of
     Some val \<Rightarrow> reply_integer (int64_of_size (size_of val)) ctx
   | None \<Rightarrow> reply_integer 0 ctx)"

text \<open>The temporary buffer of \<open>cmd_append\<close> is freed on both paths after its allocation.\<close>

definition cmd_append :: handler where
  "cmd_append ctx args =
     (let key = args ! 1; val = args ! 2 in
      case ht_get (c_store ctx) key of
        None \<Rightarrow>
          (case store_set ctx key val of
             (RC_ERR, ctx1) \<Rightarrow> reply_error (cstr ''ERR out of memory'') ctx1
           | (RC_OK, ctx1) \<Rightarrow> reply_integer (int64_of_size (size_of val)) ctx1)
      | Some old \<Rightarrow>
          if size_of val > - 1 - size_of old
          then reply_error (cstr ''ERR string exceeds maximum allowed size'') ctx
          else let newlen = size_of old + size_of val in
            (case malloc (c_mem ctx) of
               (None, m') \<Rightarrow> reply_error (cstr ''ERR out of memory'') (ctx\<lparr>c_mem := m'\<rparr>)
             | (Some tmp, m') \<Rightarrow>
                 (case (case store_set (ctx\<lparr>c_mem := m'\<rparr>) key (old @ val) of
                          (RC_ERR, ctx1) \<Rightarrow> reply_error (cstr ''ERR out of memory'') ctx1
                        | (RC_OK, ctx1) \<Rightarrow> reply_integer (int64_of_size newlen) ctx1) of
                    (r, ctx2) \<Rightarrow> (r, ctx2\<lparr>c_mem := mfree tmp (c_mem ctx2)\<rparr>))))"

section \<open>Keyspace\<close>

record keys_ctx =
  k_mem :: mem
  k_out :: bytebuf
  k_pattern :: bytes
  k_matched :: size_t
  k_write :: bool
  k_emit_failed :: bool

definition keys_cb :: "keys_ctx scan_cb" where
  "keys_cb key val kc =
     (if \<not> glob_match (k_pattern kc) key then (True, kc)
      else if k_write kc then
        (case resp_reply_bulk (k_mem kc) (k_out kc) key of
           (RC_ERR, m', out') \<Rightarrow> (False, kc\<lparr>k_mem := m', k_out := out', k_emit_failed := True\<rparr>)
         | (RC_OK, m', out') \<Rightarrow> (True, kc\<lparr>k_mem := m', k_out := out'\<rparr>))
      else (True, kc\<lparr>k_matched := k_matched kc + 1\<rparr>))"

definition cmd_keys :: handler where
  "cmd_keys ctx args =
     (let kc = \<lparr>k_mem = c_mem ctx, k_out = c_out ctx, k_pattern = args ! 1,
                k_matched = 0, k_write = False, k_emit_failed = False\<rparr>;
          kc1 = snd (ht_scan (c_store ctx) keys_cb kc)
      in case resp_reply_array_header (k_mem kc1) (k_out kc1) (k_matched kc1) of
           (RC_ERR, m', out') \<Rightarrow> (RC_ERR, ctx\<lparr>c_mem := m', c_out := out'\<rparr>)
         | (RC_OK, m', out') \<Rightarrow>
             (let kc2 = snd (ht_scan (c_store ctx) keys_cb
                               (kc1\<lparr>k_mem := m', k_out := out', k_write := True\<rparr>))
              in (if k_emit_failed kc2 then RC_ERR else RC_OK,
                  ctx\<lparr>c_mem := k_mem kc2, c_out := k_out kc2\<rparr>)))"

definition cmd_dbsize :: handler where
  "cmd_dbsize ctx args = reply_integer (int64_of_size (ht_count (c_store ctx))) ctx"

definition cmd_flushdb :: handler where
  "cmd_flushdb ctx args = (case ht_destroy (c_mem ctx) (c_store ctx) of
     (m', _) \<Rightarrow> reply_simple ''OK'' (ctx\<lparr>c_mem := m', c_store := ht_init\<rparr>))"

section \<open>Atomic variants\<close>

definition cmd_setnx :: handler where
  "cmd_setnx ctx args =
     (if ht_get (c_store ctx) (args ! 1) \<noteq> None then reply_integer 0 ctx
      else case store_set ctx (args ! 1) (args ! 2) of
             (RC_ERR, ctx') \<Rightarrow> reply_error (cstr ''ERR out of memory'') ctx'
           | (RC_OK, ctx') \<Rightarrow> reply_integer 1 ctx')"

text \<open>The snapshot of the old value: \<open>None\<close> is its \<open>NULL\<close>, for a miss or an empty value.\<close>

definition cmd_getset_store ::
  "command_ctx \<Rightarrow> bytes \<Rightarrow> bytes \<Rightarrow> bytes option \<Rightarrow> addr option \<Rightarrow> rc \<times> command_ctx" where
  "cmd_getset_store ctx key val hit snapshot =
     (case store_set ctx key val of
        (RC_ERR, ctx1) \<Rightarrow>
          reply_error (cstr ''ERR out of memory'') (ctx1\<lparr>c_mem := mfree_opt snapshot (c_mem ctx1)\<rparr>)
      | (RC_OK, ctx1) \<Rightarrow>
          (case (case hit of Some old \<Rightarrow> reply_bulk old ctx1 | None \<Rightarrow> reply_nil ctx1) of
             (r, ctx2) \<Rightarrow> (r, ctx2\<lparr>c_mem := mfree_opt snapshot (c_mem ctx2)\<rparr>)))"

definition cmd_getset :: handler where
  "cmd_getset ctx args =
     (let key = args ! 1; val = args ! 2; hit = ht_get (c_store ctx) key in
      if hit \<noteq> None \<and> length (the hit) > 0 then
        (case malloc (c_mem ctx) of
           (None, m') \<Rightarrow> reply_error (cstr ''ERR out of memory'') (ctx\<lparr>c_mem := m'\<rparr>)
         | (Some snapshot, m') \<Rightarrow>
             cmd_getset_store (ctx\<lparr>c_mem := m'\<rparr>) key val hit (Some snapshot))
      else cmd_getset_store ctx key val hit None)"

section \<open>Dispatch\<close>

record cmd_entry =
  ce_name :: bytes
  ce_min_argc :: int
  ce_max_argc :: int
  ce_handler :: handler

definition entry :: "string \<Rightarrow> int \<Rightarrow> int \<Rightarrow> handler \<Rightarrow> cmd_entry" where
  "entry name lo hi h = \<lparr>ce_name = cstr name, ce_min_argc = lo, ce_max_argc = hi, ce_handler = h\<rparr>"

definition commands :: "cmd_entry list" where
  "commands =
    [entry ''PING'' 1 2 cmd_ping,
     entry ''GET'' 2 2 cmd_get,
     entry ''SET'' 3 3 cmd_set,
     entry ''DEL'' 2 (-1) cmd_del,
     entry ''EXISTS'' 2 (-1) cmd_exists,
     entry ''COMMAND'' 1 (-1) cmd_command,
     entry ''INCR'' 2 2 cmd_incr,
     entry ''DECR'' 2 2 cmd_decr,
     entry ''INCRBY'' 3 3 cmd_incrby,
     entry ''DECRBY'' 3 3 cmd_decrby,
     entry ''STRLEN'' 2 2 cmd_strlen,
     entry ''APPEND'' 3 3 cmd_append,
     entry ''KEYS'' 2 2 cmd_keys,
     entry ''DBSIZE'' 1 1 cmd_dbsize,
     entry ''FLUSHDB'' 1 1 cmd_flushdb,
     entry ''SETNX'' 3 3 cmd_setnx,
     entry ''GETSET'' 3 3 cmd_getset]"

text \<open>\<open>snprintf\<close> into a buffer of \<open>n\<close> bytes keeps \<open>n - 1\<close> of them; \<open>%.*s\<close> stops at a NUL.\<close>

definition snprintf_buf :: "nat \<Rightarrow> bytes \<Rightarrow> bytes" where
  "snprintf_buf n s = take (n - 1) s"

definition arity_error :: "bytes \<Rightarrow> bytes" where
  "arity_error name = snprintf_buf 128
     (cstr ''ERR wrong number of arguments for '' @ [39] @ name @ [39])"

definition unknown_error :: "bytes \<Rightarrow> bytes" where
  "unknown_error name =
     (let printable = (if length name < 64 then length name else 64)
      in snprintf_buf 128 (cstr ''ERR unknown command '' @ [39] @ c_chars (take printable name) @ [39]))"

text \<open>The cast \<open>(int)req->argc\<close>.\<close>

definition int_of_argc :: "nat \<Rightarrow> int" where
  "int_of_argc n = sint (word_of_nat n :: 32 word)"

fun dispatch :: "cmd_entry list \<Rightarrow> command_ctx \<Rightarrow> bytes list \<Rightarrow> rc \<times> command_ctx" where
  "dispatch [] ctx args = reply_error (unknown_error (args ! 0)) ctx"
| "dispatch (e # es) ctx args =
     (if \<not> slice_eq_ci (args ! 0) (ce_name e) then dispatch es ctx args
      else let argc = int_of_argc (length args) in
        if argc < ce_min_argc e \<or> (ce_max_argc e \<noteq> -1 \<and> argc > ce_max_argc e)
        then reply_error (arity_error (ce_name e)) ctx
        else ce_handler e ctx args)"

definition command_execute :: handler where
  "command_execute ctx args =
     (if length args = 0 then reply_error (cstr ''ERR empty command'') ctx
      else dispatch commands ctx args)"

end
