(* ===== verification/Command_Spec.thy ===== *)
theory Command_Spec
  imports Command Resp_Parse
begin

text \<open>
  What the commands mean, as functions on a finite map from keys to values: \<open>decode\<close> reads an
  argument list as a command, \<open>run\<close> gives its reply and the map after it. The names, the
  arities and the integer syntax are stated here in their own way (case-insensitive equality of
  names, list patterns, digits and their value) rather than as the code computes them; the
  theory shows that the helpers of \<open>command.c\<close> compute them.
\<close>

section \<open>Names and numbers\<close>

definition to_upper :: "byte \<Rightarrow> byte" where
  "to_upper c = (if 97 \<le> c \<and> c \<le> 122 then c - 32 else c)"

text \<open>
  The integers the commands accept: an optional minus sign and digits whose value is at most
  \<open>PARSE_MAX\<close>, which is eight below \<open>INT64_MAX\<close>.
\<close>

definition PARSE_MAX :: nat where
  "PARSE_MAX = 9223372036854775799"

definition digits_within :: "bytes \<Rightarrow> bool" where
  "digits_within ds \<longleftrightarrow> ds \<noteq> [] \<and> (\<forall>c\<in>set ds. is_digit c) \<and> dec_value 0 ds \<le> PARSE_MAX"

definition int64_arg :: "bytes \<Rightarrow> int option" where
  "int64_arg bs = (case bs of
     [] \<Rightarrow> None
   | c # ds \<Rightarrow>
       (if c = 45 then (if digits_within ds then Some (- int (dec_value 0 ds)) else None)
        else if digits_within bs then Some (int (dec_value 0 bs)) else None))"

section \<open>Commands\<close>

datatype command =
    Ping
  | Echo bytes
  | Get bytes
  | Set bytes bytes
  | Del "bytes list"
  | Exists "bytes list"
  | Command_Docs
  | Incr bytes "int option"
  | Strlen bytes
  | Append bytes bytes
  | Keys bytes
  | Dbsize
  | Flushdb
  | Setnx bytes bytes
  | Getset bytes bytes

definition quoted :: "string \<Rightarrow> bytes \<Rightarrow> bytes" where
  "quoted s name = cstr s @ [39] @ name @ [39]"

definition wrong_args :: "bytes \<Rightarrow> bytes + command" where
  "wrong_args name = Inl (quoted ''ERR wrong number of arguments for '' name)"

text \<open>One line per name; a list of arguments that fits no pattern is an arity error.\<close>

definition decode_named :: "bytes \<Rightarrow> bytes list \<Rightarrow> (bytes + command) option" where
  "decode_named n as =
     (if n = cstr ''PING'' then Some (case as of [] \<Rightarrow> Inr Ping | [x] \<Rightarrow> Inr (Echo x) | _ \<Rightarrow> wrong_args n)
      else if n = cstr ''GET'' then Some (case as of [k] \<Rightarrow> Inr (Get k) | _ \<Rightarrow> wrong_args n)
      else if n = cstr ''SET'' then Some (case as of [k, v] \<Rightarrow> Inr (Set k v) | _ \<Rightarrow> wrong_args n)
      else if n = cstr ''DEL'' then Some (case as of [] \<Rightarrow> wrong_args n | _ \<Rightarrow> Inr (Del as))
      else if n = cstr ''EXISTS'' then Some (case as of [] \<Rightarrow> wrong_args n | _ \<Rightarrow> Inr (Exists as))
      else if n = cstr ''COMMAND'' then Some (Inr Command_Docs)
      else if n = cstr ''INCR'' then Some (case as of [k] \<Rightarrow> Inr (Incr k (Some 1)) | _ \<Rightarrow> wrong_args n)
      else if n = cstr ''DECR'' then Some (case as of [k] \<Rightarrow> Inr (Incr k (Some (- 1))) | _ \<Rightarrow> wrong_args n)
      else if n = cstr ''INCRBY'' then
        Some (case as of [k, d] \<Rightarrow> Inr (Incr k (int64_arg d)) | _ \<Rightarrow> wrong_args n)
      else if n = cstr ''DECRBY'' then
        Some (case as of [k, d] \<Rightarrow> Inr (Incr k (map_option uminus (int64_arg d))) | _ \<Rightarrow> wrong_args n)
      else if n = cstr ''STRLEN'' then Some (case as of [k] \<Rightarrow> Inr (Strlen k) | _ \<Rightarrow> wrong_args n)
      else if n = cstr ''APPEND'' then Some (case as of [k, v] \<Rightarrow> Inr (Append k v) | _ \<Rightarrow> wrong_args n)
      else if n = cstr ''KEYS'' then Some (case as of [p] \<Rightarrow> Inr (Keys p) | _ \<Rightarrow> wrong_args n)
      else if n = cstr ''DBSIZE'' then Some (case as of [] \<Rightarrow> Inr Dbsize | _ \<Rightarrow> wrong_args n)
      else if n = cstr ''FLUSHDB'' then Some (case as of [] \<Rightarrow> Inr Flushdb | _ \<Rightarrow> wrong_args n)
      else if n = cstr ''SETNX'' then Some (case as of [k, v] \<Rightarrow> Inr (Setnx k v) | _ \<Rightarrow> wrong_args n)
      else if n = cstr ''GETSET'' then Some (case as of [k, v] \<Rightarrow> Inr (Getset k v) | _ \<Rightarrow> wrong_args n)
      else None)"

text \<open>An unknown name is echoed up to 64 bytes or its first NUL.\<close>

definition decode :: "bytes list \<Rightarrow> bytes + command" where
  "decode args = (case args of
     [] \<Rightarrow> Inl (cstr ''ERR empty command'')
   | name # as \<Rightarrow>
       (case decode_named (map to_upper name) as of
          Some d \<Rightarrow> d
        | None \<Rightarrow> Inl (quoted ''ERR unknown command '' (takeWhile (\<lambda>c. c \<noteq> 0) (take 64 name)))))"

definition not_integer :: reply where
  "not_integer = RError (cstr ''ERR value is not an integer or out of range'')"

definition would_overflow :: reply where
  "would_overflow = RError (cstr ''ERR increment or decrement would overflow'')"

definition out_of_memory :: reply where
  "out_of_memory = RError (cstr ''ERR out of memory'')"

text \<open>
  \<open>order\<close> is the order in which the store enumerates its keys, which only \<open>KEYS\<close> shows.
\<close>

fun run :: "bytes list \<Rightarrow> (bytes \<rightharpoonup> bytes) \<Rightarrow> command \<Rightarrow> reply \<times> (bytes \<rightharpoonup> bytes)" where
  "run order mp Ping = (RSimple (cstr ''PONG''), mp)"
| "run order mp (Echo x) = (RBulk x, mp)"
| "run order mp (Get k) = ((case mp k of None \<Rightarrow> RNil | Some v \<Rightarrow> RBulk v), mp)"
| "run order mp (Set k v) = (RSimple (cstr ''OK''), mp(k \<mapsto> v))"
| "run order mp (Del ks) = (RInt (int (card (set ks \<inter> dom mp))), mp |` (- set ks))"
| "run order mp (Exists ks) = (RInt (int (length (filter (\<lambda>k. k \<in> dom mp) ks))), mp)"
| "run order mp Command_Docs = (RArray [], mp)"
| "run order mp (Incr k d) =
     (case d of None \<Rightarrow> (not_integer, mp)
      | Some i \<Rightarrow>
          (case (case mp k of None \<Rightarrow> Some 0 | Some v \<Rightarrow> int64_arg v) of
             None \<Rightarrow> (not_integer, mp)
           | Some n \<Rightarrow> (if int64_range (n + i) then (RInt (n + i), mp(k \<mapsto> fmt_d64 (n + i)))
                       else (would_overflow, mp))))"
| "run order mp (Strlen k) = (RInt (case mp k of None \<Rightarrow> 0 | Some v \<Rightarrow> int (length v)), mp)"
| "run order mp (Append k v) =
     (let new = (case mp k of None \<Rightarrow> v | Some old \<Rightarrow> old @ v)
      in (RInt (int (length new)), mp(k \<mapsto> new)))"
| "run order mp (Keys p) = (RArray (filter (matches (compile p)) order), mp)"
| "run order mp Dbsize = (RInt (int (card (dom mp))), mp)"
| "run order mp Flushdb = (RSimple (cstr ''OK''), Map.empty)"
| "run order mp (Setnx k v) = (if k \<in> dom mp then (RInt 0, mp) else (RInt 1, mp(k \<mapsto> v)))"
| "run order mp (Getset k v) = ((case mp k of None \<Rightarrow> RNil | Some old \<Rightarrow> RBulk old), mp(k \<mapsto> v))"

definition exec :: "bytes list \<Rightarrow> (bytes \<rightharpoonup> bytes) \<Rightarrow> bytes list \<Rightarrow> reply \<times> (bytes \<rightharpoonup> bytes)" where
  "exec order mp args = (case decode args of Inl e \<Rightarrow> (RError e, mp) | Inr c \<Rightarrow> run order mp c)"

text \<open>
  The sizes of what is in memory: an address space of 47 bits, so that no \<open>size_t\<close> addition of
  the code wraps on lengths, and the argument bound of the parser.
\<close>

definition MEM_MAX :: nat where
  "MEM_MAX = 140737488355328"

definition in_memory :: "(bytes \<rightharpoonup> bytes) \<Rightarrow> bytes list \<Rightarrow> bool" where
  "in_memory mp args \<longleftrightarrow>
     (\<forall>k v. mp k = Some v \<longrightarrow> length k \<le> MEM_MAX \<and> length v \<le> MEM_MAX) \<and>
     card (dom mp) \<le> MEM_MAX \<and>
     (\<forall>a\<in>set args. length a \<le> MEM_MAX) \<and> length args \<le> RESP_MAX_ARGC"

section \<open>The helpers of the code\<close>

lemma slice_eq_ci_iff: "slice_eq_ci s u \<longleftrightarrow> map to_upper s = u"
proof (induction u arbitrary: s)
  case (Cons c us)
  have "(if x \<ge> 97 \<and> x \<le> 122 then x - 97 + 65 else x) = to_upper x" for x :: byte
    by (simp add: to_upper_def)
  then show ?case using Cons by (cases s) (auto simp: Let_def)
qed simp

lemma is_digit_range: "is_digit c \<longleftrightarrow> \<not> (c < 48 \<or> c > 57)"
  by (simp add: is_digit_def not_less)

lemma digit_value: "is_digit c \<Longrightarrow> unat (c - 48) \<le> 9"
  unfolding is_digit_def word_le_nat_alt by (auto simp: unat_sub word_le_nat_alt)

lemma dec_value_guard:
  assumes "is_digit c" "0 \<le> v"
  shows "v > (INT64_MAX - 9) div 10 \<longleftrightarrow> \<not> dec_value (nat v) [c] \<le> PARSE_MAX"
  using digit_value [OF assms(1)] assms(2)
  by (simp add: INT64_MAX_def PARSE_MAX_def dec_value_Cons) linarith

text \<open>The step of the loop behind its guard stays in the range of \<open>int64_t\<close>.\<close>

lemma parse_int64_loop_range:
  assumes "is_digit c" "0 \<le> v" "\<not> v > (INT64_MAX - 9) div 10"
  shows "0 \<le> v * 10 + uint (c - 48)" "v * 10 + uint (c - 48) \<le> INT64_MAX"
proof -
  have "uint (c - 48) \<le> 9" using digit_value [OF assms(1)] by (simp only: uint_nat)
  moreover have "0 \<le> uint (c - 48)" by simp
  moreover have "v \<le> 922337203685477579" using assms(3) by (simp add: INT64_MAX_def)
  ultimately show "0 \<le> v * 10 + uint (c - 48)" "v * 10 + uint (c - 48) \<le> INT64_MAX"
    using assms(2) by (simp_all only: INT64_MAX_def)
qed

lemma parse_int64_loop_spec:
  assumes "0 \<le> v"
  shows "parse_int64_loop ds v =
    (if (\<forall>c\<in>set ds. is_digit c) \<and> (ds \<noteq> [] \<longrightarrow> dec_value (nat v) ds \<le> PARSE_MAX)
     then Some (int (dec_value (nat v) ds)) else None)"
  using assms
proof (induction ds arbitrary: v)
  case (Cons c ds)
  let ?w = "v * 10 + uint (c - 48)"
  have w: "nat ?w = nat v * 10 + unat (c - 48)" "0 \<le> ?w"
    using Cons.prems by (simp_all add: nat_add_distrib nat_mult_distrib)
  have dv: "dec_value (nat v) (c # ds) = dec_value (nat ?w) ds" by (simp only: w dec_value_Cons)
  have le: "dec_value (nat v) [c] \<le> dec_value (nat v) (c # ds)"
    by (simp only: dec_value_Cons dec_value_Nil dec_value_mono)
  show ?case
  proof (cases "is_digit c \<and> dec_value (nat v) [c] \<le> PARSE_MAX")
    case False
    then have "parse_int64_loop (c # ds) v = None"
      using dec_value_guard [of c v] Cons.prems is_digit_range [of c] by auto
    moreover have "\<not> (is_digit c \<and> dec_value (nat v) (c # ds) \<le> PARSE_MAX)"
      using False le by (meson order_trans)
    ultimately show ?thesis by simp
  next
    case True
    then have "parse_int64_loop (c # ds) v = parse_int64_loop ds ?w"
      using dec_value_guard [of c v] Cons.prems is_digit_range [of c] by auto
    also have "\<dots> = (if (\<forall>c\<in>set ds. is_digit c) \<and> (ds \<noteq> [] \<longrightarrow> dec_value (nat ?w) ds \<le> PARSE_MAX)
        then Some (int (dec_value (nat ?w) ds)) else None)"
      by (rule Cons.IH [OF w(2)])
    finally show ?thesis
      using True unfolding dv by (cases "ds = []") (simp_all add: w dec_value_Cons)
  qed
qed simp

lemma parse_int64_arg: "parse_int64 bs = int64_arg bs"
proof (cases bs)
  case (Cons c ds)
  then show ?thesis
    by (cases "ds = []") (auto simp: parse_int64_def int64_arg_def parse_int64_loop_spec digits_within_def Let_def
             simp del: parse_int64_loop.simps)
qed (simp add: parse_int64_def int64_arg_def)

text \<open>What is accepted is in the range of the accumulator, with its negation.\<close>

lemma int64_arg_range: "int64_arg bs = Some i \<Longrightarrow> \<bar>i\<bar> \<le> int PARSE_MAX"
  by (auto simp: int64_arg_def digits_within_def split: list.splits if_splits)

lemma PARSE_MAX_less: "int PARSE_MAX < INT64_MAX" "INT64_MIN < - int PARSE_MAX"
  by (simp_all add: PARSE_MAX_def INT64_MAX_def INT64_MIN_def)

lemma int64_arg_plain:
  "bs \<noteq> [] \<Longrightarrow> hd bs \<noteq> 45 \<Longrightarrow>
   int64_arg bs = (if digits_within bs then Some (int (dec_value 0 bs)) else None)"
  by (cases bs) (simp_all add: int64_arg_def)

lemma int64_arg_fmt:
  assumes "\<bar>i\<bar> \<le> int PARSE_MAX"
  shows "int64_arg (fmt_d64 i) = Some i"
proof -
  have ok: "digits_within (dec_digits n)" if "n \<le> PARSE_MAX" for n
    using that dec_digits_digits by (auto simp: digits_within_def)
  show ?thesis
  proof (cases "i < 0")
    case True
    with assms ok [of "nat (- i)"] show ?thesis by (simp add: fmt_d64_def int64_arg_def)
  next
    case False
    with assms ok [of "nat i"] show ?thesis
      by (simp add: fmt_d64_def int64_arg_plain digits_hd)
  qed
qed

lemma int_of_argc_small:
  assumes "n \<le> RESP_MAX_ARGC"
  shows "int_of_argc n = int n"
proof -
  have "uint (word_of_nat n :: 32 word) = int n"
    using assms by (simp add: RESP_MAX_ARGC_def uint_nat unat_of_nat take_bit_nat_eq_self)
  moreover have "signed_take_bit 31 (int n) = int n"
    using assms by (intro signed_take_bit_int_eq_self) (auto simp: RESP_MAX_ARGC_def)
  ultimately show ?thesis by (simp add: int_of_argc_def sint_uint)
qed

end
