(* ===== verification/Command_Refine.thy ===== *)
theory Command_Refine
  imports Command_Spec
begin

text \<open>
  The command layer implements its specification. One relation, \<open>answers\<close>, says what a run of a
  handler does in every case (success, failed allocation, full reply buffer), on the store, on
  the reply buffer and on the allocator; every handler is shown to be in it with the reply and
  the map that \<open>run\<close> gives.
\<close>

section \<open>What a reply does\<close>

definition ctx_inv :: "command_ctx \<Rightarrow> bool" where
  "ctx_inv c \<longleftrightarrow> ht_inv (c_store c) \<and> bb_inv (c_out c)"

definition ctx_blocks :: "command_ctx \<Rightarrow> addr list" where
  "ctx_blocks c = ht_blocks (c_store c) @ bb_blocks (c_out c)"

definition ctx_reply :: "command_ctx \<Rightarrow> bytes" where
  "ctx_reply c = bb_contents (c_out c)"

text \<open>
  \<open>written c r rc c'\<close>: from \<open>c\<close> to \<open>c'\<close> a prefix of the encoding of \<open>r\<close> was added to the
  buffer, all of it when the status is \<open>RC_OK\<close>, which it is when nothing fails and there is
  room.
\<close>

definition written :: "command_ctx \<Rightarrow> reply \<Rightarrow> rc \<Rightarrow> command_ctx \<Rightarrow> bool" where
  "written c r rc c' \<longleftrightarrow>
     (\<exists>p s. encode_reply r = p @ s \<and> ctx_reply c' = ctx_reply c @ p \<and> (rc = RC_OK \<longrightarrow> s = [])) \<and>
     (mem_plenty (c_mem c) \<longrightarrow> mem_plenty (c_mem c') \<and>
        (length (ctx_reply c) + length (encode_reply r) \<le> BUF_LIMIT \<longrightarrow> rc = RC_OK))"

definition emits :: "command_ctx \<Rightarrow> reply \<Rightarrow> rc \<times> command_ctx \<Rightarrow> bool" where
  "emits c r res \<longleftrightarrow> (case res of (rc, c') \<Rightarrow>
     written c r rc c' \<and> c_store c' = c_store c \<and> ctx_inv c' \<and>
     (\<forall>xs F. owns (c_mem c) (ctx_blocks c @ xs) F \<longrightarrow> owns (c_mem c') (ctx_blocks c' @ xs) F))"

lemma emitsI:
  "written c r rc c' \<Longrightarrow> c_store c' = c_store c \<Longrightarrow> ctx_inv c' \<Longrightarrow>
   (\<And>xs F. owns (c_mem c) (ctx_blocks c @ xs) F \<Longrightarrow> owns (c_mem c') (ctx_blocks c' @ xs) F) \<Longrightarrow>
   emits c r (rc, c')"
  by (simp add: emits_def)

lemma owns_frame:
  assumes step: "\<And>F. owns m (f b) F \<Longrightarrow> owns m' (f b') F"
    and own: "owns m (xs @ f b @ ys) F"
  shows "owns m' (xs @ f b' @ ys) F"
proof -
  have "owns m (f b @ xs @ ys) F"
    using own by (rule owns_mset [THEN iffD1, rotated]) (simp add: ac_simps)
  then have "owns m' (f b' @ xs @ ys) F"
    unfolding owns_append [of _ _ "xs @ ys"] using step by blast
  then show ?thesis
    by (rule owns_mset [THEN iffD1, rotated]) (simp add: ac_simps)
qed

lemma write_pieces_owns:
  "bb_inv b \<Longrightarrow> \<forall>p\<in>set ps. length p \<le> SIZE_MAX \<Longrightarrow> write_pieces bytebuf_append m b ps = (r, m', b') \<Longrightarrow>
   owns m (bb_blocks b) F \<Longrightarrow> owns m' (bb_blocks b') F"
proof (induction ps arbitrary: m b)
  case (Cons p ps)
  obtain r1 m1 b1 where a: "bytebuf_append m b p = (r1, m1, b1)" by (metis prod_cases3)
  from Cons.prems have p: "length p \<le> SIZE_MAX" by simp
  note A = bytebuf_append_props [OF Cons.prems(1) p a]
  show ?case
  proof (cases r1)
    case RC_ERR
    with a A(5) Cons.prems show ?thesis by simp
  next
    case RC_OK
    with a A(1) A(5) [OF Cons.prems(4)] Cons.prems show ?thesis by (auto intro: Cons.IH)
  qed
qed simp

lemma emits_pieces:
  assumes f: "f (c_mem c) (c_out c) = write_pieces bytebuf_append (c_mem c) (c_out c) ps"
    and inv: "ctx_inv c" and sz: "\<forall>p\<in>set ps. length p \<le> SIZE_MAX" and enc: "encode_reply r = concat ps"
  shows "emits c r (on_out f c)"
proof -
  obtain rc m' out' where w: "write_pieces bytebuf_append (c_mem c) (c_out c) ps = (rc, m', out')"
    by (metis prod_cases3)
  have eq: "on_out f c = (rc, c\<lparr>c_mem := m', c_out := out'\<rparr>)" by (simp add: on_out_def f w)
  have bi: "bb_inv (c_out c)" using inv by (simp add: ctx_inv_def)
  from bb.write_pieces_prefix [OF bi sz w] obtain k where
    k: "bb_contents out' = bb_contents (c_out c) @ concat (take k ps)" by blast
  show ?thesis
    unfolding eq
  proof (rule emitsI)
    have "concat ps = concat (take k ps) @ concat (drop k ps)"
      by (simp add: concat_append [symmetric])
    moreover have "bb_contents out' = bb_contents (c_out c) @ concat ps" if "rc = RC_OK"
      using that w bb.write_pieces_ok [OF bi sz, of "c_mem c"] by blast
    ultimately have "\<exists>p s. encode_reply r = p @ s \<and> bb_contents out' = bb_contents (c_out c) @ p \<and>
        (rc = RC_OK \<longrightarrow> s = [])"
      using k enc by (cases rc) (metis append_Nil2, metis rc.distinct(1))
    then show "written c r rc (c\<lparr>c_mem := m', c_out := out'\<rparr>)"
      using bb.write_pieces_plenty [OF w] bb.write_pieces_room [OF bi sz _ _ w] enc
      by (simp add: written_def ctx_reply_def)
    show "ctx_inv (c\<lparr>c_mem := m', c_out := out'\<rparr>)"
      using inv bb.write_pieces_inv [OF bi sz w] by (simp add: ctx_inv_def)
    show "owns (c_mem (c\<lparr>c_mem := m', c_out := out'\<rparr>)) (ctx_blocks (c\<lparr>c_mem := m', c_out := out'\<rparr>) @ xs) F"
      if "owns (c_mem c) (ctx_blocks c @ xs) F" for xs F
      using owns_frame [of "c_mem c" bb_blocks "c_out c" m' out', OF write_pieces_owns [OF bi sz w]] that
      by (simp add: ctx_blocks_def)
  qed simp
qed

text \<open>The serializers of the context, each emitting its reply.\<close>

lemma emits_simple:
  "ctx_inv c \<Longrightarrow> 0 \<notin> set (cstr s) \<Longrightarrow> length s \<le> SIZE_MAX \<Longrightarrow> emits c (RSimple (cstr s)) (reply_simple s c)"
  unfolding reply_simple_def
  by (rule emits_pieces [where ps = "simple_pieces (cstr s)"])
     (simp_all add: reply_simple_pieces simple_pieces_def c_chars_id cstr_def)

lemma emits_error:
  "ctx_inv c \<Longrightarrow> 0 \<notin> set s \<Longrightarrow> length s \<le> SIZE_MAX \<Longrightarrow> emits c (RError s) (reply_error s c)"
  unfolding reply_error_def
  by (rule emits_pieces [where ps = "error_pieces s"])
     (simp_all add: reply_error_pieces error_pieces_def c_chars_id)

lemma emits_integer:
  assumes "ctx_inv c" "int64_range n"
  shows "emits c (RInt n) (reply_integer n c)"
proof -
  have "length (58 # fmt_d64 n @ crlf) \<le> SIZE_MAX"
    using fmt_d64_length [OF assms(2)] by (simp add: SIZE_MAX_def)
  then show ?thesis
    unfolding reply_integer_def
    by (intro emits_pieces [where ps = "[58 # fmt_d64 n @ crlf]"] reply_integer_pieces assms) simp_all
qed

lemma emits_bulk: "ctx_inv c \<Longrightarrow> length bs \<le> SIZE_MAX \<Longrightarrow> emits c (RBulk bs) (reply_bulk bs c)"
  unfolding reply_bulk_def
  by (rule emits_pieces [where ps = "bulk_pieces bs"])
     (simp_all add: reply_bulk_pieces concat_bulk_pieces bulk_pieces_size del: write_pieces.simps)

lemma emits_nil: "ctx_inv c \<Longrightarrow> emits c RNil (reply_nil c)"
  unfolding reply_nil_def
  by (rule emits_pieces [where ps = "[cstr ''$-1'' @ crlf]"])
     (simp_all add: reply_nil_pieces SIZE_MAX_def cstr_def del: write_pieces.simps)

text \<open>The error texts of the program have no NUL.\<close>

lemma emits_text:
  "ctx_inv c \<Longrightarrow> list_all (\<lambda>x. of_char x \<noteq> (0 :: byte)) s \<Longrightarrow> length s \<le> 1000 \<Longrightarrow>
   emits c (RError (cstr s)) (reply_error (cstr s) c)"
  by (rule emits_error) (auto simp: cstr_def list_all_iff SIZE_MAX_def)

section \<open>What a command does\<close>

text \<open>
  \<open>settles ys c c'\<close>: the steps before the reply leave the buffer alone, keep the invariants, and
  release the blocks \<open>ys\<close> the handler held.
\<close>

definition settles :: "addr list \<Rightarrow> command_ctx \<Rightarrow> command_ctx \<Rightarrow> bool" where
  "settles ys c c' \<longleftrightarrow> ctx_inv c' \<and> c_out c' = c_out c \<and>
     (mem_plenty (c_mem c) \<longrightarrow> mem_plenty (c_mem c')) \<and>
     (\<forall>xs F. owns (c_mem c) (ctx_blocks c @ ys @ xs) F \<longrightarrow> owns (c_mem c') (ctx_blocks c' @ xs) F)"

text \<open>
  \<open>answers ys c (r, mp') (rc, c')\<close>: either the reply is \<open>r\<close> and the store now denotes \<open>mp'\<close>, or
  an allocation failed, the reply is the out-of-memory error and the store is unchanged; in both
  cases the reply was written as \<open>written\<close> says, and only the blocks of the context are live.
\<close>

definition answers ::
  "addr list \<Rightarrow> command_ctx \<Rightarrow> reply \<times> (bytes \<rightharpoonup> bytes) \<Rightarrow> rc \<times> command_ctx \<Rightarrow> bool" where
  "answers ys c x res \<longleftrightarrow> (case res of (rc, c') \<Rightarrow>
     ctx_inv c' \<and>
     (\<exists>r'. ((r' = fst x \<and> ht_abs (c_store c') = snd x) \<or>
            (r' = out_of_memory \<and> c_store c' = c_store c \<and> \<not> mem_plenty (c_mem c))) \<and>
           written c r' rc c') \<and>
     (\<forall>xs F. owns (c_mem c) (ctx_blocks c @ ys @ xs) F \<longrightarrow> owns (c_mem c') (ctx_blocks c' @ xs) F))"

lemma written_settles: "settles ys c c1 \<Longrightarrow> written c1 r rc c' \<Longrightarrow> written c r rc c'"
  by (auto simp: written_def settles_def ctx_reply_def)

lemma answers_ok:
  assumes "settles ys c c1" "emits c1 r res" "ht_abs (c_store c1) = mp'"
  shows "answers ys c (r, mp') res"
proof -
  obtain rc c' where res: "res = (rc, c')" by fastforce
  with assms(2) have e: "written c1 r rc c'" "c_store c' = c_store c1" "ctx_inv c'"
    "\<And>xs F. owns (c_mem c1) (ctx_blocks c1 @ xs) F \<Longrightarrow> owns (c_mem c') (ctx_blocks c' @ xs) F"
    by (auto simp: emits_def)
  show ?thesis
    using assms(1,3) e written_settles [OF assms(1) e(1)]
    by (auto simp: answers_def res settles_def intro!: exI [of _ r])
qed

lemma answers_oom:
  assumes "settles ys c c1" "emits c1 out_of_memory res" "c_store c1 = c_store c" "\<not> mem_plenty (c_mem c)"
  shows "answers ys c x res"
proof -
  obtain rc c' where res: "res = (rc, c')" by fastforce
  with assms(2) have e: "written c1 out_of_memory rc c'" "c_store c' = c_store c1" "ctx_inv c'"
    "\<And>xs F. owns (c_mem c1) (ctx_blocks c1 @ xs) F \<Longrightarrow> owns (c_mem c') (ctx_blocks c' @ xs) F"
    by (auto simp: emits_def)
  show ?thesis
    using assms(1,3,4) e written_settles [OF assms(1) e(1)]
    by (auto simp: answers_def res settles_def intro!: exI [of _ out_of_memory])
qed

lemma settles_refl: "ctx_inv c \<Longrightarrow> settles [] c c"
  by (simp add: settles_def)

lemma answers_now: "ctx_inv c \<Longrightarrow> emits c r res \<Longrightarrow> mp' = ht_abs (c_store c) \<Longrightarrow> answers [] c (r, mp') res"
  by (rule answers_ok [OF settles_refl]) simp_all

text \<open>A block allocated at the start, and one freed at the end.\<close>

lemma answers_malloc:
  assumes "malloc (c_mem c) = (Some a, m')" "answers (a # ys) (c\<lparr>c_mem := m'\<rparr>) x res"
  shows "answers ys c x res"
proof -
  have own: "owns m' (ctx_blocks c @ (a # ys) @ xs) F" if "owns (c_mem c) (ctx_blocks c @ ys @ xs) F" for xs F
    using owns_malloc [OF that assms(1)] by (rule owns_mset [THEN iffD1, rotated]) simp
  have "mem_plenty (c_mem c) \<longrightarrow> mem_plenty m'" using mem_plenty_malloc [OF assms(1)] by blast
  then show ?thesis
    using assms(2) own
    by (auto simp: answers_def written_def ctx_reply_def ctx_blocks_def)
qed

lemma owns_mfree_mid: "owns m (xs @ a # ys) F \<Longrightarrow> owns (mfree a m) (xs @ ys) F"
  by (erule owns_mfree_mset) simp

lemma answers_release:
  assumes "answers [] c x (rc, c2)"
  shows "answers (case p of None \<Rightarrow> [] | Some a \<Rightarrow> [a]) c x (rc, c2\<lparr>c_mem := mfree_opt p (c_mem c2)\<rparr>)"
proof (cases p)
  case None
  with assms show ?thesis by (simp add: mfree_opt_def)
next
  case (Some a)
  have own: "owns (mfree a (c_mem c2)) (ctx_blocks c2 @ xs) F"
    if "\<And>xs F. owns (c_mem c) (ctx_blocks c @ xs) F \<Longrightarrow> owns (c_mem c2) (ctx_blocks c2 @ xs) F"
       "owns (c_mem c) (ctx_blocks c @ [a] @ xs) F" for xs F
    using that(1) [of "a # xs"] that(2) by (auto intro: owns_mfree_mid)
  show ?thesis
    using assms own unfolding answers_def Some
    by (auto simp: written_def ctx_reply_def ctx_inv_def ctx_blocks_def mfree_opt_def)
qed

section \<open>Steps on the store\<close>

lemma ht_set_frame:
  assumes "ht_inv ht" "ht_set m ht k v = (r, m', ht')" "owns m (ht_blocks ht @ ys) F"
  shows "owns m' (ht_blocks ht' @ ys) F"
  using owns_frame [of m ht_blocks ht m' ht' "[]" ys F, OF ht_set_owns [OF assms(1,2)]] assms(3) by simp

lemma store_set_ok:
  assumes "ctx_inv c" "store_set c k v = (RC_OK, c1)"
  shows "settles [] c c1" "ht_abs (c_store c1) = (ht_abs (c_store c))(k \<mapsto> v)"
proof -
  obtain m' st' where s: "ht_set (c_mem c) (c_store c) k v = (RC_OK, m', st')"
    "c1 = c\<lparr>c_mem := m', c_store := st'\<rparr>"
    using assms(2) by (auto simp: store_set_def split: prod.splits)
  have inv: "ht_inv (c_store c)" using assms(1) by (simp add: ctx_inv_def)
  show "ht_abs (c_store c1) = (ht_abs (c_store c))(k \<mapsto> v)"
    using kv.put_ok [OF inv s(1)] s(2) by simp
  show "settles [] c c1"
    using assms(1) kv.put_inv [OF inv s(1)] ht_set_plenty [OF inv _ s(1)] ht_set_frame [OF inv s(1)] s(2)
    by (simp add: settles_def ctx_inv_def ctx_blocks_def)
qed

lemma store_set_err:
  assumes "ctx_inv c" "store_set c k v = (RC_ERR, c1)"
  shows "settles [] c c1" "c_store c1 = c_store c" "\<not> mem_plenty (c_mem c)"
proof -
  obtain m' st' where s: "ht_set (c_mem c) (c_store c) k v = (RC_ERR, m', st')"
    "c1 = c\<lparr>c_mem := m', c_store := st'\<rparr>"
    using assms(2) by (auto simp: store_set_def split: prod.splits)
  have inv: "ht_inv (c_store c)" using assms(1) by (simp add: ctx_inv_def)
  show "c_store c1 = c_store c" using kv.put_err [OF inv s(1)] s(2) by simp
  show "\<not> mem_plenty (c_mem c)" using ht_set_plenty [OF inv _ s(1)] by auto
  show "settles [] c c1"
    using assms(1) kv.put_inv [OF inv s(1)] ht_set_plenty [OF inv _ s(1)] ht_set_frame [OF inv s(1)] s(2)
    by (auto simp: settles_def ctx_inv_def ctx_blocks_def)
qed

lemma settles_mfree_opt:
  assumes "settles [] c c1"
  shows "settles (case p of None \<Rightarrow> [] | Some a \<Rightarrow> [a]) c (c1\<lparr>c_mem := mfree_opt p (c_mem c1)\<rparr>)"
proof (cases p)
  case None
  with assms show ?thesis by (simp add: mfree_opt_def)
next
  case (Some a)
  have own: "owns (mfree a (c_mem c1)) (ctx_blocks c1 @ xs) F"
    if "\<And>xs F. owns (c_mem c) (ctx_blocks c @ xs) F \<Longrightarrow> owns (c_mem c1) (ctx_blocks c1 @ xs) F"
       "owns (c_mem c) (ctx_blocks c @ [a] @ xs) F" for xs F
    using that(1) [of "a # xs"] that(2) by (auto intro: owns_mfree_mid)
  show ?thesis
    using assms own unfolding settles_def Some
    by (auto simp: ctx_inv_def ctx_blocks_def mfree_opt_def)
qed

text \<open>The shape shared by the writing commands: store, then reply with success or out of memory.\<close>

lemma emits_oom: "ctx_inv c \<Longrightarrow> emits c out_of_memory (reply_error (cstr ''ERR out of memory'') c)"
  unfolding out_of_memory_def by (rule emits_text) simp_all

lemma answers_store:
  assumes "ctx_inv c" "\<And>c'. ctx_inv c' \<Longrightarrow> emits c' r (ok c')" "mp' = (ht_abs (c_store c))(k \<mapsto> v)"
  shows "answers [] c (r, mp')
    (case store_set c k v of
       (RC_ERR, c1) \<Rightarrow> reply_error (cstr ''ERR out of memory'') c1
     | (RC_OK, c1) \<Rightarrow> ok c1)"
proof -
  obtain rc c1 where s: "store_set c k v = (rc, c1)" by fastforce
  show ?thesis
  proof (cases rc)
    case RC_OK
    with s have s': "store_set c k v = (RC_OK, c1)" by simp
    note S = store_set_ok [OF assms(1) s']
    have "ctx_inv c1" using S(1) by (simp add: settles_def)
    with S assms(2,3) show ?thesis unfolding s' by (simp add: answers_ok)
  next
    case RC_ERR
    with s have s': "store_set c k v = (RC_ERR, c1)" by simp
    note S = store_set_err [OF assms(1) s']
    have "ctx_inv c1" using S(1) by (simp add: settles_def)
    with S show ?thesis unfolding s' by (auto intro: answers_oom emits_oom)
  qed
qed

section \<open>Sizes\<close>

lemma in_memory_value: "in_memory mp args \<Longrightarrow> mp k = Some v \<Longrightarrow> length v \<le> MEM_MAX"
  by (auto simp: in_memory_def)

lemma in_memory_arg: "in_memory mp args \<Longrightarrow> a \<in> set args \<Longrightarrow> length a \<le> MEM_MAX"
  by (auto simp: in_memory_def)

lemma MEM_MAX_SIZE_MAX: "n \<le> MEM_MAX \<Longrightarrow> n \<le> SIZE_MAX"
  by (simp add: MEM_MAX_def SIZE_MAX_def)

lemma int64_of_size_mem:
  assumes "unat n \<le> 2 * MEM_MAX"
  shows "int64_of_size n = int (unat n)" "int64_range (int (unat n))"
proof -
  have "unat n < 2 ^ 63" using assms by (simp add: MEM_MAX_def)
  then show "int64_of_size n = int (unat n)" by (rule int64_of_size_eq)
  have "int (unat n) \<le> int (2 * MEM_MAX)" using assms by (simp only: of_nat_le_iff)
  then have "int (unat n) \<le> INT64_MAX" by (rule order_trans) (simp add: MEM_MAX_def INT64_MAX_def)
  moreover have "INT64_MIN \<le> int (unat n)"
    by (rule order_trans [of _ 0]) (simp_all add: INT64_MIN_def)
  ultimately show "int64_range (int (unat n))" by (simp only: int64_range_def)
qed

lemma int64_size_mem:
  assumes "length xs \<le> MEM_MAX"
  shows "int64_of_size (size_of xs) = int (length xs)" "int64_range (int (length xs))"
proof -
  have u: "unat (size_of xs) = length xs" using assms by (simp add: unat_size_of MEM_MAX_SIZE_MAX)
  with assms have "unat (size_of xs) \<le> 2 * MEM_MAX" by (simp only: u)
  from int64_of_size_mem [OF this] show "int64_of_size (size_of xs) = int (length xs)" "int64_range (int (length xs))"
    by (simp_all only: u)
qed

lemma int64_range_small: "n \<le> MEM_MAX \<Longrightarrow> int64_range (int n)"
  using int64_size_mem(2) [of "replicate n 0"] by simp

section \<open>The handlers\<close>

text \<open>\<open>implements args cmd h\<close>: the handler \<open>h\<close> on \<open>args\<close> carries out \<open>cmd\<close>.\<close>

definition implements :: "command_ctx \<Rightarrow> command \<Rightarrow> rc \<times> command_ctx \<Rightarrow> bool" where
  "implements c cmd res \<longleftrightarrow> answers [] c (run (ht_keys (c_store c)) (ht_abs (c_store c)) cmd) res"

lemma emits_pong_ok:
  "ctx_inv c \<Longrightarrow> emits c (RSimple (cstr ''PONG'')) (reply_simple ''PONG'' c)"
  "ctx_inv c \<Longrightarrow> emits c (RSimple (cstr ''OK'')) (reply_simple ''OK'' c)"
  by (rule emits_simple; simp add: cstr_def SIZE_MAX_def)+

lemma implements_ping: "ctx_inv c \<Longrightarrow> implements c Ping (cmd_ping c [n])"
  by (simp add: implements_def cmd_ping_def answers_now emits_pong_ok)

lemma implements_echo:
  "ctx_inv c \<Longrightarrow> in_memory (ht_abs (c_store c)) [n, x] \<Longrightarrow> implements c (Echo x) (cmd_ping c [n, x])"
  by (simp add: implements_def cmd_ping_def answers_now emits_bulk MEM_MAX_SIZE_MAX in_memory_arg)

lemma implements_get:
  "ctx_inv c \<Longrightarrow> in_memory (ht_abs (c_store c)) [n, k] \<Longrightarrow> implements c (Get k) (cmd_get c [n, k])"
  by (auto simp: implements_def cmd_get_def ht_get_abs MEM_MAX_SIZE_MAX in_memory_value split: option.splits
           intro!: answers_now emits_bulk emits_nil)

lemma implements_set: "ctx_inv c \<Longrightarrow> implements c (Set k v) (cmd_set c [n, k, v])"
  by (auto simp: implements_def cmd_set_def intro!: answers_store emits_pong_ok)

lemma settles_trans: "settles [] c c1 \<Longrightarrow> settles [] c1 c2 \<Longrightarrow> settles [] c c2"
  by (auto simp: settles_def)

lemma settles_del:
  assumes "ctx_inv c" "ht_del (c_mem c) (c_store c) k = (b, m', st')"
  shows "settles [] c (c\<lparr>c_mem := m', c_store := st'\<rparr>)"
proof -
  have inv: "ht_inv (c_store c)" using assms(1) by (simp add: ctx_inv_def)
  have "owns m' (ht_blocks st' @ ys) F" if "owns (c_mem c) (ht_blocks (c_store c) @ ys) F" for ys F
    using owns_frame [of "c_mem c" ht_blocks "c_store c" m' st' "[]" ys F, OF ht_del_owns [OF inv assms(2)]] that
    by simp
  then show ?thesis
    using assms(1) kv.rem_inv [OF inv assms(2)] ht_del_plenty [OF assms(2)]
    by (simp add: settles_def ctx_inv_def ctx_blocks_def)
qed

lemma del_loop_spec:
  "ctx_inv c \<Longrightarrow> del_loop c ks n = (d, c') \<Longrightarrow>
   settles [] c c' \<and> ht_abs (c_store c') = ht_abs (c_store c) |` (- set ks) \<and>
   d = n + int (card (set ks \<inter> dom (ht_abs (c_store c))))"
proof (induction ks arbitrary: c n)
  case Nil
  then show ?case by (simp add: settles_refl)
next
  case (Cons k ks)
  obtain b m' st' where del: "ht_del (c_mem c) (c_store c) k = (b, m', st')" by (metis prod_cases3)
  define c1 where "c1 = c\<lparr>c_mem := m', c_store := st'\<rparr>"
  have inv: "ht_inv (c_store c)" using Cons.prems(1) by (simp add: ctx_inv_def)
  have s1: "settles [] c c1" using settles_del [OF Cons.prems(1) del] by (simp add: c1_def)
  then have "ctx_inv c1" by (simp add: settles_def)
  moreover have "del_loop c1 ks (if b then n + 1 else n) = (d, c')"
    using Cons.prems(2) del by (simp add: c1_def)
  ultimately have IH: "settles [] c1 c'" "ht_abs (c_store c') = ht_abs (c_store c1) |` (- set ks)"
    "d = (if b then n + 1 else n) + int (card (set ks \<inter> dom (ht_abs (c_store c1))))"
    using Cons.IH [of c1] by blast+
  have abs1: "ht_abs (c_store c1) = (ht_abs (c_store c))(k := None)"
    using kv.rem_abs [OF inv del] by (simp add: c1_def)
  have hit: "b \<longleftrightarrow> k \<in> dom (ht_abs (c_store c))" using kv.rem_hit [OF inv del] by auto
  let ?D = "dom (ht_abs (c_store c))"
  have "set (k # ks) \<inter> ?D = (if b then insert k else id) (set ks \<inter> (?D - {k}))"
    using hit by auto
  then have "card (set (k # ks) \<inter> ?D) = (if b then 1 else 0) + card (set ks \<inter> (?D - {k}))"
    by auto
  then have "d = n + int (card (set (k # ks) \<inter> ?D))" using IH(3) abs1 by simp
  moreover have "ht_abs (c_store c') = ht_abs (c_store c) |` (- set (k # ks))"
    using IH(2) abs1 by (auto simp: restrict_map_def)
  ultimately show ?case using settles_trans [OF s1 IH(1)] by blast
qed

lemma implements_del:
  assumes "ctx_inv c" "in_memory (ht_abs (c_store c)) (n # ks)"
  shows "implements c (Del ks) (cmd_del c (n # ks))"
proof -
  obtain d c' where d: "del_loop c ks 0 = (d, c')" by fastforce
  note D = del_loop_spec [OF assms(1) d]
  have "card (set ks \<inter> dom (ht_abs (c_store c))) \<le> card (set ks)" by (rule card_mono) simp_all
  also have "\<dots> \<le> length ks" by (rule card_length)
  also have "\<dots> \<le> MEM_MAX" using assms(2) by (simp add: in_memory_def RESP_MAX_ARGC_def MEM_MAX_def)
  finally have "int64_range d" using D by (simp add: int64_range_small)
  moreover have "ctx_inv c'" using D by (simp add: settles_def)
  ultimately have "emits c' (RInt d) (reply_integer d c')" by (rule emits_integer [rotated])
  then show ?thesis
    using D d by (auto simp: implements_def cmd_del_def intro!: answers_ok)
qed

lemma exists_loop_spec:
  "exists_loop st ks n = n + int (length (filter (\<lambda>k. k \<in> dom (ht_abs st)) ks))"
  by (induction ks arbitrary: n) (auto simp: ht_get_abs)

lemma implements_exists:
  assumes "ctx_inv c" "in_memory (ht_abs (c_store c)) (n # ks)"
  shows "implements c (Exists ks) (cmd_exists c (n # ks))"
proof -
  have "length (filter (\<lambda>k. k \<in> dom (ht_abs (c_store c))) ks) \<le> length ks" by (rule length_filter_le)
  also have "\<dots> \<le> MEM_MAX" using assms(2) by (simp add: in_memory_def RESP_MAX_ARGC_def MEM_MAX_def)
  finally have "int64_range (int (length (filter (\<lambda>k. k \<in> dom (ht_abs (c_store c))) ks)))"
    by (rule int64_range_small)
  then show ?thesis
    using assms(1) by (simp add: implements_def cmd_exists_def exists_loop_spec answers_now emits_integer)
qed

lemma emits_array_0: "ctx_inv c \<Longrightarrow> emits c (RArray []) (reply_array_header 0 c)"
  unfolding reply_array_header_def
  by (rule emits_pieces [where ps = "[42 # fmt_zu 0 @ crlf]"])
     (use fmt_zu_length [of 0] in \<open>simp_all add: reply_array_pieces SIZE_MAX_def del: write_pieces.simps\<close>)

lemma implements_command: "ctx_inv c \<Longrightarrow> implements c Command_Docs (cmd_command c args)"
  by (simp add: implements_def cmd_command_def answers_now emits_array_0)

text \<open>Integer arithmetic.\<close>

lemma emits_int_errors:
  "ctx_inv c \<Longrightarrow> emits c not_integer (reply_error (cstr ''ERR value is not an integer or out of range'') c)"
  "ctx_inv c \<Longrightarrow> emits c would_overflow (reply_error (cstr ''ERR increment or decrement would overflow'') c)"
  unfolding not_integer_def would_overflow_def by (rule emits_text; simp)+

lemma incrby_guard:
  assumes "int64_range cur" "int64_range delta"
  shows "(delta > 0 \<and> cur > INT64_MAX - delta) \<or> (delta < 0 \<and> cur < INT64_MIN - delta)
    \<longleftrightarrow> \<not> int64_range (cur + delta)"
  using assms by (auto simp: int64_range_def)

lemma incrby_apply_answers:
  assumes "ctx_inv c" "int64_range cur" "int64_range delta"
  shows "answers [] c
    (if int64_range (cur + delta)
     then (RInt (cur + delta), (ht_abs (c_store c))(k \<mapsto> fmt_d64 (cur + delta)))
     else (would_overflow, ht_abs (c_store c)))
    (incrby_apply c k cur delta)"
proof (cases "int64_range (cur + delta)")
  case False
  then show ?thesis
    using assms(1) incrby_guard [OF assms(2,3)]
    by (simp add: incrby_apply_def answers_now emits_int_errors)
next
  case True
  then have "length (fmt_d64 (cur + delta)) < 24" using fmt_d64_length by fastforce
  then have "incrby_apply c k cur delta = (case store_set c k (fmt_d64 (cur + delta)) of
      (RC_ERR, c1) \<Rightarrow> reply_error (cstr ''ERR out of memory'') c1
    | (RC_OK, c1) \<Rightarrow> reply_integer (cur + delta) c1)"
    using True incrby_guard [OF assms(2,3)] by (auto simp: incrby_apply_def Let_def)
  then show ?thesis
    using True assms(1) by (auto intro!: answers_store emits_integer)
qed

lemma incrby_op_implements:
  assumes "ctx_inv c" "int64_range delta"
  shows "implements c (Incr k (Some delta)) (incrby_op c k delta)"
proof -
  have range: "int64_range i" if "int64_arg bs = Some i" for bs i
    using int64_arg_range [OF that] PARSE_MAX_less by (auto simp: int64_range_def)
  have z: "int64_range 0" by (simp add: int64_range_def INT64_MAX_def INT64_MIN_def)
  show ?thesis
    using assms incrby_apply_answers [OF assms(1) z assms(2), of k]
      incrby_apply_answers [OF assms(1) range assms(2), of _ _ k]
    by (auto simp: implements_def incrby_op_def ht_get_abs parse_int64_arg split: option.splits
             intro!: answers_now emits_int_errors)
qed

lemma implements_incr: "ctx_inv c \<Longrightarrow> implements c (Incr k (Some 1)) (cmd_incr c [n, k])"
  using incrby_op_implements [of c 1 k] by (simp add: cmd_incr_def int64_range_def INT64_MAX_def INT64_MIN_def)

lemma implements_decr: "ctx_inv c \<Longrightarrow> implements c (Incr k (Some (- 1))) (cmd_decr c [n, k])"
  using incrby_op_implements [of c "- 1" k] by (simp add: cmd_decr_def int64_range_def INT64_MAX_def INT64_MIN_def)

lemma int64_arg_negate:
  assumes "int64_arg bs = Some i"
  shows "int64_range i" "int64_range (- i)" "i \<noteq> INT64_MIN"
  using int64_arg_range [OF assms] PARSE_MAX_less by (auto simp: int64_range_def)

lemma implements_not_integer:
  "ctx_inv c \<Longrightarrow> implements c (Incr k None) (reply_error (cstr ''ERR value is not an integer or out of range'') c)"
  by (simp add: implements_def answers_now emits_int_errors)

lemma implements_incrby: "ctx_inv c \<Longrightarrow> implements c (Incr k (int64_arg d)) (cmd_incrby c [n, k, d])"
  by (cases "int64_arg d")
     (auto simp: cmd_incrby_def parse_int64_arg int64_arg_negate intro!: incrby_op_implements implements_not_integer)

lemma implements_decrby:
  "ctx_inv c \<Longrightarrow> implements c (Incr k (map_option uminus (int64_arg d))) (cmd_decrby c [n, k, d])"
  by (cases "int64_arg d")
     (auto simp: cmd_decrby_def parse_int64_arg int64_arg_negate intro!: incrby_op_implements implements_not_integer)

text \<open>Strings.\<close>

lemma implements_strlen:
  assumes "ctx_inv c" "in_memory (ht_abs (c_store c)) [n, k]"
  shows "implements c (Strlen k) (cmd_strlen c [n, k])"
proof (cases "ht_abs (c_store c) k")
  case None
  then show ?thesis
    using assms(1) int64_range_small [of 0]
    by (simp add: implements_def cmd_strlen_def ht_get_abs answers_now emits_integer)
next
  case (Some v)
  with assms int64_size_mem [OF in_memory_value [OF assms(2) Some]] show ?thesis
    by (simp add: implements_def cmd_strlen_def ht_get_abs answers_now emits_integer)
qed

lemma append_sizes:
  assumes "length old \<le> MEM_MAX" "length val \<le> MEM_MAX"
  shows "\<not> size_of val > - 1 - size_of old"
    "int64_of_size (size_of old + size_of val) = int (length (old @ val))"
    "int64_range (int (length (old @ val)))"
proof -
  have u: "unat (size_of old) = length old" "unat (size_of val) = length val"
    using assms by (simp_all add: unat_size_of MEM_MAX_SIZE_MAX)
  have le: "length old + length val \<le> 2 * MEM_MAX" using assms by simp
  have lim: "2 * MEM_MAX \<le> SIZE_MAX" by (simp add: MEM_MAX_def SIZE_MAX_def)
  have "unat (- 1 - size_of old) = unat (- 1 :: size_t) - unat (size_of old)"
    by (rule unat_sub) simp
  also have "unat (- 1 :: size_t) = SIZE_MAX" by (simp add: unsigned_minus_1_eq_mask mask_eq_exp_minus_1 SIZE_MAX_def)
  finally show "\<not> size_of val > - 1 - size_of old"
    using le lim u by (simp add: word_less_nat_alt)
  have s: "unat (size_of old + size_of val) = length (old @ val)"
    using le lim u by (subst unat_add_bound) simp_all
  with le have "unat (size_of old + size_of val) \<le> 2 * MEM_MAX" by simp
  from int64_of_size_mem [OF this] show "int64_of_size (size_of old + size_of val) = int (length (old @ val))"
    "int64_range (int (length (old @ val)))" by (simp_all only: s)
qed

lemma answers_oom_now:
  assumes "ctx_inv c" "malloc (c_mem c) = (None, m')"
  shows "answers [] c x (reply_error (cstr ''ERR out of memory'') (c\<lparr>c_mem := m'\<rparr>))"
proof (rule answers_oom)
  show s: "settles [] c (c\<lparr>c_mem := m'\<rparr>)"
    using assms malloc_None(4) [OF assms(2)]
    by (auto simp: settles_def ctx_inv_def ctx_blocks_def intro: owns_malloc_None)
  show "emits (c\<lparr>c_mem := m'\<rparr>) out_of_memory (reply_error (cstr ''ERR out of memory'') (c\<lparr>c_mem := m'\<rparr>))"
    using s by (intro emits_oom) (simp add: settles_def)
  show "\<not> mem_plenty (c_mem c)" using assms(2) by (rule malloc_None)
qed simp

lemma ctx_inv_mem [simp]: "ctx_inv (c\<lparr>c_mem := m\<rparr>) = ctx_inv c"
  by (simp add: ctx_inv_def)

lemma implements_append:
  assumes "ctx_inv c" "in_memory (ht_abs (c_store c)) [n, k, v]"
  shows "implements c (Append k v) (cmd_append c [n, k, v])"
proof (cases "ht_abs (c_store c) k")
  case None
  have "length v \<le> MEM_MAX" using assms(2) by (simp add: in_memory_def)
  from int64_size_mem [OF this] None assms(1) show ?thesis
    by (simp add: implements_def cmd_append_def ht_get_abs answers_store emits_integer)
next
  case (Some old)
  have "length old \<le> MEM_MAX" "length v \<le> MEM_MAX"
    using Some assms(2) by (auto simp: in_memory_def)
  note sz = append_sizes [OF this]
  obtain p m' where m: "malloc (c_mem c) = (p, m')" by fastforce
  show ?thesis
  proof (cases p)
    case None
    with Some m sz(1) show ?thesis
      using answers_oom_now [OF assms(1)]
      by (simp add: implements_def cmd_append_def ht_get_abs)
  next
    case (Some tmp)
    define c1 where "c1 = c\<lparr>c_mem := m'\<rparr>"
    let ?res = "case store_set c1 k (old @ v) of
       (RC_ERR, c2) \<Rightarrow> reply_error (cstr ''ERR out of memory'') c2
     | (RC_OK, c2) \<Rightarrow> reply_integer (int (length (old @ v))) c2"
    obtain r c2 where res: "?res = (r, c2)" by fastforce
    have "answers [] c1 (RInt (int (length (old @ v))), (ht_abs (c_store c))(k \<mapsto> old @ v)) ?res"
      using assms(1) sz(3) by (intro answers_store emits_integer) (simp_all add: c1_def)
    then have "answers [tmp] c1 (RInt (int (length (old @ v))), (ht_abs (c_store c))(k \<mapsto> old @ v))
        (r, c2\<lparr>c_mem := mfree tmp (c_mem c2)\<rparr>)"
      unfolding res using answers_release [of c1 _ r c2 "Some tmp"] by (simp add: mfree_opt_def)
    then have "answers [] c (RInt (int (length (old @ v))), (ht_abs (c_store c))(k \<mapsto> old @ v))
        (r, c2\<lparr>c_mem := mfree tmp (c_mem c2)\<rparr>)"
      using m Some by (intro answers_malloc [of c tmp m']) (simp_all add: c1_def)
    moreover have "cmd_append c [n, k, v] = (r, c2\<lparr>c_mem := mfree tmp (c_mem c2)\<rparr>)"
      using \<open>ht_abs (c_store c) k = Some old\<close> Some m sz(1) res [folded sz(2)]
      by (simp add: cmd_append_def ht_get_abs c1_def)
    ultimately show ?thesis
      using \<open>ht_abs (c_store c) k = Some old\<close> by (simp add: implements_def)
  qed
qed

lemma implements_setnx:
  assumes "ctx_inv c"
  shows "implements c (Setnx k v) (cmd_setnx c [n, k, v])"
  using assms int64_range_small [of 0] int64_range_small [of 1]
  by (auto simp: implements_def cmd_setnx_def ht_get_abs MEM_MAX_def
           intro!: answers_now answers_store emits_integer)

lemma getset_store_answers:
  assumes "ctx_inv c" "\<And>old. hit = Some old \<Longrightarrow> length old \<le> SIZE_MAX"
  shows "answers (case p of None \<Rightarrow> [] | Some a \<Rightarrow> [a]) c
    (case hit of None \<Rightarrow> RNil | Some old \<Rightarrow> RBulk old, (ht_abs (c_store c))(k \<mapsto> v))
    (cmd_getset_store c k v hit p)"
proof -
  let ?reply = "\<lambda>c1. case hit of Some old \<Rightarrow> reply_bulk old c1 | None \<Rightarrow> reply_nil c1"
  obtain rc c1 where s: "store_set c k v = (rc, c1)" by fastforce
  show ?thesis
  proof (cases rc)
    case RC_OK
    with s have s': "store_set c k v = (RC_OK, c1)" by simp
    note S = store_set_ok [OF assms(1) s']
    obtain r c2 where r: "?reply c1 = (r, c2)" by fastforce
    have "emits c1 (case hit of None \<Rightarrow> RNil | Some old \<Rightarrow> RBulk old) (?reply c1)"
      using S(1) assms(2) by (auto simp: settles_def intro!: emits_bulk emits_nil split: option.splits)
    from answers_release [OF answers_ok [OF S(1) this S(2), unfolded r], of p] show ?thesis
      by (simp add: cmd_getset_store_def s' r)
  next
    case RC_ERR
    with s have s': "store_set c k v = (RC_ERR, c1)" by simp
    note S = store_set_err [OF assms(1) s']
    have "ctx_inv c1" using S(1) by (simp add: settles_def)
    then have "emits (c1\<lparr>c_mem := mfree_opt p (c_mem c1)\<rparr>) out_of_memory
        (reply_error (cstr ''ERR out of memory'') (c1\<lparr>c_mem := mfree_opt p (c_mem c1)\<rparr>))"
      by (intro emits_oom) simp
    from answers_oom [OF settles_mfree_opt [OF S(1), of p] this] S(2,3) show ?thesis
      by (simp add: cmd_getset_store_def s')
  qed
qed

lemma implements_getset:
  assumes "ctx_inv c" "in_memory (ht_abs (c_store c)) [n, k, v]"
  shows "implements c (Getset k v) (cmd_getset c [n, k, v])"
proof -
  let ?hit = "ht_abs (c_store c) k"
  have sz: "length old \<le> SIZE_MAX" if "?hit = Some old" for old
    using in_memory_value [OF assms(2) that] by (rule MEM_MAX_SIZE_MAX)
  show ?thesis
  proof (cases "?hit \<noteq> None \<and> length (the ?hit) > 0")
    case False
    then have "cmd_getset c [n, k, v] = cmd_getset_store c k v ?hit None"
      by (auto simp: cmd_getset_def ht_get_abs Let_def)
    with getset_store_answers [OF assms(1) sz, where p = None] show ?thesis
      by (simp add: implements_def)
  next
    case True
    obtain p m' where m: "malloc (c_mem c) = (p, m')" by fastforce
    show ?thesis
    proof (cases p)
      case None
      with True m have "cmd_getset c [n, k, v] = reply_error (cstr ''ERR out of memory'') (c\<lparr>c_mem := m'\<rparr>)"
        by (auto simp: cmd_getset_def ht_get_abs Let_def)
      with answers_oom_now [OF assms(1)] m None show ?thesis by (simp add: implements_def)
    next
      case (Some a)
      with True m have eq: "cmd_getset c [n, k, v] = cmd_getset_store (c\<lparr>c_mem := m'\<rparr>) k v ?hit (Some a)"
        by (auto simp: cmd_getset_def ht_get_abs Let_def)
      have "answers [a] (c\<lparr>c_mem := m'\<rparr>)
          (case ?hit of None \<Rightarrow> RNil | Some old \<Rightarrow> RBulk old, (ht_abs (c_store c))(k \<mapsto> v))
          (cmd_getset_store (c\<lparr>c_mem := m'\<rparr>) k v ?hit (Some a))"
        using getset_store_answers [of "c\<lparr>c_mem := m'\<rparr>" ?hit "Some a" k v] assms(1) sz by simp
      with m Some show ?thesis by (auto simp: implements_def eq intro: answers_malloc)
    qed
  qed
qed

text \<open>Keyspace.\<close>

lemma implements_dbsize:
  assumes "ctx_inv c" "in_memory (ht_abs (c_store c)) [n]"
  shows "implements c Dbsize (cmd_dbsize c [n])"
proof -
  have inv: "ht_inv (c_store c)" using assms(1) by (simp add: ctx_inv_def)
  have card: "card (dom (ht_abs (c_store c))) \<le> MEM_MAX" using assms(2) by (simp add: in_memory_def)
  have u: "unat (ht_count (c_store c)) = card (dom (ht_abs (c_store c)))"
    using ht_count_card [OF inv] card by (simp add: unat_word_of_nat_size MEM_MAX_SIZE_MAX)
  with card have "unat (ht_count (c_store c)) \<le> 2 * MEM_MAX" by simp
  from int64_of_size_mem [OF this] show ?thesis
    using assms(1) unfolding u by (simp add: implements_def cmd_dbsize_def answers_now emits_integer)
qed

lemma implements_flushdb:
  assumes "ctx_inv c"
  shows "implements c Flushdb (cmd_flushdb c [n])"
proof -
  obtain m' st' where d: "ht_destroy (c_mem c) (c_store c) = (m', st')" by fastforce
  define c1 where "c1 = c\<lparr>c_mem := m', c_store := ht_init\<rparr>"
  have "ht_blocks ht_init = []" by (simp add: ht_blocks_def ht_entries_def ht_init_def concat_eq_Nil_conv)
  then have s: "settles [] c c1"
    using assms ht_destroy_owns [OF d] ht_destroy_plenty [OF d]
    by (simp add: settles_def c1_def ctx_inv_def ctx_blocks_def ht_init_inv)
  then have "emits c1 (RSimple (cstr ''OK'')) (reply_simple ''OK'' c1)"
    by (intro emits_pong_ok) (simp add: settles_def)
  with s have "answers [] c (RSimple (cstr ''OK''), Map.empty) (reply_simple ''OK'' c1)"
    by (rule answers_ok) (simp add: c1_def ht_init_abs)
  then show ?thesis by (simp add: implements_def cmd_flushdb_def d c1_def)
qed

lemma keys_count_pass:
  "\<not> k_write kc \<Longrightarrow>
   snd (snd (scan_chain keys_cb es n kc)) =
     kc\<lparr>k_matched := k_matched kc + word_of_nat (length (filter (glob_match (k_pattern kc)) (map e_key es)))\<rparr>"
  by (induction es arbitrary: n kc) (simp_all add: keys_cb_def)

lemma keys_emit_pass:
  "k_write kc \<Longrightarrow> \<not> k_emit_failed kc \<Longrightarrow>
   write_pieces bytebuf_append (k_mem kc) (k_out kc)
     (concat (map bulk_pieces (filter (glob_match (k_pattern kc)) (map e_key es)))) = (r, m', out') \<Longrightarrow>
   snd (snd (scan_chain keys_cb es n kc)) =
     kc\<lparr>k_mem := m', k_out := out', k_emit_failed := (r = RC_ERR)\<rparr>"
proof (induction es arbitrary: n kc)
  case (Cons e es)
  show ?case
  proof (cases "glob_match (k_pattern kc) (e_key e)")
    case False
    with Cons show ?thesis by (simp add: keys_cb_def)
  next
    case True
    obtain r1 m1 out1 where b: "resp_reply_bulk (k_mem kc) (k_out kc) (e_key e) = (r1, m1, out1)"
      by (metis prod_cases3)
    with Cons.prems True show ?thesis
      using Cons.IH [of "kc\<lparr>k_mem := m1, k_out := out1\<rparr>"]
      by (cases r1) (simp_all add: keys_cb_def write_pieces_append reply_bulk_pieces del: write_pieces.simps)
  qed
qed simp

lemma cmd_keys_pieces:
  "cmd_keys c [n, p] =
    (let ks = filter (glob_match p) (ht_keys (c_store c))
     in on_out (\<lambda>m out. write_pieces bytebuf_append m out
          ([42 # fmt_zu (word_of_nat (length ks)) @ crlf] @ concat (map bulk_pieces ks))) c)"
proof -
  define ks where "ks = filter (glob_match p) (ht_keys (c_store c))"
  let ?hdr = "42 # fmt_zu (word_of_nat (length ks)) @ crlf" and ?es = "ht_entries (c_store c)"
  define kc where "kc = \<lparr>k_mem = c_mem c, k_out = c_out c, k_pattern = p, k_matched = 0,
    k_write = False, k_emit_failed = False\<rparr>"
  have kc1: "snd (ht_scan (c_store c) keys_cb kc) = kc\<lparr>k_matched := word_of_nat (length ks)\<rparr>"
    by (simp add: ht_scan_flat keys_count_pass kc_def ks_def ht_keys_def)
  obtain r1 m1 o1 where h: "bytebuf_append (c_mem c) (c_out c) ?hdr = (r1, m1, o1)" by (metis prod_cases3)
  have hdr: "resp_reply_array_header (c_mem c) (c_out c) (word_of_nat (length ks)) = (r1, m1, o1)"
    by (simp only: reply_array_pieces write_pieces_1 h)
  obtain r2 m2 o2 where w: "write_pieces bytebuf_append m1 o1 (concat (map bulk_pieces ks)) = (r2, m2, o2)"
    by (metis prod_cases3)
  let ?kc2 = "kc\<lparr>k_matched := word_of_nat (length ks), k_mem := m1, k_out := o1, k_write := True\<rparr>"
  have "snd (ht_scan (c_store c) keys_cb ?kc2) = ?kc2\<lparr>k_mem := m2, k_out := o2, k_emit_failed := (r2 = RC_ERR)\<rparr>"
    unfolding ht_scan_flat by (rule keys_emit_pass) (use w in \<open>simp_all add: kc_def ks_def ht_keys_def\<close>)
  then have "cmd_keys c [n, p] = (case r1 of RC_ERR \<Rightarrow> (RC_ERR, c\<lparr>c_mem := m1, c_out := o1\<rparr>)
      | RC_OK \<Rightarrow> (r2, c\<lparr>c_mem := m2, c_out := o2\<rparr>))"
    using kc1 hdr by (cases r1; cases r2) (simp_all add: cmd_keys_def kc_def)
  also have "\<dots> = on_out (\<lambda>m out. write_pieces bytebuf_append m out ([?hdr] @ concat (map bulk_pieces ks))) c"
    using h w by (cases r1) (simp_all add: on_out_def)
  finally show ?thesis by (simp only: ks_def Let_def)
qed

lemma implements_keys:
  assumes "ctx_inv c" "in_memory (ht_abs (c_store c)) [n, p]"
  shows "implements c (Keys p) (cmd_keys c [n, p])"
proof -
  define ks where "ks = filter (glob_match p) (ht_keys (c_store c))"
  let ?hdr = "42 # fmt_zu (word_of_nat (length ks)) @ crlf"
  have inv: "ht_inv (c_store c)" using assms(1) by (simp add: ctx_inv_def)
  have "length k \<le> MEM_MAX" if "k \<in> set ks" for k
    using that ht_keys_dom [OF inv] assms(2) by (auto simp: ks_def in_memory_def)
  then have "\<forall>q\<in>set (concat (map bulk_pieces ks)). length q \<le> SIZE_MAX"
    using bulk_pieces_size by (force simp: MEM_MAX_SIZE_MAX)
  moreover have "length ?hdr \<le> SIZE_MAX"
    using fmt_zu_length [of "word_of_nat (length ks)"] by (simp add: SIZE_MAX_def)
  ultimately have "emits c (RArray ks) (on_out (\<lambda>m out. write_pieces bytebuf_append m out
      ([?hdr] @ concat (map bulk_pieces ks))) c)"
    using assms(1) by (intro emits_pieces [where ps = "[?hdr] @ concat (map bulk_pieces ks)"])
      (auto simp: concat_concat_bulk)
  then have "emits c (RArray ks) (cmd_keys c [n, p])"
    by (simp only: cmd_keys_pieces ks_def Let_def)
  moreover have "ks = filter (matches (compile p)) (ht_keys (c_store c))"
    unfolding ks_def by (rule filter_cong) (simp_all add: glob_match_matches)
  ultimately show ?thesis using assms(1) by (simp add: implements_def answers_now)
qed

section \<open>Dispatch\<close>

definition good :: "command_ctx \<Rightarrow> bytes + command \<Rightarrow> rc \<times> command_ctx \<Rightarrow> bool" where
  "good c d res \<longleftrightarrow> (case d of Inl e \<Rightarrow> emits c (RError e) res | Inr cmd \<Rightarrow> implements c cmd res)"

text \<open>What the dispatcher does with the entry it found.\<close>

definition run_entry :: "command_ctx \<Rightarrow> bytes list \<Rightarrow> string \<Rightarrow> int \<Rightarrow> int \<Rightarrow> handler \<Rightarrow> rc \<times> command_ctx" where
  "run_entry c args s lo hi h =
     (if int_of_argc (length args) < lo \<or> (hi \<noteq> -1 \<and> int_of_argc (length args) > hi)
      then reply_error (arity_error (cstr s)) c else h c args)"

definition chain :: "command_ctx \<Rightarrow> bytes \<Rightarrow> (bytes + command) option \<Rightarrow> rc \<times> command_ctx \<Rightarrow> bool" where
  "chain c name E res \<longleftrightarrow>
     (case E of Some d \<Rightarrow> good c d res | None \<Rightarrow> res = reply_error (unknown_error name) c)"

lemma chain_entry:
  assumes "map to_upper name = cstr s \<Longrightarrow> good c d (run_entry c (name # as) s lo hi h)"
    "chain c name E (dispatch es c (name # as))"
  shows "chain c name (if map to_upper name = cstr s then Some d else E)
    (dispatch (entry s lo hi h # es) c (name # as))"
  using assms by (auto simp: chain_def entry_def slice_eq_ci_iff run_entry_def Let_def)

definition plain_name :: "string \<Rightarrow> bool" where
  "plain_name s \<longleftrightarrow> list_all (\<lambda>x. of_char x \<noteq> (0 :: byte)) s \<and> length s \<le> 10"

lemma good_arity:
  assumes "ctx_inv c" "plain_name s" "n = cstr s"
  shows "good c (wrong_args n) (reply_error (arity_error (cstr s)) c)"
proof -
  have "length (quoted ''ERR wrong number of arguments for '' n) < 128"
    using assms(2,3) by (simp add: plain_name_def quoted_def cstr_def)
  then have eq: "arity_error (cstr s) = quoted ''ERR wrong number of arguments for '' n"
    using assms(3) by (simp add: arity_error_def snprintf_buf_def quoted_def)
  have "0 \<notin> set (quoted ''ERR wrong number of arguments for '' n)"
    using assms(2,3) by (auto simp: plain_name_def quoted_def cstr_def list_all_iff)
  moreover have "length (quoted ''ERR wrong number of arguments for '' n) \<le> SIZE_MAX"
    using \<open>length _ < 128\<close> by (simp add: SIZE_MAX_def)
  ultimately show ?thesis
    unfolding eq wrong_args_def good_def using assms(1) by (simp add: emits_error)
qed

text \<open>The patterns of arguments, for each pair of bounds in the table.\<close>

lemma run_entry_wrong:
  assumes "ctx_inv c" "plain_name s" "n = cstr s" "length args \<le> RESP_MAX_ARGC"
    "int (length args) < lo \<or> (hi \<noteq> -1 \<and> int (length args) > hi)"
  shows "good c (wrong_args n) (run_entry c args s lo hi h)"
  using assms good_arity [OF assms(1-3)] by (simp add: run_entry_def int_of_argc_small)

lemma run_entry_right:
  assumes "length args \<le> RESP_MAX_ARGC" "implements c cmd (h c args)"
    "lo \<le> int (length args)" "hi = -1 \<or> int (length args) \<le> hi"
  shows "good c (Inr cmd) (run_entry c args s lo hi h)"
  using assms by (auto simp: run_entry_def int_of_argc_small good_def)

lemma good_0:
  assumes "ctx_inv c" "plain_name s" "n = cstr s" "length (name # as) \<le> RESP_MAX_ARGC"
    "as = [] \<Longrightarrow> implements c C (h c [name])"
  shows "good c (case as of [] \<Rightarrow> Inr C | _ \<Rightarrow> wrong_args n) (run_entry c (name # as) s 1 1 h)"
  using assms(4,5) by (auto split: list.split intro!: run_entry_wrong [OF assms(1-3)] run_entry_right)

lemma good_1:
  assumes "ctx_inv c" "plain_name s" "n = cstr s" "length (name # as) \<le> RESP_MAX_ARGC"
    "\<And>k. as = [k] \<Longrightarrow> implements c (C k) (h c [name, k])"
  shows "good c (case as of [k] \<Rightarrow> Inr (C k) | _ \<Rightarrow> wrong_args n) (run_entry c (name # as) s 2 2 h)"
  using assms(4,5) by (auto split: list.split intro!: run_entry_wrong [OF assms(1-3)] run_entry_right)

lemma good_2:
  assumes "ctx_inv c" "plain_name s" "n = cstr s" "length (name # as) \<le> RESP_MAX_ARGC"
    "\<And>k v. as = [k, v] \<Longrightarrow> implements c (C k v) (h c [name, k, v])"
  shows "good c (case as of [k, v] \<Rightarrow> Inr (C k v) | _ \<Rightarrow> wrong_args n) (run_entry c (name # as) s 3 3 h)"
  using assms(4,5) by (auto split: list.split intro!: run_entry_wrong [OF assms(1-3)] run_entry_right)

lemma good_some:
  assumes "ctx_inv c" "plain_name s" "n = cstr s" "length (name # as) \<le> RESP_MAX_ARGC"
    "implements c C (h c (name # as))"
  shows "good c (case as of [] \<Rightarrow> wrong_args n | _ \<Rightarrow> Inr C) (run_entry c (name # as) s 2 (-1) h)"
  using assms(4,5) by (auto split: list.split intro!: run_entry_wrong [OF assms(1-3)] run_entry_right)

lemma good_ping:
  assumes "ctx_inv c" "plain_name s" "n = cstr s" "in_memory (ht_abs (c_store c)) (name # as)"
  shows "good c (case as of [] \<Rightarrow> Inr Ping | [x] \<Rightarrow> Inr (Echo x) | _ \<Rightarrow> wrong_args n)
    (run_entry c (name # as) s 1 2 cmd_ping)"
proof -
  have "length (name # as) \<le> RESP_MAX_ARGC" using assms(4) by (simp add: in_memory_def)
  then show ?thesis
    using assms(1,4) implements_ping implements_echo
    by (auto split: list.split intro!: run_entry_wrong [OF assms(1-3)] run_entry_right)
qed

lemma good_command:
  "ctx_inv c \<Longrightarrow> length (name # as) \<le> RESP_MAX_ARGC \<Longrightarrow>
   good c (Inr Command_Docs) (run_entry c (name # as) s 1 (-1) cmd_command)"
  by (rule run_entry_right) (simp_all add: implements_command)

lemma dispatch_chain:
  assumes inv: "ctx_inv c" and mem: "in_memory (ht_abs (c_store c)) (name # as)"
  shows "chain c name (decode_named (map to_upper name) as) (dispatch commands c (name # as))"
proof -
  have len: "length (name # as) \<le> RESP_MAX_ARGC" using mem by (simp add: in_memory_def)
  note good = good_0 [OF inv _ _ len] good_1 [OF inv _ _ len] good_2 [OF inv _ _ len] good_some [OF inv _ _ len]
    good_ping [OF inv _ _ mem] good_command [OF inv len]
  note impl = implements_get implements_set implements_del implements_exists implements_incr implements_decr
    implements_incrby implements_decrby implements_strlen implements_append implements_keys
    implements_dbsize implements_flushdb implements_setnx implements_getset
  show ?thesis
    unfolding decode_named_def commands_def
    by (intro chain_entry good)
       (simp_all add: plain_name_def chain_def, (use inv mem in \<open>blast intro: impl\<close>)+)
qed

lemma unknown_error_eq:
  "unknown_error name = quoted ''ERR unknown command '' (takeWhile (\<lambda>c. c \<noteq> 0) (take 64 name))"
  "0 \<notin> set (unknown_error name)" "length (unknown_error name) \<le> SIZE_MAX"
proof -
  let ?echo = "takeWhile (\<lambda>c. c \<noteq> (0::byte)) (take 64 name)"
  have "length ?echo \<le> length (take 64 name)" by (rule length_takeWhile_le)
  then have len: "length (quoted ''ERR unknown command '' ?echo) \<le> 100"
    by (simp add: quoted_def cstr_def)
  have "take (if length name < 64 then length name else 64) name = take 64 name" by simp
  then have "unknown_error name = snprintf_buf 128 (quoted ''ERR unknown command '' ?echo)"
    by (simp add: unknown_error_def quoted_def c_chars_def Let_def)
  with len show eq: "unknown_error name = quoted ''ERR unknown command '' ?echo"
    by (simp add: snprintf_buf_def)
  show "length (unknown_error name) \<le> SIZE_MAX"
    unfolding eq using len by (simp add: SIZE_MAX_def)
  have "0 \<notin> set ?echo" by (auto dest: set_takeWhileD)
  then show "0 \<notin> set (unknown_error name)"
    unfolding eq by (simp add: quoted_def cstr_def)
qed

lemma emits_good: "ctx_inv c \<Longrightarrow> emits c (RError e) res \<Longrightarrow> answers [] c (RError e, ht_abs (c_store c)) res"
  by (simp add: answers_now)

lemma command_execute_answers:
  assumes inv: "ctx_inv c" and mem: "in_memory (ht_abs (c_store c)) args"
  shows "answers [] c (exec (ht_keys (c_store c)) (ht_abs (c_store c)) args) (command_execute c args)"
proof (cases args)
  case Nil
  have "emits c (RError (cstr ''ERR empty command'')) (reply_error (cstr ''ERR empty command'') c)"
    using inv by (rule emits_text) simp_all
  with Nil inv show ?thesis by (simp add: exec_def decode_def command_execute_def emits_good)
next
  case (Cons name as)
  note ch = dispatch_chain [OF inv mem [unfolded Cons]]
  have ex: "command_execute c args = dispatch commands c (name # as)"
    by (simp only: command_execute_def Cons list.size) simp
  show ?thesis
  proof (cases "decode_named (map to_upper name) as")
    case None
    with ch have "dispatch commands c (name # as) = reply_error (unknown_error name) c"
      by (simp add: chain_def)
    moreover have "emits c (RError (unknown_error name)) (reply_error (unknown_error name) c)"
      using inv unknown_error_eq by (intro emits_error)
    ultimately show ?thesis
      using None inv unknown_error_eq(1) [of name]
      unfolding ex by (simp add: exec_def decode_def Cons emits_good)
  next
    case (Some d)
    with ch have "good c d (dispatch commands c (name # as))" by (simp add: chain_def)
    with Some inv show ?thesis
      unfolding ex by (cases d) (simp_all add: exec_def decode_def Cons good_def implements_def emits_good)
  qed
qed

end
