(* ===== verification/Command_Laws.thy ===== *)
theory Command_Laws
  imports Command_Refine
begin

text \<open>
  The properties of the command layer: \<open>command_execute\<close> against the specification of the
  commands, what errors and failed allocations leave behind, and the helpers on names, numbers and
  patterns.
\<close>

section \<open>Consequences of the refinement\<close>

lemma execute_cases:
  assumes "ctx_inv c" "in_memory (ht_abs (c_store c)) args" "command_execute c args = (rc, c')"
  obtains r where "ctx_inv c'" "written c r rc c'"
    "(r, ht_abs (c_store c')) = exec (ht_keys (c_store c)) (ht_abs (c_store c)) args \<or>
     r = out_of_memory \<and> c_store c' = c_store c \<and> \<not> mem_plenty (c_mem c)"
  using command_execute_answers [OF assms(1,2)] assms(3) by (auto simp: answers_def prod_eq_iff)

lemma execute_plenty:
  assumes "ctx_inv c" "in_memory (ht_abs (c_store c)) args" "mem_plenty (c_mem c)"
    "exec (ht_keys (c_store c)) (ht_abs (c_store c)) args = (r, mp)"
    "length (ctx_reply c) + length (encode_reply r) \<le> BUF_LIMIT"
  obtains c' where "command_execute c args = (RC_OK, c')" "ctx_inv c'" "mem_plenty (c_mem c')"
    "ctx_reply c' = ctx_reply c @ encode_reply r" "ht_abs (c_store c') = mp"
proof -
  obtain rc c' where e: "command_execute c args = (rc, c')" by fastforce
  from execute_cases [OF assms(1,2) e] obtain q where q: "ctx_inv c'" "written c q rc c'"
    "(q, ht_abs (c_store c')) = exec (ht_keys (c_store c)) (ht_abs (c_store c)) args"
    using assms(3) by blast
  then have "q = r" "ht_abs (c_store c') = mp" using assms(4) by simp_all
  with q(1,2) assms(3,5) e show ?thesis by (intro that [of c']) (auto simp: written_def)
qed

text \<open>An error reply of the specification changes nothing.\<close>

lemma exec_error_same: "exec order mp args = (RError e, mp') \<Longrightarrow> mp' = mp"
proof (cases "decode args")
  case (Inr cmd)
  assume "exec order mp args = (RError e, mp')"
  then show ?thesis
    by (cases cmd) (auto simp: exec_def Inr Let_def not_integer_def would_overflow_def split: option.splits if_splits)
qed (simp add: exec_def)

definition fresh_ctx :: command_ctx where
  "fresh_ctx = \<lparr>c_mem = mem_init [], c_store = ht_init, c_out = bytebuf_init\<rparr>"

lemma fresh_ctx_props [simp]:
  "ctx_inv fresh_ctx" "mem_plenty (c_mem fresh_ctx)" "ht_abs (c_store fresh_ctx) = Map.empty"
  "ctx_reply fresh_ctx = []" "ctx_blocks fresh_ctx = []" "owns (c_mem fresh_ctx) [] alone"
proof -
  have "ht_blocks ht_init = []"
    by (simp add: ht_blocks_def ht_entries_def ht_init_def concat_replicate_trivial)
  then show "ctx_inv fresh_ctx" "mem_plenty (c_mem fresh_ctx)" "ht_abs (c_store fresh_ctx) = Map.empty"
    "ctx_reply fresh_ctx = []" "ctx_blocks fresh_ctx = []" "owns (c_mem fresh_ctx) [] alone"
    by (simp_all add: fresh_ctx_def ctx_inv_def ht_init_inv ht_init_abs ctx_reply_def ctx_blocks_def)
qed

lemma in_memory_empty:
  "list_all (\<lambda>a. length a \<le> 1000) args \<Longrightarrow> length args \<le> RESP_MAX_ARGC \<Longrightarrow> in_memory Map.empty args"
  by (auto simp: in_memory_def MEM_MAX_def list_all_iff)

section \<open>Properties of command_execute\<close>

text \<open>
  C1. \<open>command_execute\<close> implements the commands: from a sound context it replies what the
  specification says for the decoded arguments and leaves the store the specification says;
  or an allocation failed, and it replies the out-of-memory error and leaves the store as it was.
  On status 0 the whole reply was appended, otherwise a prefix of it; without failures and
  with room in the buffer the status is 0.
\<close>

theorem command_execute_refines:
  assumes "ctx_inv c" "in_memory (ht_abs (c_store c)) args"
  shows "case command_execute c args of (rc, c') \<Rightarrow> ctx_inv c' \<and>
    (\<exists>r. ((r, ht_abs (c_store c')) = exec (ht_keys (c_store c)) (ht_abs (c_store c)) args \<or>
          r = out_of_memory \<and> c_store c' = c_store c \<and> \<not> mem_plenty (c_mem c)) \<and>
      (\<exists>p s. encode_reply r = p @ s \<and> ctx_reply c' = ctx_reply c @ p \<and> (rc = RC_OK \<longrightarrow> s = [])) \<and>
      (mem_plenty (c_mem c) \<and> length (ctx_reply c) + length (encode_reply r) \<le> unat BYTEBUF_MAX \<longrightarrow> rc = RC_OK))"
proof -
  obtain rc c' where e: "command_execute c args = (rc, c')" by fastforce
  from execute_cases [OF assms e] obtain r where "ctx_inv c'" "written c r rc c'"
    "(r, ht_abs (c_store c')) = exec (ht_keys (c_store c)) (ht_abs (c_store c)) args \<or>
     r = out_of_memory \<and> c_store c' = c_store c \<and> \<not> mem_plenty (c_mem c)" .
  then show ?thesis unfolding e by (auto simp: written_def)
qed

theorem command_execute_refines_witness:
  "case command_execute fresh_ctx [cstr ''ping''] of (rc, c') \<Rightarrow>
     rc = RC_OK \<and> ctx_reply c' = encode_reply (RSimple (cstr ''PONG'')) \<and> ht_abs (c_store c') = Map.empty"
proof -
  have m: "in_memory (ht_abs (c_store fresh_ctx)) [cstr ''ping'']"
    by (simp add: in_memory_empty cstr_def RESP_MAX_ARGC_def)
  have "map to_upper (cstr ''ping'') = cstr ''PING''" by (simp add: cstr_def to_upper_def)
  then have "exec order mp [cstr ''ping''] = (RSimple (cstr ''PONG''), mp)" for order mp
    by (simp add: exec_def decode_def decode_named_def)
  with command_execute_refines [OF fresh_ctx_props(1) m] show ?thesis
    by (auto simp: BUF_LIMIT_def cstr_def split: prod.splits)
qed

text \<open>
  C13. \<open>command_execute\<close> keeps account of every block: if the live blocks were those of the store,
  the reply buffer and a set of others, so they are afterwards, with nothing freed twice, on
  every path, the failing ones included. Temporary buffers do not outlive the call.
\<close>

theorem command_execute_no_leak:
  assumes "ctx_inv c" "in_memory (ht_abs (c_store c)) args" "owns (c_mem c) (ctx_blocks c) F"
  shows "case command_execute c args of (rc, c') \<Rightarrow> owns (c_mem c') (ctx_blocks c') F"
proof -
  obtain rc c' where e: "command_execute c args = (rc, c')" by fastforce
  have "\<forall>xs F. owns (c_mem c) (ctx_blocks c @ [] @ xs) F \<longrightarrow> owns (c_mem c') (ctx_blocks c' @ xs) F"
    using command_execute_answers [OF assms(1,2)] by (simp add: answers_def e)
  from this [rule_format, of "[]" F] assms(3) show ?thesis by (simp add: e)
qed

theorem command_execute_no_leak_witness:
  "case command_execute fresh_ctx [cstr ''SET'', cstr ''k'', cstr ''v''] of (rc, c') \<Rightarrow>
     m_live (c_mem c') = set (ctx_blocks c') \<and> \<not> m_bad (c_mem c')"
proof -
  have m: "in_memory (ht_abs (c_store fresh_ctx)) [cstr ''SET'', cstr ''k'', cstr ''v'']"
    by (simp add: in_memory_empty cstr_def RESP_MAX_ARGC_def)
  have "owns (c_mem fresh_ctx) (ctx_blocks fresh_ctx) alone" by simp
  from command_execute_no_leak [OF fresh_ctx_props(1) m this] show ?thesis
    by (simp add: owns_def split: prod.splits)
qed

text \<open>
  C22. A command that replies an error, whether for its name, its arity, a value that is not
  an integer, an overflow or a failed allocation, has no effect on the data: when the bytes it
  appends to the reply buffer begin with the minus sign of an error, the store holds what it held.
\<close>

theorem error_reply_no_effect:
  assumes "ctx_inv c" "in_memory (ht_abs (c_store c)) args"
    "command_execute c args = (rc, c')" "ctx_reply c' = ctx_reply c @ 45 # w"
  shows "ht_abs (c_store c') = ht_abs (c_store c)"
proof -
  from execute_cases [OF assms(1-3)] obtain r where r: "written c r rc c'"
    "(r, ht_abs (c_store c')) = exec (ht_keys (c_store c)) (ht_abs (c_store c)) args \<or>
     r = out_of_memory \<and> c_store c' = c_store c \<and> \<not> mem_plenty (c_mem c)" .
  from r(1) assms(4) obtain s where "encode_reply r = 45 # w @ s" by (auto simp: written_def)
  then obtain e where "r = RError e" by (cases r) (auto simp: bulk_bytes_def cstr_def)
  with r(2) exec_error_same [of "ht_keys (c_store c)" "ht_abs (c_store c)" args e] show ?thesis by auto
qed

theorem error_reply_no_effect_witness:
  "\<exists>c' w. command_execute fresh_ctx [cstr ''NOSUCH''] = (RC_OK, c') \<and> ctx_reply c' = 45 # w \<and>
     ht_abs (c_store c') = Map.empty"
proof -
  have m: "in_memory (ht_abs (c_store fresh_ctx)) [cstr ''NOSUCH'']"
    by (simp add: in_memory_empty cstr_def RESP_MAX_ARGC_def)
  let ?e = "quoted ''ERR unknown command '' (cstr ''NOSUCH'')"
  have x: "exec (ht_keys (c_store fresh_ctx)) (ht_abs (c_store fresh_ctx)) [cstr ''NOSUCH''] = (RError ?e, Map.empty)"
    by (simp add: exec_def decode_def decode_named_def cstr_def to_upper_def)
  have "length (ctx_reply fresh_ctx) + length (encode_reply (RError ?e)) \<le> BUF_LIMIT"
    by (simp add: quoted_def cstr_def BUF_LIMIT_def)
  from execute_plenty [OF fresh_ctx_props(1) m fresh_ctx_props(2) x this]
  obtain c' where c': "command_execute fresh_ctx [cstr ''NOSUCH''] = (RC_OK, c')"
    "ctx_reply c' = ctx_reply fresh_ctx @ encode_reply (RError ?e)" by metis
  then have "ctx_reply c' = ctx_reply fresh_ctx @ 45 # ?e @ crlf" by simp
  from error_reply_no_effect [OF fresh_ctx_props(1) m c'(1) this] c' show ?thesis by simp
qed

text \<open>
  C20. A value that was set is read back byte for byte: after \<open>SET k v\<close>, \<open>GET k\<close> replies the
  bulk string \<open>v\<close>, for every binary \<open>k\<close> and \<open>v\<close> (NUL, CR and LF included), when no allocation fails, the
  data are in memory and the buffer has room for the replies.
\<close>

theorem set_get_roundtrip:
  assumes "ctx_inv c" "mem_plenty (c_mem c)" "in_memory (ht_abs (c_store c)) [cstr ''SET'', k, v]"
    "card (dom (ht_abs (c_store c))) < MEM_MAX"
    "length (ctx_reply c) + length v + 100 \<le> unat BYTEBUF_MAX"
  shows "\<exists>c1 c2. command_execute c [cstr ''SET'', k, v] = (RC_OK, c1) \<and>
    command_execute c1 [cstr ''GET'', k] = (RC_OK, c2) \<and>
    ctx_reply c2 = ctx_reply c @ encode_reply (RSimple (cstr ''OK'')) @ encode_reply (RBulk v)"
proof -
  let ?mp = "ht_abs (c_store c)"
  have lv: "length (encode_reply (RBulk v)) \<le> length v + 30" "length (encode_reply (RSimple (cstr ''OK''))) = 5"
    using fmt_zu_length [of "size_of v"] by (simp_all add: bulk_bytes_def cstr_def)
  have d: "exec order mp [cstr ''SET'', k, v] = (RSimple (cstr ''OK''), mp(k \<mapsto> v))"
    "exec order mp [cstr ''GET'', k] = (case mp k of None \<Rightarrow> RNil | Some x \<Rightarrow> RBulk x, mp)" for order mp
    by (simp_all add: exec_def decode_def decode_named_def cstr_def to_upper_def)
  have r1: "length (ctx_reply c) + length (encode_reply (RSimple (cstr ''OK''))) \<le> BUF_LIMIT"
    using assms(5) lv(2) by simp
  from execute_plenty [OF assms(1,3,2) d(1) r1] obtain c1 where
    c1: "command_execute c [cstr ''SET'', k, v] = (RC_OK, c1)" "ctx_inv c1" "mem_plenty (c_mem c1)"
      "ctx_reply c1 = ctx_reply c @ encode_reply (RSimple (cstr ''OK''))" "ht_abs (c_store c1) = ?mp(k \<mapsto> v)"
    by metis
  have "finite (dom ?mp)"
    using assms(1) ht_keys_dom [of "c_store c"] by (metis ctx_inv_def List.finite_set)
  then have "card (dom (?mp(k \<mapsto> v))) \<le> MEM_MAX" using assms(4) by (simp add: card_insert_if)
  then have m1: "in_memory (ht_abs (c_store c1)) [cstr ''GET'', k]"
    using assms(3) by (auto simp: in_memory_def c1(5) cstr_def RESP_MAX_ARGC_def split: if_splits)
  have x: "exec (ht_keys (c_store c1)) (ht_abs (c_store c1)) [cstr ''GET'', k] = (RBulk v, ?mp(k \<mapsto> v))"
    by (simp add: d(2) c1(5))
  have "length (ctx_reply c1) + length (encode_reply (RBulk v)) \<le> BUF_LIMIT"
    unfolding c1(4) length_append using lv assms(5) by simp
  from execute_plenty [OF c1(2) m1 c1(3) x this] obtain c2 where
    "command_execute c1 [cstr ''GET'', k] = (RC_OK, c2)" "ctx_reply c2 = ctx_reply c1 @ encode_reply (RBulk v)"
    by metis
  with c1(1,4) show ?thesis by (auto simp del: encode_reply.simps)
qed

theorem set_get_roundtrip_witness:
  "\<exists>c1 c2. command_execute fresh_ctx [cstr ''SET'', [0, 13, 10], [255, 0]] = (RC_OK, c1) \<and>
    command_execute c1 [cstr ''GET'', [0, 13, 10]] = (RC_OK, c2) \<and>
    ctx_reply c2 = encode_reply (RSimple (cstr ''OK'')) @ encode_reply (RBulk [255, 0])"
  using set_get_roundtrip [of fresh_ctx "[0, 13, 10]" "[255, 0]"]
  by (simp add: in_memory_empty cstr_def RESP_MAX_ARGC_def MEM_MAX_def BUF_LIMIT_def del: encode_reply.simps)

section \<open>Properties of the handlers\<close>

text \<open>A numeral beyond \<open>PARSE_MAX\<close> is not read, a 64-bit integer or not.\<close>

lemma int64_arg_fmt_beyond: "int PARSE_MAX < \<bar>n\<bar> \<Longrightarrow> int64_arg (fmt_d64 n) = None"
proof -
  assume "int PARSE_MAX < \<bar>n\<bar>"
  then have big: "\<not> digits_within (dec_digits (nat \<bar>n\<bar>))" by (auto simp: digits_within_def)
  show ?thesis
  proof (cases "n < 0")
    case True
    with big show ?thesis by (simp add: fmt_d64_def int64_arg_def)
  next
    case False
    with big show ?thesis by (simp add: fmt_d64_def int64_arg_plain digits_hd)
  qed
qed

lemma incr_reply_length:
  "run order mp (Incr k d) = (r, mp') \<Longrightarrow> length (encode_reply r) \<le> 100"
proof -
  have "length (fmt_d64 n) \<le> 24" if "int64_range n" for n using fmt_d64_length [OF that] by simp
  moreover have "length (encode_reply not_integer) \<le> 100" "length (encode_reply would_overflow) \<le> 100"
    by (simp_all add: not_integer_def would_overflow_def cstr_def crlf_def)
  ultimately show "run order mp (Incr k d) = (r, mp') \<Longrightarrow> length (encode_reply r) \<le> 100"
    by (fastforce simp: crlf_def split: option.splits if_splits)
qed

text \<open>
  C24. \<open>INCRBY\<close> adds exactly, as long as no allocation fails. A decimal is readable if its absolute
  value is at most \<open>PARSE_MAX\<close>, eight below \<open>INT64_MAX\<close> (\<open>int64_arg\<close>). With a readable increment and a
  readable (or missing) value, the sum is stored in decimal and replied when it is a 64-bit integer,
  and otherwise the store is untouched and the reply is the overflow error: no signed overflow
  decides. When the increment or the value is not readable, the store is untouched and the reply is the error for
  what is no integer; that includes a stored 64-bit integer beyond \<open>PARSE_MAX\<close>, even one that
  \<open>INCRBY\<close> itself stored. With 100 bytes of room in the buffer the reply is complete.
\<close>

theorem incrby_exact:
  assumes "ctx_inv c" "mem_plenty (c_mem c)"
  shows "case cmd_incrby c [name, k, d] of (rc, c') \<Rightarrow>
    (length (ctx_reply c) + 100 \<le> BUF_LIMIT \<longrightarrow> rc = RC_OK) \<and>
    (case (int64_arg d, case ht_get (c_store c) k of None \<Rightarrow> Some 0 | Some v \<Rightarrow> int64_arg v) of
       (Some delta, Some cur) \<Rightarrow>
         (if int64_range (cur + delta)
          then ht_abs (c_store c') = (ht_abs (c_store c))(k \<mapsto> fmt_d64 (cur + delta)) \<and>
               (rc = RC_OK \<longrightarrow> ctx_reply c' = ctx_reply c @ encode_reply (RInt (cur + delta)))
          else ht_abs (c_store c') = ht_abs (c_store c) \<and>
               (rc = RC_OK \<longrightarrow> ctx_reply c' = ctx_reply c @ encode_reply would_overflow))
     | _ \<Rightarrow> ht_abs (c_store c') = ht_abs (c_store c) \<and>
           (rc = RC_OK \<longrightarrow> ctx_reply c' = ctx_reply c @ encode_reply not_integer)) \<and>
    (\<forall>n. int PARSE_MAX < \<bar>n\<bar> \<longrightarrow> d = fmt_d64 n \<or> ht_get (c_store c) k = Some (fmt_d64 n) \<longrightarrow>
       ht_abs (c_store c') = ht_abs (c_store c) \<and>
       (rc = RC_OK \<longrightarrow> ctx_reply c' = ctx_reply c @ encode_reply not_integer))"
proof -
  let ?mp = "ht_abs (c_store c)"
  obtain rc c' where e: "cmd_incrby c [name, k, d] = (rc, c')" by fastforce
  obtain r mp' where x: "run (ht_keys (c_store c)) ?mp (Incr k (int64_arg d)) = (r, mp')" by fastforce
  from implements_incrby [OF assms(1), of k d name] assms(2) have a: "ht_abs (c_store c') = mp'" "written c r rc c'"
    by (auto simp: implements_def answers_def e x simp del: run.simps)
  have w: "rc = RC_OK \<Longrightarrow> ctx_reply c' = ctx_reply c @ encode_reply r"
    "length (ctx_reply c) + 100 \<le> BUF_LIMIT \<Longrightarrow> rc = RC_OK"
    using a(2) incr_reply_length [OF x] assms(2) by (auto simp: written_def)
  have beyond: "(r, mp') = (not_integer, ?mp)"
    if "int PARSE_MAX < \<bar>n\<bar>" "d = fmt_d64 n \<or> ht_get (c_store c) k = Some (fmt_d64 n)" for n
    using x that int64_arg_fmt_beyond [OF that(1)] by (auto simp: ht_get_abs split: option.splits)
  have cases: "case (int64_arg d, case ht_get (c_store c) k of None \<Rightarrow> Some 0 | Some v \<Rightarrow> int64_arg v) of
       (Some delta, Some cur) \<Rightarrow>
         (if int64_range (cur + delta)
          then ht_abs (c_store c') = ?mp(k \<mapsto> fmt_d64 (cur + delta)) \<and>
               (rc = RC_OK \<longrightarrow> ctx_reply c' = ctx_reply c @ encode_reply (RInt (cur + delta)))
          else ht_abs (c_store c') = ?mp \<and> (rc = RC_OK \<longrightarrow> ctx_reply c' = ctx_reply c @ encode_reply would_overflow))
     | _ \<Rightarrow> ht_abs (c_store c') = ?mp \<and> (rc = RC_OK \<longrightarrow> ctx_reply c' = ctx_reply c @ encode_reply not_integer)"
    using x a(1) w(1) by (auto simp: ht_get_abs simp del: encode_reply.simps split: option.splits if_splits)
  have room: "length (ctx_reply c) + 100 \<le> BUF_LIMIT \<longrightarrow> rc = RC_OK" using w(2) by blast
  have far: "\<forall>n. int PARSE_MAX < \<bar>n\<bar> \<longrightarrow> d = fmt_d64 n \<or> ht_get (c_store c) k = Some (fmt_d64 n) \<longrightarrow>
       ht_abs (c_store c') = ?mp \<and> (rc = RC_OK \<longrightarrow> ctx_reply c' = ctx_reply c @ encode_reply not_integer)"
    using a(1) w(1) beyond by blast
  show ?thesis
    unfolding e prod.case by (intro conjI room cases [unfolded prod.case] far)
qed

theorem incrby_exact_witness:
  "case cmd_incrby fresh_ctx [cstr ''INCRBY'', cstr ''n'', cstr ''-42''] of (rc, c') \<Rightarrow>
     ht_get (c_store c') (cstr ''n'') = Some (cstr ''-42'')"
proof -
  have i: "int64_arg (cstr ''-42'') = Some (- 42)"
    using int64_arg_fmt [of "- 42"] by (simp add: PARSE_MAX_def fmt_d64_def dec_digits_big cstr_def)
  have f: "fmt_d64 (- 42) = cstr ''-42''" by (simp add: fmt_d64_def dec_digits_big cstr_def)
  have "int64_range (- 42)" by (simp add: int64_range_def INT64_MIN_def INT64_MAX_def)
  with incrby_exact [OF fresh_ctx_props(1,2), where name = "cstr ''INCRBY''" and k = "cstr ''n''" and d = "cstr ''-42''"] i f show ?thesis
    by (simp add: ht_get_abs split: prod.splits)
qed

text \<open>
  C30. \<open>KEYS\<close> replies an array of exactly the keys present that match the pattern, each
  once, and changes nothing: the two scans of the handler agree, so that the count in the header
  is the number of elements.
\<close>

theorem keys_lists_matches:
  assumes "ctx_inv c" "in_memory (ht_abs (c_store c)) [name, p]" "mem_plenty (c_mem c)"
    "cmd_keys c [name, p] = (RC_OK, c')"
  shows "\<exists>ks. ctx_reply c' = ctx_reply c @ encode_reply (RArray ks) \<and> distinct ks \<and>
    set ks = {k. ht_get (c_store c) k \<noteq> None \<and> matches (compile p) k} \<and>
    ht_abs (c_store c') = ht_abs (c_store c)"
proof (intro exI conjI)
  let ?ks = "filter (matches (compile p)) (ht_keys (c_store c))"
  have inv: "ht_inv (c_store c)" using assms(1) by (simp add: ctx_inv_def)
  have "written c (RArray ?ks) RC_OK c' \<and> ht_abs (c_store c') = ht_abs (c_store c)"
    using implements_keys [OF assms(1,2)] assms(3,4) by (auto simp: implements_def answers_def)
  then show "ctx_reply c' = ctx_reply c @ encode_reply (RArray ?ks)" "ht_abs (c_store c') = ht_abs (c_store c)"
    by (auto simp: written_def)
  show "distinct ?ks" using kv.keys_distinct [OF inv] by simp
  show "set ?ks = {k. ht_get (c_store c) k \<noteq> None \<and> matches (compile p) k}"
    using kv.keys_dom [OF inv] by (auto simp: ht_get_abs)
qed

theorem keys_lists_matches_witness:
  "\<exists>c'. cmd_keys fresh_ctx [cstr ''KEYS'', cstr ''*''] = (RC_OK, c') \<and> ctx_reply c' = encode_reply (RArray [])"
proof -
  have m: "in_memory (ht_abs (c_store fresh_ctx)) [cstr ''KEYS'', cstr ''*'']"
    by (simp add: in_memory_empty cstr_def RESP_MAX_ARGC_def)
  have k0: "ht_keys (c_store fresh_ctx) = []"
    using ht_keys_dom [of "c_store fresh_ctx"] fresh_ctx_props(1,3) by (simp add: ctx_inv_def)
  obtain rc c' where e: "cmd_keys fresh_ctx [cstr ''KEYS'', cstr ''*''] = (rc, c')" by fastforce
  have "written fresh_ctx (RArray []) rc c'"
    using implements_keys [OF fresh_ctx_props(1) m] by (simp add: implements_def answers_def e k0)
  then have "rc = RC_OK" by (simp add: written_def BUF_LIMIT_def fmt_zu_def)
  with e have e': "cmd_keys fresh_ctx [cstr ''KEYS'', cstr ''*''] = (RC_OK, c')" by simp
  from keys_lists_matches [OF fresh_ctx_props(1) m fresh_ctx_props(2) e'] obtain ks where
    ks: "ctx_reply c' = encode_reply (RArray ks)" "set ks = {}"
    by (auto simp: ht_get_abs simp del: encode_reply.simps)
  then show ?thesis using e' by simp
qed

section \<open>Properties of the helpers\<close>

text \<open>
  C31. The glob matcher, with its collapsed stars, its early exits and its class scanning,
  decides the meaning of the pattern read as a list of items.
\<close>

theorem glob_match_decides: "glob_match pat str \<longleftrightarrow> matches (compile pat) str"
  by (rule glob_match_matches)

text \<open>
  A pattern without special characters matches itself and nothing else.
\<close>

theorem glob_plain_exact:
  assumes "\<forall>c\<in>set pat. c \<notin> {CH_STAR, CH_QUEST, CH_OPEN, CH_ESC}"
  shows "glob_match pat str \<longleftrightarrow> str = pat"
  using glob_match_plain [of pat str] assms by (simp add: plain_char_def)

theorem glob_plain_exact_witness: "glob_match (cstr ''user:1'') (cstr ''user:1'') \<and> \<not> glob_match (cstr ''user:1'') []"
  using glob_plain_exact [of "cstr ''user:1''"]
  by (simp add: cstr_def CH_STAR_def CH_QUEST_def CH_OPEN_def CH_ESC_def)

text \<open>
  C35. \<open>parse_int64\<close> accepts exactly an optional minus sign followed by one or more digits
  whose value is at most \<open>PARSE_MAX\<close> (eight below \<open>INT64_MAX\<close>), and gives the integer they denote.
\<close>

theorem parse_int64_syntax: "parse_int64 bs = int64_arg bs"
  by (rule parse_int64_arg)

text \<open>
  C36. Reading back what \<open>INCR\<close> formats: \<open>parse_int64\<close> inverts \<open>%lld\<close> up to \<open>PARSE_MAX\<close> in
  absolute value, and rejects the 64-bit integers beyond it although they are in range.
\<close>

theorem parse_int64_of_format: "parse_int64 (fmt_d64 n) = (if \<bar>n\<bar> \<le> int PARSE_MAX then Some n else None)"
proof (cases "\<bar>n\<bar> \<le> int PARSE_MAX")
  case True
  then show ?thesis by (simp add: parse_int64_arg int64_arg_fmt)
next
  case False
  have big: "\<not> digits_within (dec_digits (nat \<bar>n\<bar>))" using False by (auto simp: digits_within_def)
  show ?thesis
  proof (cases "n < 0")
    case True
    with big False show ?thesis by (simp add: parse_int64_arg fmt_d64_def int64_arg_def)
  next
    case pos: False
    with big False show ?thesis by (simp add: parse_int64_arg fmt_d64_def int64_arg_plain digits_hd)
  qed
qed

text \<open>
  Command names are compared without regard to the case of ASCII letters: \<open>slice_eq_ci\<close>
  holds exactly when the upper-case form of the argument is the name.
\<close>

theorem slice_eq_ci_upper: "slice_eq_ci s u \<longleftrightarrow> map to_upper s = u"
  by (rule slice_eq_ci_iff)

text \<open>A name that is in no entry of the table.\<close>

lemma dispatch_unknown:
  "list_all (\<lambda>e. \<not> slice_eq_ci name (ce_name e)) es \<Longrightarrow> dispatch es c (name # args) = reply_error (unknown_error name) c"
  by (induction es) simp_all

text \<open>
  C37. The reply to an unknown command, with memory and room for it. The name is echoed up to its 64th
  byte or its first NUL. If that part has no CR, the client reads one error reply with it. If it has a
  CR LF (and no CR before it), whatever is before and behind it, the client reads an error reply that ends
  there, and the rest of the echo is left over as the beginning of what it takes for the next reply.
\<close>

theorem unknown_name_splits_reply:
  assumes "ctx_inv c" "mem_plenty (c_mem c)" "length (ctx_reply c) + 100 \<le> BUF_LIMIT"
    "list_all (\<lambda>e. \<not> slice_eq_ci name (ce_name e)) commands"
  shows "\<exists>c' w. command_execute c (name # args) = (RC_OK, c') \<and> ctx_reply c' = ctx_reply c @ w \<and>
    (let echo = takeWhile (\<lambda>b. b \<noteq> 0) (take 64 name) in
       (CR \<notin> set echo \<longrightarrow> (\<forall>later. read_reply (w @ later) = Some (RError (quoted ''ERR unknown command '' echo), later))) \<and>
       (\<forall>pre post. echo = pre @ crlf @ post \<longrightarrow> CR \<notin> set pre \<longrightarrow>
          (\<forall>later. read_reply (w @ later) =
             Some (RError (cstr ''ERR unknown command '' @ [39] @ pre), post @ [39] @ crlf @ later))))"
proof -
  define echo where "echo = takeWhile (\<lambda>b. b \<noteq> 0) (take 64 name)"
  let ?w = "encode_reply (RError (quoted ''ERR unknown command '' echo))"
  obtain rc c' where r: "reply_error (unknown_error name) c = (rc, c')" by fastforce
  have ex: "command_execute c (name # args) = (rc, c')"
    using dispatch_unknown [OF assms(4)] r by (simp add: command_execute_def)
  have "emits c (RError (unknown_error name)) (reply_error (unknown_error name) c)"
    using assms(1) unknown_error_eq by (intro emits_error)
  then have "written c (RError (unknown_error name)) rc c'" by (simp add: emits_def r)
  then have wr: "written c (RError (quoted ''ERR unknown command '' echo)) rc c'"
    by (simp only: unknown_error_eq(1) echo_def)
  have "length echo \<le> 64" unfolding echo_def by (rule order_trans [OF length_takeWhile_le]) simp
  then have "length ?w \<le> 100" by (simp add: quoted_def cstr_def crlf_def)
  then have rc: "rc = RC_OK" "ctx_reply c' = ctx_reply c @ ?w"
    using wr assms(2,3) by (auto simp: written_def simp del: encode_reply.simps)
  have plain: "CR \<notin> set (cstr ''ERR unknown command '')" by (simp add: cstr_def CR_def)
  have whole: "read_reply (?w @ later) = Some (RError (quoted ''ERR unknown command '' echo), later)" if "CR \<notin> set echo" for later
    using read_line_append [of "quoted ''ERR unknown command '' echo" later] that plain
    by (simp add: read_reply_def quoted_def CR_def)
  have split: "read_reply (?w @ later) = Some (RError (cstr ''ERR unknown command '' @ [39] @ pre), post @ [39] @ crlf @ later)"
    if e: "echo = pre @ crlf @ post" and "CR \<notin> set pre" for pre post later
  proof -
    have "CR \<notin> set (cstr ''ERR unknown command '' @ [39] @ pre)" using that(2) plain by (simp add: CR_def)
    from read_line_append [OF this, of "post @ [39] @ crlf @ later"] show ?thesis
      by (simp add: read_reply_def quoted_def e)
  qed
  show ?thesis unfolding echo_def [symmetric] Let_def
    using ex rc whole split by (intro exI [of _ c'] exI [of _ ?w]) (simp del: encode_reply.simps)
qed

theorem unknown_name_splits_reply_witness:
  "\<exists>c' w. command_execute fresh_ctx [[65, 13, 10, 58, 49]] = (RC_OK, c') \<and> ctx_reply c' = w \<and>
     read_reply w = Some (RError (cstr ''ERR unknown command '' @ [39, 65]), [58, 49, 39, 13, 10])"
proof -
  let ?n = "[65, 13, 10, 58, 49] :: bytes"
  have "list_all (\<lambda>e. \<not> slice_eq_ci ?n (ce_name e)) commands"
    by (simp add: commands_def entry_def slice_eq_ci_iff cstr_def to_upper_def)
  moreover have "length (ctx_reply fresh_ctx) + 100 \<le> BUF_LIMIT" by (simp add: BUF_LIMIT_def)
  ultimately obtain c' w where
    c': "command_execute fresh_ctx [?n] = (RC_OK, c')" "ctx_reply c' = ctx_reply fresh_ctx @ w"
    and w: "\<And>pre post later. takeWhile (\<lambda>b. b \<noteq> 0) (take 64 ?n) = pre @ crlf @ post \<Longrightarrow> CR \<notin> set pre \<Longrightarrow>
      read_reply (w @ later) = Some (RError (cstr ''ERR unknown command '' @ [39] @ pre), post @ [39] @ crlf @ later)"
    using unknown_name_splits_reply [OF fresh_ctx_props(1,2), of ?n "[]"] unfolding Let_def by blast
  have "read_reply (w @ []) = Some (RError (cstr ''ERR unknown command '' @ [39] @ [65]), [58, 49] @ [39] @ crlf @ [])"
    by (rule w) (simp_all add: crlf_def CR_def LF_def)
  with c' show ?thesis by (simp add: crlf_def CR_def LF_def)
qed

end
