(* ===== verification/Command_Types.thy ===== *)
theory Command_Types
  imports Command_Laws
begin

text \<open>
  Types for the replies. The comment above each handler of \<open>command.c\<close> announces the form of its
  reply; these forms are the types here, with the range of the number they carry, and every reply
  the dispatcher writes is an error or has the type announced for its command.
\<close>

section \<open>Reply types\<close>

text \<open>
  \<open>Count\<close> is the number of something, \<open>Flag\<close> is \<open>:0\<close> or \<open>:1\<close>, and \<open>Number\<close> a value stored under a key.
\<close>

datatype reply_type = Status string | Bulk | Bulk_Or_Nil | Count | Flag | Number | Bulks | No_Bulks

fun has_type :: "reply \<Rightarrow> reply_type \<Rightarrow> bool" where
  "has_type (RSimple s) (Status t) = (s = cstr t)"
| "has_type (RBulk bs) Bulk = True"
| "has_type (RBulk bs) Bulk_Or_Nil = True"
| "has_type RNil Bulk_Or_Nil = True"
| "has_type (RInt i) Count = (0 \<le> i \<and> i \<le> INT64_MAX)"
| "has_type (RInt i) Flag = (i = 0 \<or> i = 1)"
| "has_type (RInt i) Number = int64_range i"
| "has_type (RArray bss) Bulks = True"
| "has_type (RArray bss) No_Bulks = (bss = [])"
| "has_type r t = False"

text \<open>What the handlers announce, by the name in upper case and the arguments.\<close>

definition announced :: "bytes \<Rightarrow> bytes list \<Rightarrow> reply_type option" where
  "announced n as =
     (if n = cstr ''PING'' then Some (if as = [] then Status ''PONG'' else Bulk)
      else if n \<in> set (map cstr [''SET'', ''FLUSHDB'']) then Some (Status ''OK'')
      else if n \<in> set (map cstr [''GET'', ''GETSET'']) then Some Bulk_Or_Nil
      else if n \<in> set (map cstr [''DEL'', ''EXISTS'', ''STRLEN'', ''APPEND'', ''DBSIZE'']) then Some Count
      else if n \<in> set (map cstr [''INCR'', ''DECR'', ''INCRBY'', ''DECRBY'']) then Some Number
      else if n = cstr ''SETNX'' then Some Flag
      else if n = cstr ''KEYS'' then Some Bulks
      else if n = cstr ''COMMAND'' then Some No_Bulks
      else None)"

fun command_type :: "command \<Rightarrow> reply_type" where
  "command_type Ping = Status ''PONG''"
| "command_type (Echo x) = Bulk"
| "command_type (Get k) = Bulk_Or_Nil"
| "command_type (Set k v) = Status ''OK''"
| "command_type (Del ks) = Count"
| "command_type (Exists ks) = Count"
| "command_type Command_Docs = No_Bulks"
| "command_type (Incr k d) = Number"
| "command_type (Strlen k) = Count"
| "command_type (Append k v) = Count"
| "command_type (Keys p) = Bulks"
| "command_type Dbsize = Count"
| "command_type Flushdb = Status ''OK''"
| "command_type (Setnx k v) = Flag"
| "command_type (Getset k v) = Bulk_Or_Nil"

section \<open>Type soundness\<close>

lemma announced_names:
  "announced (cstr ''PING'') as = Some (if as = [] then Status ''PONG'' else Bulk)"
  "announced (cstr ''GET'') as = Some Bulk_Or_Nil" "announced (cstr ''SET'') as = Some (Status ''OK'')"
  "announced (cstr ''DEL'') as = Some Count" "announced (cstr ''EXISTS'') as = Some Count"
  "announced (cstr ''COMMAND'') as = Some No_Bulks" "announced (cstr ''INCR'') as = Some Number"
  "announced (cstr ''DECR'') as = Some Number" "announced (cstr ''INCRBY'') as = Some Number"
  "announced (cstr ''DECRBY'') as = Some Number" "announced (cstr ''STRLEN'') as = Some Count"
  "announced (cstr ''APPEND'') as = Some Count" "announced (cstr ''KEYS'') as = Some Bulks"
  "announced (cstr ''DBSIZE'') as = Some Count" "announced (cstr ''FLUSHDB'') as = Some (Status ''OK'')"
  "announced (cstr ''SETNX'') as = Some Flag" "announced (cstr ''GETSET'') as = Some Bulk_Or_Nil"
  by (simp_all add: announced_def cstr_def)

lemma if_Some_cases:
  "(if P then Some a else E) = Some d \<Longrightarrow> (P \<Longrightarrow> a = d \<Longrightarrow> Q) \<Longrightarrow> (E = Some d \<Longrightarrow> Q) \<Longrightarrow> Q"
  by (cases P) simp_all

lemma announced_decode: "decode_named n as = Some (Inr cmd) \<Longrightarrow> announced n as = Some (command_type cmd)"
  unfolding decode_named_def wrong_args_def
  by (elim if_Some_cases) (auto simp: announced_names split: list.splits)

text \<open>The numbers a command counts stay far below the largest 64-bit integer.\<close>

fun small_command :: "command \<Rightarrow> bool" where
  "small_command (Del ks) = (length ks \<le> RESP_MAX_ARGC)"
| "small_command (Exists ks) = (length ks \<le> RESP_MAX_ARGC)"
| "small_command (Append k v) = (length v \<le> MEM_MAX)"
| "small_command cmd = True"

lemma decode_small:
  assumes "decode_named n as = Some (Inr cmd)" "length as \<le> RESP_MAX_ARGC" "\<And>k v. as = [k, v] \<Longrightarrow> length v \<le> MEM_MAX"
  shows "small_command cmd"
  using assms unfolding decode_named_def wrong_args_def
  by (elim if_Some_elim) (simp_all split: list.splits, auto)

lemma run_typed:
  assumes "in_memory mp []" "small_command cmd"
  shows "(\<exists>e. fst (run order mp cmd) = RError e) \<or> has_type (fst (run order mp cmd)) (command_type cmd)"
proof -
  have len: "length v \<le> MEM_MAX" if "mp k = Some v" for k v using assms(1) that by (auto simp: in_memory_def)
  have dom: "card (dom mp) \<le> MEM_MAX" using assms(1) by (simp add: in_memory_def)
  note lims = MEM_MAX_def INT64_MAX_def RESP_MAX_ARGC_def
  show ?thesis
  proof (cases cmd)
    case (Del ks)
    have "card (set ks \<inter> dom mp) \<le> card (set ks)" by (rule card_mono) simp_all
    also have "\<dots> \<le> length ks" by (rule card_length)
    finally show ?thesis using Del assms(2) by (simp add: lims)
  next
    case (Exists ks)
    have "length (filter (\<lambda>k. k \<in> dom mp) ks) \<le> length ks" by (rule length_filter_le)
    moreover have "length ks \<le> 32" using Exists assms(2) by (simp add: lims)
    ultimately have "length (filter (\<lambda>k. k \<in> dom mp) ks) \<le> 32" by (rule order_trans)
    then show ?thesis using Exists by (simp add: lims)
  next
    case (Strlen k)
    then show ?thesis using len [of k] by (auto simp: lims split: option.splits)
  next
    case (Append k v)
    then show ?thesis using len [of k] assms(2) by (auto simp: lims Let_def split: option.splits)
  next
    case Dbsize
    then show ?thesis using dom by (simp add: lims)
  next
    case (Incr k d)
    then show ?thesis by (auto simp: not_integer_def would_overflow_def split: option.splits)
  qed (auto split: option.splits)
qed

lemma exec_typed:
  assumes "in_memory mp (name # as)"
  shows "(\<exists>e. fst (exec order mp (name # as)) = RError e) \<or>
    (\<exists>t. announced (map to_upper name) as = Some t \<and> has_type (fst (exec order mp (name # as))) t)"
proof (cases "decode (name # as)")
  case (Inr cmd)
  then have d: "decode_named (map to_upper name) as = Some (Inr cmd)" by (simp add: decode_def split: option.splits)
  have "in_memory mp []" "length as \<le> RESP_MAX_ARGC" "\<And>k v. as = [k, v] \<Longrightarrow> length v \<le> MEM_MAX"
    using assms by (auto simp: in_memory_def)
  with run_typed [of mp cmd order] decode_small [OF d] announced_decode [OF d] show ?thesis
    by (auto simp: exec_def Inr)
qed (simp add: exec_def)

section \<open>Properties\<close>

text \<open>
  C21. Replies are typed: when \<open>command_execute\<close> succeeds, what it appended is one reply, and this
  reply is an error or has the type its handler announces, numbers in their range; a name that
  announces no type gets an error.
\<close>

theorem command_replies_typed:
  assumes "ctx_inv c" "in_memory (ht_abs (c_store c)) (name # as)" "command_execute c (name # as) = (RC_OK, c')"
  shows "\<exists>r. ctx_reply c' = ctx_reply c @ encode_reply r \<and>
    ((\<exists>e. r = RError e) \<or> (\<exists>t. announced (map to_upper name) as = Some t \<and> has_type r t))"
proof -
  from execute_cases [OF assms] obtain r where r: "written c r RC_OK c'"
    "(r, ht_abs (c_store c')) = exec (ht_keys (c_store c)) (ht_abs (c_store c)) (name # as) \<or> r = out_of_memory" by blast
  with exec_typed [OF assms(2), of "ht_keys (c_store c)"] show ?thesis
    by (intro exI [of _ r]) (auto simp: written_def out_of_memory_def prod_eq_iff)
qed

theorem command_replies_typed_witness:
  "\<exists>c' r. command_execute fresh_ctx [cstr ''dbsize''] = (RC_OK, c') \<and> ctx_reply c' = encode_reply r \<and>
     ((\<exists>e. r = RError e) \<or> has_type r Count)"
proof -
  have m: "in_memory (ht_abs (c_store fresh_ctx)) [cstr ''dbsize'']"
    by (simp add: in_memory_empty cstr_def RESP_MAX_ARGC_def)
  have u: "map to_upper (cstr ''dbsize'') = cstr ''DBSIZE''" by (simp add: cstr_def to_upper_def)
  have x: "exec (ht_keys (c_store fresh_ctx)) (ht_abs (c_store fresh_ctx)) [cstr ''dbsize''] = (RInt 0, Map.empty)"
    by (simp add: exec_def decode_def u) (simp add: decode_named_def cstr_def)
  have "length (ctx_reply fresh_ctx) + length (encode_reply (RInt 0)) \<le> BUF_LIMIT"
    by (simp add: fmt_d64_def BUF_LIMIT_def)
  from execute_plenty [OF fresh_ctx_props(1) m fresh_ctx_props(2) x this] obtain c' where
    c': "command_execute fresh_ctx [cstr ''dbsize''] = (RC_OK, c')" by metis
  have "announced (cstr ''DBSIZE'') [] = Some Count" by (simp add: announced_def cstr_def)
  with command_replies_typed [OF fresh_ctx_props(1) m c'] c' u show ?thesis by auto
qed

end
