(* ===== verification/Command_Heap.thy ===== *)
theory Command_Heap
  imports Command_Laws Heap_Laws
begin

text \<open>
  The command layer of \<open>command.c\<close> on the table of \<open>Ht_Heap\<close>: the handlers get pointers from
  \<open>ht_get\<close>, read through them, copy with \<open>memcpy\<close> into blocks of their own and free these. A read
  through a pointer whose block is gone, or past its end, has no result. The theory shows that no
  handler does that, and that the handlers are those of \<open>Command\<close>, where a borrowed pointer is the
  bytes it points to.
\<close>

section \<open>Context\<close>

record heap_ctx =
  x_heap :: heap
  x_table :: ptable
  x_out :: bytebuf

type_synonym p_handler = "heap_ctx \<Rightarrow> bytes list \<Rightarrow> (rc \<times> heap_ctx) option"

text \<open>The reply buffer takes its memory from the same allocator; its array is not a block of the store.\<close>

definition p_on_out ::
  "(mem \<Rightarrow> bytebuf \<Rightarrow> rc \<times> mem \<times> bytebuf) \<Rightarrow> heap_ctx \<Rightarrow> rc \<times> heap_ctx" where
  "p_on_out f x = (case f (hp_mem (x_heap x)) (x_out x) of
     (r, m', out') \<Rightarrow> (r, x\<lparr>x_heap := (x_heap x)\<lparr>hp_mem := m'\<rparr>, x_out := out'\<rparr>))"

definition p_reply_simple :: "string \<Rightarrow> heap_ctx \<Rightarrow> rc \<times> heap_ctx" where
  "p_reply_simple s = p_on_out (\<lambda>m out. resp_reply_simple_string m out (cstr s))"

definition p_reply_error :: "bytes \<Rightarrow> heap_ctx \<Rightarrow> rc \<times> heap_ctx" where
  "p_reply_error msg = p_on_out (\<lambda>m out. resp_reply_error m out msg)"

definition p_reply_integer :: "int \<Rightarrow> heap_ctx \<Rightarrow> rc \<times> heap_ctx" where
  "p_reply_integer n = p_on_out (\<lambda>m out. resp_reply_integer m out n)"

definition p_reply_bulk :: "bytes \<Rightarrow> heap_ctx \<Rightarrow> rc \<times> heap_ctx" where
  "p_reply_bulk bs = p_on_out (\<lambda>m out. resp_reply_bulk m out bs)"

definition p_reply_nil :: "heap_ctx \<Rightarrow> rc \<times> heap_ctx" where
  "p_reply_nil = p_on_out resp_reply_nil"

definition p_reply_array_header :: "size_t \<Rightarrow> heap_ctx \<Rightarrow> rc \<times> heap_ctx" where
  "p_reply_array_header n = p_on_out (\<lambda>m out. resp_reply_array_header m out n)"

definition p_store_set :: "heap_ctx \<Rightarrow> bytes \<Rightarrow> bytes \<Rightarrow> (rc \<times> heap_ctx) option" where
  "p_store_set x key val = do {
     (r, h, t) \<leftarrow> p_set (x_heap x) (x_table x) key val;
     Some (r, x\<lparr>x_heap := h, x_table := t\<rparr>) }"

text \<open>\<open>memcpy\<close> into a block, and the release of a block that may be null.\<close>

definition wr_bytes :: "addr \<Rightarrow> nat \<Rightarrow> bytes \<Rightarrow> heap \<Rightarrow> heap option" where
  "wr_bytes a off src h = (case hp_at h a of
     Some (Bytes bs) \<Rightarrow>
       if off + length src \<le> length bs then Some (h\<lparr>hp_at := (hp_at h)(a \<mapsto> Bytes (blit bs off src))\<rparr>) else None
   | _ \<Rightarrow> None)"

definition x_free :: "addr option \<Rightarrow> heap_ctx \<Rightarrow> heap_ctx" where
  "x_free p x = (case p of None \<Rightarrow> x | Some a \<Rightarrow> x\<lparr>x_heap := h_free a (x_heap x)\<rparr>)"

section \<open>Handlers\<close>

definition p_cmd_ping :: p_handler where
  "p_cmd_ping x args = Some (if length args = 1 then p_reply_simple ''PONG'' x else p_reply_bulk (args ! 1) x)"

definition p_cmd_get :: p_handler where
  "p_cmd_get x args = do {
     hit \<leftarrow> p_get (x_heap x) (x_table x) (args ! 1);
     (case hit of
        Some (val, vlen) \<Rightarrow> do { bs \<leftarrow> rd_bytes (x_heap x) val vlen; Some (p_reply_bulk bs x) }
      | None \<Rightarrow> Some (p_reply_nil x)) }"

definition p_cmd_set :: p_handler where
  "p_cmd_set x args = do {
     (r, x1) \<leftarrow> p_store_set x (args ! 1) (args ! 2);
     Some (case r of RC_ERR \<Rightarrow> p_reply_error (cstr ''ERR out of memory'') x1 | RC_OK \<Rightarrow> p_reply_simple ''OK'' x1) }"

fun p_del_keys :: "heap_ctx \<Rightarrow> bytes list \<Rightarrow> int \<Rightarrow> (int \<times> heap_ctx) option" where
  "p_del_keys x [] deleted = Some (deleted, x)"
| "p_del_keys x (k # ks) deleted = do {
     (hit, h, t) \<leftarrow> p_del (x_heap x) (x_table x) k;
     p_del_keys (x\<lparr>x_heap := h, x_table := t\<rparr>) ks (if hit then deleted + 1 else deleted) }"

definition p_cmd_del :: p_handler where
  "p_cmd_del x args = do { (deleted, x1) \<leftarrow> p_del_keys x (tl args) 0; Some (p_reply_integer deleted x1) }"

fun p_exists_keys :: "heap \<Rightarrow> ptable \<Rightarrow> bytes list \<Rightarrow> int \<Rightarrow> int option" where
  "p_exists_keys h t [] found = Some found"
| "p_exists_keys h t (k # ks) found = do {
     hit \<leftarrow> p_get h t k;
     p_exists_keys h t ks (if hit \<noteq> None then found + 1 else found) }"

definition p_cmd_exists :: p_handler where
  "p_cmd_exists x args = do {
     found \<leftarrow> p_exists_keys (x_heap x) (x_table x) (tl args) 0;
     Some (p_reply_integer found x) }"

definition p_cmd_command :: p_handler where
  "p_cmd_command x args = Some (p_reply_array_header 0 x)"

definition p_incrby_apply :: "heap_ctx \<Rightarrow> bytes \<Rightarrow> int \<Rightarrow> int \<Rightarrow> (rc \<times> heap_ctx) option" where
  "p_incrby_apply x key cur delta =
     (if (delta > 0 \<and> cur > INT64_MAX - delta) \<or> (delta < 0 \<and> cur < INT64_MIN - delta)
      then Some (p_reply_error (cstr ''ERR increment or decrement would overflow'') x)
      else let next_v = cur + delta; fmt = fmt_d64 next_v in
        if length fmt \<ge> 24 then Some (p_reply_error (cstr ''ERR internal format error'') x)
        else do {
          (r, x1) \<leftarrow> p_store_set x key fmt;
          Some (case r of RC_ERR \<Rightarrow> p_reply_error (cstr ''ERR out of memory'') x1 | RC_OK \<Rightarrow> p_reply_integer next_v x1) })"

definition p_incrby_op :: "heap_ctx \<Rightarrow> bytes \<Rightarrow> int \<Rightarrow> (rc \<times> heap_ctx) option" where
  "p_incrby_op x key delta = do {
     hit \<leftarrow> p_get (x_heap x) (x_table x) key;
     (case hit of
        None \<Rightarrow> p_incrby_apply x key 0 delta
      | Some (cur_p, curlen) \<Rightarrow> do {
          bs \<leftarrow> rd_bytes (x_heap x) cur_p curlen;
          (case parse_int64 bs of
             None \<Rightarrow> Some (p_reply_error (cstr ''ERR value is not an integer or out of range'') x)
           | Some cur \<Rightarrow> p_incrby_apply x key cur delta) }) }"

definition p_cmd_incr :: p_handler where
  "p_cmd_incr x args = p_incrby_op x (args ! 1) 1"

definition p_cmd_decr :: p_handler where
  "p_cmd_decr x args = p_incrby_op x (args ! 1) (-1)"

definition p_cmd_incrby :: p_handler where
  "p_cmd_incrby x args = (case parse_int64 (args ! 2) of
     None \<Rightarrow> Some (p_reply_error (cstr ''ERR value is not an integer or out of range'') x)
   | Some delta \<Rightarrow> p_incrby_op x (args ! 1) delta)"

definition p_cmd_decrby :: p_handler where
  "p_cmd_decrby x args = (case parse_int64 (args ! 2) of
     None \<Rightarrow> Some (p_reply_error (cstr ''ERR value is not an integer or out of range'') x)
   | Some delta \<Rightarrow>
       (if delta = INT64_MIN
        then Some (p_reply_error (cstr ''ERR increment or decrement would overflow'') x)
        else p_incrby_op x (args ! 1) (- delta)))"

definition p_cmd_strlen :: p_handler where
  "p_cmd_strlen x args = do {
     hit \<leftarrow> p_get (x_heap x) (x_table x) (args ! 1);
     Some (case hit of Some (val, vlen) \<Rightarrow> p_reply_integer (int64_of_size vlen) x | None \<Rightarrow> p_reply_integer 0 x) }"

text \<open>The two copies; \<open>old\<close> is read before the store that frees its block.\<close>

definition p_append_copy :: "heap \<Rightarrow> addr \<Rightarrow> addr \<Rightarrow> size_t \<Rightarrow> bytes \<Rightarrow> heap option" where
  "p_append_copy h tmp old olen val = do {
     h1 \<leftarrow> (if olen > 0 then do { bs \<leftarrow> rd_bytes h old olen; wr_bytes tmp 0 bs h } else Some h);
     if size_of val > 0 then wr_bytes tmp (unat olen) val h1 else Some h1 }"

definition p_cmd_append :: p_handler where
  "p_cmd_append x args = (let key = args ! 1; val = args ! 2 in do {
     hit \<leftarrow> p_get (x_heap x) (x_table x) key;
     (case hit of
        None \<Rightarrow> do {
          (r, x1) \<leftarrow> p_store_set x key val;
          Some (case r of RC_ERR \<Rightarrow> p_reply_error (cstr ''ERR out of memory'') x1
            | RC_OK \<Rightarrow> p_reply_integer (int64_of_size (size_of val)) x1) }
      | Some (old, olen) \<Rightarrow>
          if size_of val > - 1 - olen then Some (p_reply_error (cstr ''ERR string exceeds maximum allowed size'') x)
          else let newlen = olen + size_of val in
            (case h_alloc (x_heap x) (Bytes (replicate (if newlen = 0 then 1 else unat newlen) 0)) of
               (None, h1) \<Rightarrow> Some (p_reply_error (cstr ''ERR out of memory'') (x\<lparr>x_heap := h1\<rparr>))
             | (Some tmp, h1) \<Rightarrow> do {
                 h2 \<leftarrow> p_append_copy h1 tmp old olen val;
                 new \<leftarrow> rd_bytes h2 tmp newlen;
                 (r, x1) \<leftarrow> p_store_set (x\<lparr>x_heap := h2\<rparr>) key new;
                 (case (case r of RC_ERR \<Rightarrow> p_reply_error (cstr ''ERR out of memory'') x1
                          | RC_OK \<Rightarrow> p_reply_integer (int64_of_size newlen) x1) of
                    (rc, x2) \<Rightarrow> Some (rc, x_free (Some tmp) x2)) })) })"

definition p_cmd_keys :: p_handler where
  "p_cmd_keys x args =
     (let kc = \<lparr>k_mem = hp_mem (x_heap x), k_out = x_out x, k_pattern = args ! 1,
                k_matched = 0, k_write = False, k_emit_failed = False\<rparr> in do {
        (n1, kc1) \<leftarrow> p_scan (x_heap x) (x_table x) keys_cb kc;
        (case resp_reply_array_header (k_mem kc1) (k_out kc1) (k_matched kc1) of
           (RC_ERR, m', out') \<Rightarrow> Some (RC_ERR, x\<lparr>x_heap := (x_heap x)\<lparr>hp_mem := m'\<rparr>, x_out := out'\<rparr>)
         | (RC_OK, m', out') \<Rightarrow> do {
             (n2, kc2) \<leftarrow> p_scan (x_heap x) (x_table x) keys_cb (kc1\<lparr>k_mem := m', k_out := out', k_write := True\<rparr>);
             Some (if k_emit_failed kc2 then RC_ERR else RC_OK,
               x\<lparr>x_heap := (x_heap x)\<lparr>hp_mem := k_mem kc2\<rparr>, x_out := k_out kc2\<rparr>) }) })"

definition p_cmd_dbsize :: p_handler where
  "p_cmd_dbsize x args = Some (p_reply_integer (int64_of_size (pt_count (x_table x))) x)"

definition p_cmd_flushdb :: p_handler where
  "p_cmd_flushdb x args = do {
     (h, t) \<leftarrow> p_destroy (x_heap x) (x_table x);
     Some (p_reply_simple ''OK'' (x\<lparr>x_heap := h, x_table := pt_init\<rparr>)) }"

definition p_cmd_setnx :: p_handler where
  "p_cmd_setnx x args = do {
     hit \<leftarrow> p_get (x_heap x) (x_table x) (args ! 1);
     if hit \<noteq> None then Some (p_reply_integer 0 x)
     else do {
       (r, x1) \<leftarrow> p_store_set x (args ! 1) (args ! 2);
       Some (case r of RC_ERR \<Rightarrow> p_reply_error (cstr ''ERR out of memory'') x1 | RC_OK \<Rightarrow> p_reply_integer 1 x1) } }"

text \<open>The bulk reply reads the snapshot; with length 0 it reads nothing, and the snapshot is null.\<close>

definition rd_snapshot :: "heap \<Rightarrow> addr option \<Rightarrow> size_t \<Rightarrow> bytes option" where
  "rd_snapshot h p n = (if n = 0 then Some [] else case p of None \<Rightarrow> None | Some a \<Rightarrow> rd_bytes h a n)"

definition p_getset_store ::
  "heap_ctx \<Rightarrow> bytes \<Rightarrow> bytes \<Rightarrow> (addr \<times> size_t) option \<Rightarrow> addr option \<Rightarrow> (rc \<times> heap_ctx) option" where
  "p_getset_store x key val hit snapshot = do {
     (r, x1) \<leftarrow> p_store_set x key val;
     (case r of
        RC_ERR \<Rightarrow> Some (p_reply_error (cstr ''ERR out of memory'') (x_free snapshot x1))
      | RC_OK \<Rightarrow> do {
          (rc, x2) \<leftarrow> (case hit of
             Some (old, olen) \<Rightarrow> do { bs \<leftarrow> rd_snapshot (x_heap x1) snapshot olen; Some (p_reply_bulk bs x1) }
           | None \<Rightarrow> Some (p_reply_nil x1));
          Some (rc, x_free snapshot x2) }) }"

definition p_cmd_getset :: p_handler where
  "p_cmd_getset x args = (let key = args ! 1; val = args ! 2 in do {
     hit \<leftarrow> p_get (x_heap x) (x_table x) key;
     (case hit of
        Some (old, olen) \<Rightarrow>
          if olen > 0 then
            (case h_alloc (x_heap x) (Bytes (replicate (unat olen) 0)) of
               (None, h1) \<Rightarrow> Some (p_reply_error (cstr ''ERR out of memory'') (x\<lparr>x_heap := h1\<rparr>))
             | (Some snapshot, h1) \<Rightarrow> do {
                 bs \<leftarrow> rd_bytes h1 old olen;
                 h2 \<leftarrow> wr_bytes snapshot 0 bs h1;
                 p_getset_store (x\<lparr>x_heap := h2\<rparr>) key val hit (Some snapshot) })
          else p_getset_store x key val hit None
      | None \<Rightarrow> p_getset_store x key val hit None) })"

section \<open>Dispatch\<close>

record p_entry =
  pe_name :: bytes
  pe_min_argc :: int
  pe_max_argc :: int
  pe_handler :: p_handler

definition p_entry :: "string \<Rightarrow> int \<Rightarrow> int \<Rightarrow> p_handler \<Rightarrow> p_entry" where
  "p_entry name lo hi h = \<lparr>pe_name = cstr name, pe_min_argc = lo, pe_max_argc = hi, pe_handler = h\<rparr>"

definition p_commands :: "p_entry list" where
  "p_commands =
    [p_entry ''PING'' 1 2 p_cmd_ping,
     p_entry ''GET'' 2 2 p_cmd_get,
     p_entry ''SET'' 3 3 p_cmd_set,
     p_entry ''DEL'' 2 (-1) p_cmd_del,
     p_entry ''EXISTS'' 2 (-1) p_cmd_exists,
     p_entry ''COMMAND'' 1 (-1) p_cmd_command,
     p_entry ''INCR'' 2 2 p_cmd_incr,
     p_entry ''DECR'' 2 2 p_cmd_decr,
     p_entry ''INCRBY'' 3 3 p_cmd_incrby,
     p_entry ''DECRBY'' 3 3 p_cmd_decrby,
     p_entry ''STRLEN'' 2 2 p_cmd_strlen,
     p_entry ''APPEND'' 3 3 p_cmd_append,
     p_entry ''KEYS'' 2 2 p_cmd_keys,
     p_entry ''DBSIZE'' 1 1 p_cmd_dbsize,
     p_entry ''FLUSHDB'' 1 1 p_cmd_flushdb,
     p_entry ''SETNX'' 3 3 p_cmd_setnx,
     p_entry ''GETSET'' 3 3 p_cmd_getset]"

fun p_dispatch :: "p_entry list \<Rightarrow> heap_ctx \<Rightarrow> bytes list \<Rightarrow> (rc \<times> heap_ctx) option" where
  "p_dispatch [] x args = Some (p_reply_error (unknown_error (args ! 0)) x)"
| "p_dispatch (e # es) x args =
     (if \<not> slice_eq_ci (args ! 0) (pe_name e) then p_dispatch es x args
      else let argc = int_of_argc (length args) in
        if argc < pe_min_argc e \<or> (pe_max_argc e \<noteq> -1 \<and> argc > pe_max_argc e)
        then Some (p_reply_error (arity_error (pe_name e)) x)
        else pe_handler e x args)"

definition p_command_execute :: p_handler where
  "p_command_execute x args =
     (if length args = 0 then Some (p_reply_error (cstr ''ERR empty command'') x)
      else p_dispatch p_commands x args)"

section \<open>The two levels\<close>

text \<open>The context on the store stands for the context of \<open>Command\<close>.\<close>

definition mirrors :: "heap_ctx \<Rightarrow> command_ctx \<Rightarrow> bool" where
  "mirrors x c \<longleftrightarrow> hp_mem (x_heap x) = c_mem c \<and> represents (x_heap x) (x_table x) (c_store c) \<and> x_out x = c_out c"

text \<open>Between the steps of a handler the table is sound, beside blocks \<open>G\<close>: the buffer, temporaries.\<close>

definition stands :: "frame \<Rightarrow> heap_ctx \<Rightarrow> command_ctx \<Rightarrow> bool" where
  "stands G x c \<longleftrightarrow> mirrors x c \<and> ht_inv (c_store c) \<and> owns (c_mem c) (ht_blocks (c_store c)) G"

definition same :: "(rc \<times> heap_ctx) option \<Rightarrow> rc \<times> command_ctx \<Rightarrow> bool" where
  "same pres res \<longleftrightarrow> (case res of (rc, c') \<Rightarrow> \<exists>x'. pres = Some (rc, x') \<and> mirrors x' c')"

lemma sameI: "mirrors x' c' \<Longrightarrow> same (Some (rc, x')) (rc, c')"
  by (simp add: same_def)

lemma stands_mirrors: "stands G x c \<Longrightarrow> mirrors x c"
  by (simp add: stands_def)

lemma represents_at: "hp_at h' = hp_at h \<Longrightarrow> represents h' t ht = represents h t ht"
  by (simp add: represents_def seg_frame [of _ h' h])

lemma represents_mem [simp]: "represents (h\<lparr>hp_mem := m\<rparr>) t ht = represents h t ht"
  by (rule represents_at) simp

text \<open>Replies.\<close>

lemma same_on_out: "mirrors x c \<Longrightarrow> same (Some (p_on_out f x)) (on_out f c)"
  by (auto simp: mirrors_def same_def p_on_out_def on_out_def split: prod.splits)

lemma same_replies:
  assumes "mirrors x c"
  shows "same (Some (p_reply_simple s x)) (reply_simple s c)" "same (Some (p_reply_error e x)) (reply_error e c)"
    "same (Some (p_reply_integer i x)) (reply_integer i c)" "same (Some (p_reply_bulk bs x)) (reply_bulk bs c)"
    "same (Some (p_reply_nil x)) (reply_nil c)" "same (Some (p_reply_array_header n x)) (reply_array_header n c)"
  unfolding p_reply_simple_def reply_simple_def p_reply_error_def reply_error_def p_reply_integer_def reply_integer_def
    p_reply_bulk_def reply_bulk_def p_reply_nil_def reply_nil_def p_reply_array_header_def reply_array_header_def
  by (rule same_on_out [OF assms])+

text \<open>A lookup, and what the borrowed pointer points to.\<close>

lemma entry_of_block:
  assumes "entry_of ht k = Some e" "length (buckets ht) = HT_NUM_BUCKETS"
  shows "e_val_p e \<in> set (ht_blocks ht)"
proof -
  have "e \<in> set (buckets ht ! key_bucket k)" using assms(1) by (auto simp: entry_of_def find_Some_iff)
  then have "e_val_p e \<in> blocks (buckets ht ! key_bucket k)" by (auto simp: blocks_def entry_blocks_def)
  then show ?thesis using blocks_nth_subset [of "key_bucket k" "buckets ht"] assms(2) by (auto simp: set_ht_blocks)
qed

lemma rd_bytes_length: "rd_bytes h a n = Some v \<Longrightarrow> length v = unat n"
  by (auto simp: rd_bytes_def split: option.splits block.splits if_splits)

lemma borrowed:
  assumes "mirrors x c" "length k \<le> SIZE_MAX"
  obtains (miss) "ht_get (c_store c) k = None" "p_get (x_heap x) (x_table x) k = Some None"
  | (hit) a v where "ht_get (c_store c) k = Some v" "p_get (x_heap x) (x_table x) k = Some (Some (a, size_of v))"
      "rd_bytes (x_heap x) a (size_of v) = Some v" "a \<in> set (ht_blocks (c_store c))" "length v \<le> SIZE_MAX"
proof -
  have rep: "represents (x_heap x) (x_table x) (c_store c)" using assms(1) by (simp add: mirrors_def)
  note G = p_get_entry [OF rep assms(2)]
  show thesis
  proof (cases "entry_of (c_store c) k")
    case None
    with G show thesis by (intro miss) (simp_all add: ht_get_entry)
  next
    case (Some e)
    have "length (e_val e) \<le> SIZE_MAX" using rd_bytes_length [OF G(2) [OF Some]] by simp
    moreover have "length (buckets (c_store c)) = HT_NUM_BUCKETS" using rep by (simp add: represents_def)
    ultimately show thesis
      using G Some entry_of_block by (intro hit [of "e_val e" "e_val_p e"]) (simp_all add: ht_get_entry)
  qed
qed

text \<open>The mutations.\<close>

lemma stands_set:
  assumes "stands G x c" "length k \<le> SIZE_MAX" "length v \<le> SIZE_MAX" "store_set c k v = (r, c1)"
  obtains x1 where "p_store_set x k v = Some (r, x1)" "stands G x1 c1"
    "\<forall>a\<in>fr_live G. hp_at (x_heap x1) a = hp_at (x_heap x) a"
proof -
  have S: "hp_mem (x_heap x) = c_mem c" "represents (x_heap x) (x_table x) (c_store c)" "x_out x = c_out c"
    "ht_inv (c_store c)" "owns (c_mem c) (ht_blocks (c_store c)) G"
    using assms(1) by (simp_all add: stands_def mirrors_def)
  obtain m' st' where s: "ht_set (c_mem c) (c_store c) k v = (r, m', st')" "c1 = c\<lparr>c_mem := m', c_store := st'\<rparr>"
    using assms(4) by (auto simp: store_set_def split: prod.splits)
  from p_set_simulates [OF S(2) S(5) [folded S(1)] assms(2,3)] obtain h' t' where
    h: "p_set (x_heap x) (x_table x) k v = Some (r, h', t')" "hp_mem h' = m'" "represents h' t' st'"
    "\<forall>a\<in>fr_live G. hp_at h' a = hp_at (x_heap x) a"
    using s(1) by (auto simp: simulates_def S(1))
  show thesis
    by (rule that [of "x\<lparr>x_heap := h', x_table := t'\<rparr>"])
       (use h s S kv.put_inv [OF S(4) s(1)] ht_set_owns [OF S(4) s(1) S(5)]
        in \<open>simp_all add: p_store_set_def stands_def mirrors_def\<close>)
qed

lemma stands_del:
  assumes "stands G x c" "length k \<le> SIZE_MAX" "ht_del (c_mem c) (c_store c) k = (b, m', st')"
  obtains h' t' where "p_del (x_heap x) (x_table x) k = Some (b, h', t')"
    "stands G (x\<lparr>x_heap := h', x_table := t'\<rparr>) (c\<lparr>c_mem := m', c_store := st'\<rparr>)"
proof -
  have S: "hp_mem (x_heap x) = c_mem c" "represents (x_heap x) (x_table x) (c_store c)" "x_out x = c_out c"
    "ht_inv (c_store c)" "owns (c_mem c) (ht_blocks (c_store c)) G"
    using assms(1) by (simp_all add: stands_def mirrors_def)
  from p_del_simulates [OF S(2) S(5) [folded S(1)] assms(2)] obtain h' t' where
    "p_del (x_heap x) (x_table x) k = Some (b, h', t')" "hp_mem h' = m'" "represents h' t' st'"
    using assms(3) by (auto simp: simulates_def S(1))
  then show thesis
    using S kv.rem_inv [OF S(4) assms(3)] ht_del_owns [OF S(4) assms(3) S(5)]
    by (intro that) (simp_all add: stands_def mirrors_def)
qed

text \<open>A temporary block.\<close>

lemma stands_alloc:
  assumes "stands G x c" "malloc (c_mem c) = (p, m')"
  obtains h' where "h_alloc (x_heap x) b = (p, h')" "hp_mem h' = m'"
    "stands (beside (case p of None \<Rightarrow> [] | Some a \<Rightarrow> [a]) G) (x\<lparr>x_heap := h'\<rparr>) (c\<lparr>c_mem := m'\<rparr>)"
    "hp_at h' = (case p of None \<Rightarrow> hp_at (x_heap x) | Some a \<Rightarrow> (hp_at (x_heap x))(a \<mapsto> b))"
    "case p of None \<Rightarrow> True | Some a \<Rightarrow> a \<notin> set (ht_blocks (c_store c))"
proof -
  have S: "hp_mem (x_heap x) = c_mem c" "represents (x_heap x) (x_table x) (c_store c)" "x_out x = c_out c"
    "ht_inv (c_store c)" "owns (c_mem c) (ht_blocks (c_store c)) G"
    using assms(1) by (simp_all add: stands_def mirrors_def)
  define h' where "h' = (case p of None \<Rightarrow> (x_heap x)\<lparr>hp_mem := m'\<rparr>
    | Some a \<Rightarrow> (x_heap x)\<lparr>hp_mem := m', hp_at := (hp_at (x_heap x))(a \<mapsto> b)\<rparr>)"
  have new: "a \<notin> set (ht_blocks (c_store c))" if "p = Some a" for a
    using malloc_fresh [OF S(5) assms(2) [unfolded that]] by blast
  then have rep: "represents h' (x_table x) (c_store c)"
    using S(2) by (cases p) (auto simp: h'_def intro: represents_frame)
  have own: "owns m' (ht_blocks (c_store c)) (beside (case p of None \<Rightarrow> [] | Some a \<Rightarrow> [a]) G)"
  proof (cases p)
    case None
    with owns_malloc_None [OF S(5)] assms(2) show ?thesis by (simp add: beside_def)
  next
    case (Some a)
    have "owns m' (ht_blocks (c_store c) @ [a]) G"
      using owns_malloc [OF S(5) assms(2) [unfolded Some]] by (rule owns_mset [THEN iffD1, rotated]) simp
    with Some show ?thesis by (simp add: owns_append)
  qed
  show thesis
    by (rule that [of h'])
       (use rep own new S assms(2) in \<open>auto simp: h'_def h_alloc_def stands_def mirrors_def split: option.splits\<close>)
qed

lemma stands_temp:
  assumes "stands G x c" "malloc (c_mem c) = (Some tmp, m')" "rd_bytes (x_heap x) a n = Some old" "a \<in> set (ht_blocks (c_store c))"
  obtains h' where "h_alloc (x_heap x) b = (Some tmp, h')" "stands (beside [tmp] G) (x\<lparr>x_heap := h'\<rparr>) (c\<lparr>c_mem := m'\<rparr>)"
    "hp_at h' tmp = Some b" "rd_bytes h' a n = Some old"
proof -
  from stands_alloc [OF assms(1,2), of b, unfolded option.case] obtain h' where
    h': "h_alloc (x_heap x) b = (Some tmp, h')" "hp_mem h' = m'"
    "stands (beside [tmp] G) (x\<lparr>x_heap := h'\<rparr>) (c\<lparr>c_mem := m'\<rparr>)"
    "hp_at h' = (hp_at (x_heap x))(tmp \<mapsto> b)" "tmp \<notin> set (ht_blocks (c_store c))" .
  moreover have "rd_bytes h' a n = Some old" using assms(3,4) h'(4) h'(5) by (auto simp: rd_bytes_def)
  ultimately show thesis by (intro that) simp_all
qed

lemma same_no_temp:
  assumes "stands G x c" "malloc (c_mem c) = (None, m')"
  obtains h' where "h_alloc (x_heap x) b = (None, h')"
    "same (Some (p_reply_error e (x\<lparr>x_heap := h'\<rparr>))) (reply_error e (c\<lparr>c_mem := m'\<rparr>))"
proof -
  from stands_alloc [OF assms, of b, unfolded option.case] obtain h' where "h_alloc (x_heap x) b = (None, h')"
    "hp_mem h' = m'" "stands (beside [] G) (x\<lparr>x_heap := h'\<rparr>) (c\<lparr>c_mem := m'\<rparr>)" "hp_at h' = hp_at (x_heap x)" True .
  then show thesis by (intro that same_replies stands_mirrors)
qed

lemma mirrors_write:
  assumes "mirrors x c" "hp_at h' = (hp_at (x_heap x))(a \<mapsto> b)" "hp_mem h' = hp_mem (x_heap x)" "a \<notin> set (ht_blocks (c_store c))"
  shows "mirrors (x\<lparr>x_heap := h'\<rparr>) c"
  using assms by (auto simp: mirrors_def intro: represents_frame)

lemma mirrors_free:
  assumes "mirrors x c" "\<And>a. p = Some a \<Longrightarrow> a \<notin> set (ht_blocks (c_store c))"
  shows "mirrors (x_free p x) (c\<lparr>c_mem := mfree_opt p (c_mem c)\<rparr>)"
  using assms
  by (cases p) (auto simp: mirrors_def x_free_def h_free_def mfree_opt_def intro: represents_frame)

lemma same_release:
  assumes "same (Some y) res" "\<And>a. p = Some a \<Longrightarrow> a \<notin> set (ht_blocks (c_store (snd res)))"
  shows "same (case y of (rc, x2) \<Rightarrow> Some (rc, x_free p x2))
    (case res of (rc, c2) \<Rightarrow> (rc, c2\<lparr>c_mem := mfree_opt p (c_mem c2)\<rparr>))"
  using assms by (auto simp: same_def intro: mirrors_free split: prod.splits)

lemma replies_store [simp]:
  "c_store (snd (reply_simple s c)) = c_store c" "c_store (snd (reply_error e c)) = c_store c"
  "c_store (snd (reply_integer i c)) = c_store c" "c_store (snd (reply_bulk bs c)) = c_store c"
  "c_store (snd (reply_nil c)) = c_store c"
  by (simp_all add: reply_simple_def reply_error_def reply_integer_def reply_bulk_def reply_nil_def on_out_def split: prod.splits)

lemma stands_apart: "stands G x c \<Longrightarrow> a \<in> fr_live G \<Longrightarrow> a \<notin> set (ht_blocks (c_store c))"
  by (auto simp: stands_def owns_def)

lemma stands_write:
  assumes "stands G x c" "hp_at h' = (hp_at (x_heap x))(a \<mapsto> b)" "hp_mem h' = hp_mem (x_heap x)" "a \<in> fr_live G"
  shows "stands G (x\<lparr>x_heap := h'\<rparr>) c"
  using assms stands_apart [OF assms(1,4)] by (auto simp: stands_def intro: mirrors_write)

text \<open>Copying bytes into a block.\<close>

lemma size_of_pos: "length bs \<le> SIZE_MAX \<Longrightarrow> size_of bs > 0 \<longleftrightarrow> bs \<noteq> []"
  by (simp add: word_less_nat_alt unat_size_of)

lemma wr_bytes_block:
  assumes "hp_at h a = Some (Bytes B)" "off + length src \<le> length B" "length src \<le> SIZE_MAX"
  shows "(if size_of src > 0 then wr_bytes a off src h else Some h) =
    Some (h\<lparr>hp_at := (hp_at h)(a \<mapsto> Bytes (blit B off src))\<rparr>)"
proof (cases "src = []")
  case True
  have "(hp_at h)(a \<mapsto> Bytes B) = hp_at h" using assms(1) by (simp add: fun_upd_idem)
  with True show ?thesis by (simp add: blit_def)
next
  case False
  with assms show ?thesis by (simp add: size_of_pos wr_bytes_def)
qed

section \<open>The handlers agree\<close>

text \<open>
  \<open>agrees args ph h\<close>: from a sound context the two levels of a handler do the same, and the one on
  the store has a result.
\<close>

definition agrees :: "bytes list \<Rightarrow> p_handler \<Rightarrow> handler \<Rightarrow> bool" where
  "agrees args ph h \<longleftrightarrow> (\<forall>G x c. stands G x c \<longrightarrow> same (ph x args) (h c args))"

lemma agreesI: "(\<And>G x c. stands G x c \<Longrightarrow> mirrors x c \<Longrightarrow> same (ph x args) (h c args)) \<Longrightarrow> agrees args ph h"
  by (auto simp: agrees_def stands_def)

lemma agrees_ping: "agrees args p_cmd_ping cmd_ping"
  by (rule agreesI) (simp add: p_cmd_ping_def cmd_ping_def same_replies)

lemma agrees_command: "agrees args p_cmd_command cmd_command"
  by (rule agreesI) (simp add: p_cmd_command_def cmd_command_def same_replies)

lemma agrees_dbsize: "agrees args p_cmd_dbsize cmd_dbsize"
proof (rule agreesI)
  fix x c assume m: "mirrors x c"
  then have "pt_count (x_table x) = ht_count (c_store c)" by (auto simp: mirrors_def dest: represents_count)
  with m show "same (p_cmd_dbsize x args) (cmd_dbsize c args)"
    by (simp add: p_cmd_dbsize_def cmd_dbsize_def same_replies)
qed

lemma agrees_get: "length (args ! 1) \<le> SIZE_MAX \<Longrightarrow> agrees args p_cmd_get cmd_get"
proof (rule agreesI)
  fix x c assume "length (args ! 1) \<le> SIZE_MAX" and m: "mirrors x c"
  from m this(1) show "same (p_cmd_get x args) (cmd_get c args)"
    by (cases rule: borrowed) (simp_all add: p_cmd_get_def cmd_get_def same_replies m)
qed

lemma agrees_strlen: "length (args ! 1) \<le> SIZE_MAX \<Longrightarrow> agrees args p_cmd_strlen cmd_strlen"
proof (rule agreesI)
  fix x c assume "length (args ! 1) \<le> SIZE_MAX" and m: "mirrors x c"
  from m this(1) show "same (p_cmd_strlen x args) (cmd_strlen c args)"
    by (cases rule: borrowed) (simp_all add: p_cmd_strlen_def cmd_strlen_def same_replies m)
qed

lemma p_exists_keys_eq:
  "mirrors x c \<Longrightarrow> \<forall>k\<in>set ks. length k \<le> SIZE_MAX \<Longrightarrow>
   p_exists_keys (x_heap x) (x_table x) ks n = Some (exists_loop (c_store c) ks n)"
proof (induction ks arbitrary: n)
  case (Cons k ks)
  from Cons.prems have "length k \<le> SIZE_MAX" by simp
  with Cons.prems(1) show ?case by (cases rule: borrowed) (use Cons in simp_all)
qed simp

lemma agrees_exists: "\<forall>k\<in>set (tl args). length k \<le> SIZE_MAX \<Longrightarrow> agrees args p_cmd_exists cmd_exists"
  by (rule agreesI) (simp add: p_cmd_exists_def cmd_exists_def same_replies p_exists_keys_eq)

lemma p_del_keys_stands:
  "stands G x c \<Longrightarrow> \<forall>k\<in>set ks. length k \<le> SIZE_MAX \<Longrightarrow> del_loop c ks n = (d, c') \<Longrightarrow>
   \<exists>x'. p_del_keys x ks n = Some (d, x') \<and> stands G x' c'"
proof (induction ks arbitrary: x c n)
  case (Cons k ks)
  obtain b m' st' where d: "ht_del (c_mem c) (c_store c) k = (b, m', st')" by (metis prod_cases3)
  from Cons.prems(2) have "length k \<le> SIZE_MAX" by simp
  from stands_del [OF Cons.prems(1) this d] obtain h' t' where
    h: "p_del (x_heap x) (x_table x) k = Some (b, h', t')"
    "stands G (x\<lparr>x_heap := h', x_table := t'\<rparr>) (c\<lparr>c_mem := m', c_store := st'\<rparr>)" .
  from Cons.IH [OF h(2)] Cons.prems(2,3) d h(1) show ?case by simp
qed simp

lemma agrees_del:
  assumes "\<forall>k\<in>set (tl args). length k \<le> SIZE_MAX"
  shows "agrees args p_cmd_del cmd_del"
proof (rule agreesI)
  fix G x c assume s: "stands G x c"
  obtain d c' where d: "del_loop c (tl args) 0 = (d, c')" by fastforce
  from p_del_keys_stands [OF s assms d] obtain x' where x': "p_del_keys x (tl args) 0 = Some (d, x')" "stands G x' c'"
    by blast
  with d stands_mirrors [OF x'(2)] show "same (p_cmd_del x args) (cmd_del c args)"
    by (simp add: p_cmd_del_def cmd_del_def same_replies)
qed

text \<open>The handlers that store: the error, or the reply that follows a success.\<close>

lemma same_store:
  assumes "stands G x c" "length k \<le> SIZE_MAX" "length v \<le> SIZE_MAX"
    "\<And>x1 c1. mirrors x1 c1 \<Longrightarrow> same (Some (pok x1)) (ok c1)"
  shows "same (do { (r, x1) \<leftarrow> p_store_set x k v;
      Some (case r of RC_ERR \<Rightarrow> p_reply_error (cstr ''ERR out of memory'') x1 | RC_OK \<Rightarrow> pok x1) })
    (case store_set c k v of
       (RC_ERR, c1) \<Rightarrow> reply_error (cstr ''ERR out of memory'') c1
     | (RC_OK, c1) \<Rightarrow> ok c1)"
proof -
  obtain r c1 where s: "store_set c k v = (r, c1)" by fastforce
  from stands_set [OF assms(1-3) s] obtain x1 where "p_store_set x k v = Some (r, x1)" "stands G x1 c1" by metis
  with s stands_mirrors [OF this(2)] assms(4) show ?thesis by (cases r) (simp_all add: same_replies)
qed

lemma agrees_set: "length (args ! 1) \<le> SIZE_MAX \<Longrightarrow> length (args ! 2) \<le> SIZE_MAX \<Longrightarrow> agrees args p_cmd_set cmd_set"
  by (rule agreesI) (simp add: p_cmd_set_def cmd_set_def same_store same_replies)

lemma agrees_setnx:
  "length (args ! 1) \<le> SIZE_MAX \<Longrightarrow> length (args ! 2) \<le> SIZE_MAX \<Longrightarrow> agrees args p_cmd_setnx cmd_setnx"
proof (rule agreesI)
  fix G x c assume len: "length (args ! 1) \<le> SIZE_MAX" "length (args ! 2) \<le> SIZE_MAX"
    and s: "stands G x c" and m: "mirrors x c"
  from m len(1) show "same (p_cmd_setnx x args) (cmd_setnx c args)"
    by (cases rule: borrowed) (simp_all add: p_cmd_setnx_def cmd_setnx_def same_replies same_store [OF s len] m del: One_nat_def)
qed

lemma same_incrby_apply:
  assumes "stands G x c" "length k \<le> SIZE_MAX"
  shows "same (p_incrby_apply x k cur delta) (incrby_apply c k cur delta)"
  using stands_mirrors [OF assms(1)] same_store [OF assms, of "fmt_d64 (cur + delta)"]
  by (simp add: p_incrby_apply_def incrby_apply_def Let_def same_replies SIZE_MAX_def)

lemma same_incrby_op:
  assumes "stands G x c" "length k \<le> SIZE_MAX"
  shows "same (p_incrby_op x k delta) (incrby_op c k delta)"
  using stands_mirrors [OF assms(1)] assms(2)
proof (cases rule: borrowed)
  case (hit a v)
  then show ?thesis
    using same_incrby_apply [OF assms] stands_mirrors [OF assms(1)]
    by (cases "parse_int64 v") (simp_all add: p_incrby_op_def incrby_op_def same_replies)
qed (simp add: p_incrby_op_def incrby_op_def same_incrby_apply [OF assms])

lemma agrees_incr:
  assumes "length (args ! 1) \<le> SIZE_MAX"
  shows "agrees args p_cmd_incr cmd_incr" "agrees args p_cmd_decr cmd_decr"
    "agrees args p_cmd_incrby cmd_incrby" "agrees args p_cmd_decrby cmd_decrby"
  using assms
  by (auto simp: p_cmd_incr_def cmd_incr_def p_cmd_decr_def cmd_decr_def p_cmd_incrby_def cmd_incrby_def
      p_cmd_decrby_def cmd_decrby_def same_replies split: option.split intro!: agreesI same_incrby_op)

lemma agrees_keys: "agrees args p_cmd_keys cmd_keys"
proof (rule agreesI)
  fix x c assume m: "mirrors x c"
  define kc where "kc = \<lparr>k_mem = c_mem c, k_out = c_out c, k_pattern = args ! 1,
    k_matched = 0, k_write = False, k_emit_failed = False\<rparr>"
  from m have rep: "represents (x_heap x) (x_table x) (c_store c)" and eq: "hp_mem (x_heap x) = c_mem c" "x_out x = c_out c"
    by (simp_all add: mirrors_def)
  obtain n1 kc1 where s1: "ht_scan (c_store c) keys_cb kc = (n1, kc1)" by fastforce
  obtain r m' o' where h: "resp_reply_array_header (k_mem kc1) (k_out kc1) (k_matched kc1) = (r, m', o')"
    by (metis prod_cases3)
  obtain n2 kc2 where s2: "ht_scan (c_store c) keys_cb (kc1\<lparr>k_mem := m', k_out := o', k_write := True\<rparr>) = (n2, kc2)"
    by fastforce
  show "same (p_cmd_keys x args) (cmd_keys c args)"
    using s1 s2 h rep eq
    by (cases r; cases "k_emit_failed kc2")
       (simp_all add: p_cmd_keys_def cmd_keys_def Let_def p_scan_simulates [OF rep] kc_def [symmetric] same_def mirrors_def
        del: One_nat_def)
qed

lemma agrees_flushdb: "agrees args p_cmd_flushdb cmd_flushdb"
proof (rule agreesI)
  fix G x c assume "stands G x c"
  then have S: "hp_mem (x_heap x) = c_mem c" "represents (x_heap x) (x_table x) (c_store c)" "x_out x = c_out c"
    "owns (c_mem c) (ht_blocks (c_store c)) G" by (simp_all add: stands_def mirrors_def)
  obtain m' st' where d: "ht_destroy (c_mem c) (c_store c) = (m', st')" by fastforce
  with p_destroy_simulates [OF S(2) S(4) [folded S(1)]] S(1) obtain h' t' where
    h: "p_destroy (x_heap x) (x_table x) = Some (h', t')" "hp_mem h' = m'" by (auto simp: simulates_def)
  have "mirrors (x\<lparr>x_heap := h', x_table := pt_init\<rparr>) (c\<lparr>c_mem := m', c_store := ht_init\<rparr>)"
    using h S(3) by (simp add: mirrors_def represents_init)
  with d h show "same (p_cmd_flushdb x args) (cmd_flushdb c args)"
    by (simp add: p_cmd_flushdb_def cmd_flushdb_def same_replies)
qed

text \<open>
  \<open>APPEND\<close>: the old bytes are copied while their block is alive; the temporary block holds the new
  value when it is stored.
\<close>

lemma append_copied:
  assumes "hp_at h tmp = Some (Bytes B)" "length old + length val \<le> length B" "length old + length val \<le> SIZE_MAX"
    "rd_bytes h a (size_of old) = Some old"
  obtains h' where "p_append_copy h tmp a (size_of old) val = Some h'"
    "hp_at h' = (hp_at h)(tmp \<mapsto> Bytes (blit (blit B 0 old) (length old) val))" "hp_mem h' = hp_mem h"
    "rd_bytes h' tmp (size_of old + size_of val) = Some (old @ val)"
proof -
  have u: "unat (size_of old) = length old" "unat (size_of old + size_of val) = length old + length val"
    using assms(3) by (simp_all add: unat_size_of unat_add_bound)
  let ?h1 = "h\<lparr>hp_at := (hp_at h)(tmp \<mapsto> Bytes (blit B 0 old))\<rparr>"
  let ?h2 = "?h1\<lparr>hp_at := (hp_at ?h1)(tmp \<mapsto> Bytes (blit (blit B 0 old) (length old) val))\<rparr>"
  have "(if size_of old > 0 then wr_bytes tmp 0 old h else Some h) = Some ?h1"
    using assms by (intro wr_bytes_block) simp_all
  then have w1: "(if size_of old > 0 then do { bs \<leftarrow> rd_bytes h a (size_of old); wr_bytes tmp 0 bs h } else Some h) = Some ?h1"
    by (simp only: assms(4) Option.bind_lunit)
  have w2: "(if size_of val > 0 then wr_bytes tmp (length old) val ?h1 else Some ?h1) = Some ?h2"
    using assms by (intro wr_bytes_block) simp_all
  have "p_append_copy h tmp a (size_of old) val = Some ?h2"
    by (simp only: p_append_copy_def w1 w2 Option.bind_lunit u)
  moreover have "take (length old + length val) (blit (blit B 0 old) (length old) val) = old @ val"
    using assms(2) take_blit_end [of "length old" "blit B 0 old" val] take_blit_end [of 0 B old] by simp
  then have "rd_bytes ?h2 tmp (size_of old + size_of val) = Some (old @ val)"
    using assms(2) by (simp add: rd_bytes_def u)
  ultimately show thesis by (intro that [of ?h2]) simp_all
qed

lemma append_size:
  assumes "\<not> size_of val > - 1 - size_of old" "length old \<le> SIZE_MAX" "length val \<le> SIZE_MAX"
  shows "length old + length val \<le> SIZE_MAX"
proof -
  have "unat (- 1 - size_of old) = unat (- 1 :: size_t) - unat (size_of old)" by (rule unat_sub) simp
  also have "unat (- 1 :: size_t) = SIZE_MAX" by (simp add: unsigned_minus_1_eq_mask mask_eq_exp_minus_1 SIZE_MAX_def)
  finally show ?thesis using assms by (simp add: word_less_nat_alt unat_size_of)
qed

lemma same_store_release:
  assumes "stands G x c" "length k \<le> SIZE_MAX" "length v \<le> SIZE_MAX" "a \<in> fr_live G"
  shows "same (do { (r, x1) \<leftarrow> p_store_set x k v;
      (case (case r of RC_ERR \<Rightarrow> p_reply_error e x1 | RC_OK \<Rightarrow> p_reply_integer i x1) of
         (rc, x2) \<Rightarrow> Some (rc, x_free (Some a) x2)) })
    (case (case store_set c k v of (RC_ERR, c1) \<Rightarrow> reply_error e c1 | (RC_OK, c1) \<Rightarrow> reply_integer i c1) of
       (r, c2) \<Rightarrow> (r, c2\<lparr>c_mem := mfree a (c_mem c2)\<rparr>))"
proof -
  obtain r c1 where s: "store_set c k v = (r, c1)" by fastforce
  from stands_set [OF assms(1-3) s] obtain x1 where x1: "p_store_set x k v = Some (r, x1)" "stands G x1 c1" by metis
  have "same (Some (case r of RC_ERR \<Rightarrow> p_reply_error e x1 | RC_OK \<Rightarrow> p_reply_integer i x1))
      (case r of RC_ERR \<Rightarrow> reply_error e c1 | RC_OK \<Rightarrow> reply_integer i c1)"
    using stands_mirrors [OF x1(2)] by (cases r) (simp_all add: same_replies)
  moreover have "c_store (snd (case r of RC_ERR \<Rightarrow> reply_error e c1 | RC_OK \<Rightarrow> reply_integer i c1)) = c_store c1"
    by (cases r) simp_all
  ultimately show ?thesis
    using same_release [of _ _ "Some a"] stands_apart [OF x1(2) assms(4)] s x1(1)
    by (cases r) (simp_all add: mfree_opt_def)
qed

lemma same_append_hit:
  assumes s: "stands G x c" and len: "length (args ! 1) \<le> SIZE_MAX" "length (args ! 2) \<le> SIZE_MAX"
    and hit: "ht_get (c_store c) (args ! 1) = Some old" "p_get (x_heap x) (x_table x) (args ! 1) = Some (Some (a, size_of old))"
      "rd_bytes (x_heap x) a (size_of old) = Some old" "a \<in> set (ht_blocks (c_store c))" "length old \<le> SIZE_MAX"
    and fits: "\<not> size_of (args ! 2) > - 1 - size_of old"
  shows "same (p_cmd_append x args) (cmd_append c args)"
proof -
  let ?val = "args ! 2"
  let ?n = "size_of old + size_of ?val"
  let ?B = "replicate (if ?n = 0 then 1 else unat ?n) (0 :: byte)"
  have sz: "length old + length ?val \<le> SIZE_MAX" using append_size fits hit(5) len(2) by blast
  then have B: "length old + length ?val \<le> length ?B"
    by (auto simp: unat_size_of unat_add_bound word_unat_eq_iff)
  obtain p m' where p: "malloc (c_mem c) = (p, m')" by fastforce
  show ?thesis
  proof (cases p)
    case None
    from same_no_temp [OF s p [unfolded None]] obtain h1 where "h_alloc (x_heap x) (Bytes ?B) = (None, h1)"
      "same (Some (p_reply_error (cstr ''ERR out of memory'') (x\<lparr>x_heap := h1\<rparr>)))
        (reply_error (cstr ''ERR out of memory'') (c\<lparr>c_mem := m'\<rparr>))" .
    with fits hit(1,2) p None show ?thesis
      by (simp add: p_cmd_append_def cmd_append_def Let_def del: One_nat_def)
  next
    case (Some tmp)
    from stands_temp [OF s p [unfolded Some] hit(3,4)] obtain h1 where h1: "h_alloc (x_heap x) (Bytes ?B) = (Some tmp, h1)"
      "stands (beside [tmp] G) (x\<lparr>x_heap := h1\<rparr>) (c\<lparr>c_mem := m'\<rparr>)" "hp_at h1 tmp = Some (Bytes ?B)"
      "rd_bytes h1 a (size_of old) = Some old" .
    from append_copied [OF h1(3) B sz h1(4)] obtain h2 where h2: "p_append_copy h1 tmp a (size_of old) ?val = Some h2"
      "hp_at h2 = (hp_at h1)(tmp \<mapsto> Bytes (blit (blit ?B 0 old) (length old) ?val))" "hp_mem h2 = hp_mem h1"
      "rd_bytes h2 tmp ?n = Some (old @ ?val)" .
    have s2: "stands (beside [tmp] G) (x\<lparr>x_heap := h2\<rparr>) (c\<lparr>c_mem := m'\<rparr>)"
      using stands_write [OF h1(2), of h2 tmp] h2(2,3) by (simp add: beside_def)
    from same_store_release [OF s2 len(1), where v = "old @ ?val" and a = tmp and e = "cstr ''ERR out of memory''" and i = "int64_of_size ?n"]
    show ?thesis
      using sz fits hit(1,2) p h1(1) Some h2
      by (simp add: p_cmd_append_def cmd_append_def Let_def beside_def del: One_nat_def)
  qed
qed

lemma agrees_append:
  assumes len: "length (args ! 1) \<le> SIZE_MAX" "length (args ! 2) \<le> SIZE_MAX"
  shows "agrees args p_cmd_append cmd_append"
proof (rule agreesI)
  fix G x c assume s: "stands G x c" and m: "mirrors x c"
  from m len(1) show "same (p_cmd_append x args) (cmd_append c args)"
  proof (cases rule: borrowed)
    case miss
    then show ?thesis
      using same_store [OF s len same_replies(3)] by (simp add: p_cmd_append_def cmd_append_def Let_def del: One_nat_def)
  next
    case (hit a old)
    show ?thesis
    proof (cases "size_of (args ! 2) > - 1 - size_of old")
      case True
      with hit m show ?thesis
        by (simp add: p_cmd_append_def cmd_append_def Let_def same_replies del: One_nat_def)
    qed (rule same_append_hit [OF s len hit])
  qed
qed

text \<open>\<open>GETSET\<close>: the reply reads the snapshot, which the store does not touch.\<close>

lemma rd_snapshot_frame:
  "(\<And>a. p = Some a \<Longrightarrow> hp_at h' a = hp_at h a) \<Longrightarrow> rd_snapshot h' p n = rd_snapshot h p n"
  by (cases p) (simp_all add: rd_snapshot_def rd_bytes_def)

lemma same_getset_store:
  assumes s: "stands G x c" and len: "length k \<le> SIZE_MAX" "length v \<le> SIZE_MAX"
    and p: "\<And>a. p = Some a \<Longrightarrow> a \<in> fr_live G"
    and hit: "case l of None \<Rightarrow> ph = None
      | Some old \<Rightarrow> \<exists>a. ph = Some (a, size_of old) \<and> rd_snapshot (x_heap x) p (size_of old) = Some old"
  shows "same (p_getset_store x k v ph p) (cmd_getset_store c k v l p)"
proof -
  obtain r c1 where set: "store_set c k v = (r, c1)" by fastforce
  from stands_set [OF s len set] obtain x1 where x1: "p_store_set x k v = Some (r, x1)" "stands G x1 c1"
    "\<forall>a\<in>fr_live G. hp_at (x_heap x1) a = hp_at (x_heap x) a" .
  have m: "mirrors x1 c1" by (rule stands_mirrors [OF x1(2)])
  have apart: "a \<notin> set (ht_blocks (c_store c1))" if "p = Some a" for a
    using stands_apart [OF x1(2) p [OF that]] .
  show ?thesis
  proof (cases r)
    case RC_ERR
    with set x1(1) mirrors_free [OF m apart] show ?thesis
      by (simp add: p_getset_store_def cmd_getset_store_def same_replies)
  next
    case RC_OK
    have snap: "rd_snapshot (x_heap x1) p n = rd_snapshot (x_heap x) p n" for n
      by (rule rd_snapshot_frame) (use x1(3) p in blast)
    show ?thesis
    proof (cases l)
      case None
      with RC_OK set x1(1) hit same_release [OF same_replies(5) [OF m], of p] apart show ?thesis
        by (simp add: p_getset_store_def cmd_getset_store_def)
    next
      case (Some old)
      with RC_OK set x1(1) hit snap same_release [OF same_replies(4) [OF m], of p old] apart show ?thesis
        by (auto simp: p_getset_store_def cmd_getset_store_def)
    qed
  qed
qed

lemma same_getset_snapshot:
  assumes s: "stands G x c" and len: "length (args ! 1) \<le> SIZE_MAX" "length (args ! 2) \<le> SIZE_MAX"
    and hit: "ht_get (c_store c) (args ! 1) = Some old" "p_get (x_heap x) (x_table x) (args ! 1) = Some (Some (a, size_of old))"
      "rd_bytes (x_heap x) a (size_of old) = Some old" "a \<in> set (ht_blocks (c_store c))" "length old \<le> SIZE_MAX"
    and full: "old \<noteq> []"
  shows "same (p_cmd_getset x args) (cmd_getset c args)"
proof -
  let ?B = "replicate (length old) (0 :: byte)"
  have pos: "size_of old > 0" "unat (size_of old) = length old" using full hit(5) by (simp_all add: size_of_pos unat_size_of)
  obtain p m' where p: "malloc (c_mem c) = (p, m')" by fastforce
  show ?thesis
  proof (cases p)
    case None
    from same_no_temp [OF s p [unfolded None]] obtain h1 where "h_alloc (x_heap x) (Bytes ?B) = (None, h1)"
      "same (Some (p_reply_error (cstr ''ERR out of memory'') (x\<lparr>x_heap := h1\<rparr>)))
        (reply_error (cstr ''ERR out of memory'') (c\<lparr>c_mem := m'\<rparr>))" .
    with full pos hit(1,2) p None show ?thesis
      by (simp add: p_cmd_getset_def cmd_getset_def del: One_nat_def)
  next
    case (Some snap)
    from stands_temp [OF s p [unfolded Some] hit(3,4)] obtain h1 where h1: "h_alloc (x_heap x) (Bytes ?B) = (Some snap, h1)"
      "stands (beside [snap] G) (x\<lparr>x_heap := h1\<rparr>) (c\<lparr>c_mem := m'\<rparr>)" "hp_at h1 snap = Some (Bytes ?B)"
      "rd_bytes h1 a (size_of old) = Some old" .
    define h2 where "h2 = h1\<lparr>hp_at := (hp_at h1)(snap \<mapsto> Bytes old)\<rparr>"
    have w: "wr_bytes snap 0 old h1 = Some h2" using h1(3) by (simp add: wr_bytes_def blit_def h2_def)
    have s2: "stands (beside [snap] G) (x\<lparr>x_heap := h2\<rparr>) (c\<lparr>c_mem := m'\<rparr>)"
      using stands_write [OF h1(2), of h2 snap] by (simp add: beside_def h2_def)
    have "rd_snapshot h2 (Some snap) (size_of old) = Some old"
      using pos by (auto simp: rd_snapshot_def rd_bytes_def h2_def)
    with same_getset_store [OF s2 len, where p = "Some snap" and l = "Some old" and ph = "Some (a, size_of old)"]
    have "same (p_getset_store (x\<lparr>x_heap := h2\<rparr>) (args ! 1) (args ! 2) (Some (a, size_of old)) (Some snap))
        (cmd_getset_store (c\<lparr>c_mem := m'\<rparr>) (args ! 1) (args ! 2) (Some old) (Some snap))"
      by (simp add: beside_def)
    with full pos hit(1,2) p h1(1,4) Some w show ?thesis
      by (simp add: p_cmd_getset_def cmd_getset_def del: One_nat_def)
  qed
qed

lemma agrees_getset:
  assumes len: "length (args ! 1) \<le> SIZE_MAX" "length (args ! 2) \<le> SIZE_MAX"
  shows "agrees args p_cmd_getset cmd_getset"
proof (rule agreesI)
  fix G x c assume s: "stands G x c" and m: "mirrors x c"
  from m len(1) show "same (p_cmd_getset x args) (cmd_getset c args)"
  proof (cases rule: borrowed)
    case miss
    with same_getset_store [OF s len, where p = None and l = None and ph = None] show ?thesis
      by (simp add: p_cmd_getset_def cmd_getset_def del: One_nat_def)
  next
    case (hit a old)
    show ?thesis
    proof (cases "old = []")
      case True
      with hit same_getset_store [OF s len, where p = None and l = "Some []" and ph = "Some (a, 0)"] show ?thesis
        by (simp add: p_cmd_getset_def cmd_getset_def rd_snapshot_def del: One_nat_def)
    qed (rule same_getset_snapshot [OF s len hit])
  qed
qed

section \<open>Dispatch agrees\<close>

text \<open>Two entries of the tables: the name, the bounds, and handlers that agree on what passes these.\<close>

definition entries_agree :: "bytes list \<Rightarrow> p_entry \<Rightarrow> cmd_entry \<Rightarrow> bool" where
  "entries_agree args pe e \<longleftrightarrow> pe_name pe = ce_name e \<and> pe_min_argc pe = ce_min_argc e \<and> pe_max_argc pe = ce_max_argc e \<and>
     (ce_min_argc e \<le> int (length args) \<longrightarrow> agrees args (pe_handler pe) (ce_handler e))"

lemma entries_agreeI:
  "(lo \<le> int (length args) \<Longrightarrow> agrees args ph h) \<Longrightarrow> entries_agree args (p_entry s lo hi ph) (entry s lo hi h)"
  by (simp add: entries_agree_def p_entry_def entry_def)

lemma commands_agree:
  assumes "\<forall>a\<in>set args. length a \<le> SIZE_MAX"
  shows "list_all2 (entries_agree args) p_commands commands"
proof -
  have nth: "length (args ! i) \<le> SIZE_MAX" if "i < length args" for i using assms that by simp
  have 1: "length (args ! 1) \<le> SIZE_MAX" if "2 \<le> int (length args)" using that by (intro nth) simp
  have 2: "length (args ! 1) \<le> SIZE_MAX" "length (args ! 2) \<le> SIZE_MAX" if "3 \<le> int (length args)"
    using that by (intro nth; simp)+
  have tl: "\<forall>k\<in>set (tl args). length k \<le> SIZE_MAX" using assms by (cases args) auto
  show ?thesis
    unfolding p_commands_def commands_def list_all2_Cons list.rel_inject
    by (intro conjI list_all2_Nil [THEN iffD2] entries_agreeI agrees_ping agrees_command agrees_dbsize agrees_keys
        agrees_flushdb agrees_get agrees_set agrees_setnx agrees_incr agrees_strlen agrees_append agrees_getset
        agrees_del agrees_exists 1 2 tl) simp_all
qed


lemma dispatch_agree:
  assumes "list_all2 (entries_agree args) ps es" "length args \<le> RESP_MAX_ARGC" "stands G x c"
  shows "same (p_dispatch ps x args) (dispatch es c args)"
  using assms(1)
proof (induction rule: list_all2_induct)
  case Nil
  then show ?case using same_replies(2) [OF stands_mirrors [OF assms(3)]] by simp
next
  case (Cons pe ps e es)
  then show ?case
    using assms(2,3) stands_mirrors [OF assms(3)]
    by (auto simp: entries_agree_def agrees_def Let_def int_of_argc_small same_replies)
qed

lemma execute_agree:
  assumes "stands G x c" "\<forall>a\<in>set args. length a \<le> SIZE_MAX" "length args \<le> RESP_MAX_ARGC"
  shows "same (p_command_execute x args) (command_execute c args)"
  using dispatch_agree [OF commands_agree [OF assms(2)] assms(3,1)] stands_mirrors [OF assms(1)]
  by (simp add: p_command_execute_def command_execute_def same_replies)

lemma sound_stands:
  assumes "mirrors x c" "ctx_inv c" "owns (c_mem c) (ctx_blocks c) F"
  shows "stands (beside (bb_blocks (c_out c)) F) x c"
  using assms by (simp add: stands_def ctx_inv_def ctx_blocks_def owns_append)

section \<open>Memory safety of the commands\<close>

definition fresh_heap_ctx :: heap_ctx where
  "fresh_heap_ctx = \<lparr>x_heap = heap_init [], x_table = pt_init, x_out = bytebuf_init\<rparr>"

lemma fresh_mirrors: "mirrors fresh_heap_ctx fresh_ctx"
  by (simp add: mirrors_def fresh_heap_ctx_def fresh_ctx_def heap_init_def represents_init)

text \<open>
  C10. The commands are memory safe: \<open>command_execute\<close> on the store, from a sound context, always has
  a result. No handler reads through a pointer whose block was freed or past the end of a block,
  writes outside its own blocks, or frees what is not there, whatever allocations fail. Its status
  and reply are those of the model with values, the store it leaves stands for the one there,
  and the context is sound again, with the blocks of the rest of the program still theirs.
\<close>

theorem commands_memory_safe:
  assumes "mirrors x c" "ctx_inv c" "owns (c_mem c) (ctx_blocks c) F" "in_memory (ht_abs (c_store c)) args"
  shows "case command_execute c args of (rc, c') \<Rightarrow>
    \<exists>x'. p_command_execute x args = Some (rc, x') \<and> mirrors x' c' \<and> ctx_inv c' \<and> owns (c_mem c') (ctx_blocks c') F"
proof -
  have "\<forall>a\<in>set args. length a \<le> SIZE_MAX" "length args \<le> RESP_MAX_ARGC"
    using assms(4) by (auto simp: in_memory_def MEM_MAX_SIZE_MAX)
  from execute_agree [OF sound_stands [OF assms(1-3)] this]
  have "same (p_command_execute x args) (command_execute c args)" .
  moreover have "\<forall>xs F. owns (c_mem c) (ctx_blocks c @ [] @ xs) F \<longrightarrow> owns (c_mem c') (ctx_blocks c' @ xs) F"
    "ctx_inv c'" if "command_execute c args = (rc, c')" for rc c'
    using command_execute_answers [OF assms(2,4)] by (simp_all add: answers_def that)
  ultimately show ?thesis using assms(3) by (fastforce simp: same_def dest: spec [of _ "[]"])
qed

theorem commands_memory_safe_witness:
  "\<exists>x1 x2. p_command_execute fresh_heap_ctx [cstr ''SET'', cstr ''k'', cstr ''old''] = Some (RC_OK, x1) \<and>
    p_command_execute x1 [cstr ''GETSET'', cstr ''k'', cstr ''new''] = Some (RC_OK, x2) \<and>
    bb_contents (x_out x2) = encode_reply (RSimple (cstr ''OK'')) @ encode_reply (RBulk (cstr ''old''))"
proof -
  let ?set = "[cstr ''SET'', cstr ''k'', cstr ''old'']" and ?getset = "[cstr ''GETSET'', cstr ''k'', cstr ''new'']"
  let ?mp = "[cstr ''k'' \<mapsto> cstr ''old'']"
  have m0: "in_memory (ht_abs (c_store fresh_ctx)) ?set"
    by (simp add: in_memory_empty cstr_def RESP_MAX_ARGC_def)
  have e0: "exec (ht_keys (c_store fresh_ctx)) (ht_abs (c_store fresh_ctx)) ?set = (RSimple (cstr ''OK''), ?mp)"
    by (simp add: exec_def decode_def decode_named_def cstr_def to_upper_def)
  from execute_plenty [OF fresh_ctx_props(1) m0 fresh_ctx_props(2) e0] obtain c1 where
    c1: "command_execute fresh_ctx ?set = (RC_OK, c1)" "mem_plenty (c_mem c1)"
      "ctx_reply c1 = encode_reply (RSimple (cstr ''OK''))" "ht_abs (c_store c1) = ?mp"
    by (auto simp: BUF_LIMIT_def cstr_def)
  have "owns (c_mem fresh_ctx) (ctx_blocks fresh_ctx) alone" by simp
  from commands_memory_safe [OF fresh_mirrors fresh_ctx_props(1) this m0] c1(1) obtain x1 where
    x1: "p_command_execute fresh_heap_ctx ?set = Some (RC_OK, x1)" "mirrors x1 c1" "ctx_inv c1"
      "owns (c_mem c1) (ctx_blocks c1) alone" by auto
  have m1: "in_memory (ht_abs (c_store c1)) ?getset"
    by (simp add: c1(4) in_memory_def cstr_def RESP_MAX_ARGC_def MEM_MAX_def)
  have e1: "exec (ht_keys (c_store c1)) (ht_abs (c_store c1)) ?getset = (RBulk (cstr ''old''), ?mp(cstr ''k'' \<mapsto> cstr ''new''))"
    by (simp add: c1(4) exec_def decode_def decode_named_def cstr_def to_upper_def)
  have "length (ctx_reply c1) + length (encode_reply (RBulk (cstr ''old''))) \<le> BUF_LIMIT"
    using fmt_zu_length [of "size_of (cstr ''old'')"] by (simp add: c1(3) BUF_LIMIT_def cstr_def bulk_bytes_def)
  from execute_plenty [OF x1(3) m1 c1(2) e1 this] obtain c2 where
    c2: "command_execute c1 ?getset = (RC_OK, c2)" "ctx_reply c2 = ctx_reply c1 @ encode_reply (RBulk (cstr ''old''))"
    by metis
  from commands_memory_safe [OF x1(2,3,4) m1] c2(1) obtain x2 where
    "p_command_execute x1 ?getset = Some (RC_OK, x2)" "mirrors x2 c2" by auto
  with x1(1) c2(2) c1(3) show ?thesis by (auto simp: mirrors_def ctx_reply_def simp del: encode_reply.simps)
qed

end
