(* ===== verification/Networking.thy ===== *)
theory Networking
  imports Command_Refine Resp_Props "HOL-Library.Monad_Syntax"
begin

text \<open>
  The event loop of \<open>networking.c\<close>. The module's globals and the part of the kernel it talks to
  (open descriptors, the epoll registrations, the bytes written to each peer) are one record.
  What the kernel decides is given with each event: the outcomes of the \<open>read\<close>, \<open>write\<close> and
  \<open>accept\<close> calls made while it is handled, in order (after the last one the call would block),
  and the outcomes of \<open>epoll_ctl\<close>. The list of connections is \<open>g_conns\<close> in link order; the
  address of a connection is its block, and an event for an address that is not in the list is
  a use of freed memory, recorded in \<open>m_bad\<close>. Only logging is left out.
\<close>

section \<open>Data\<close>

type_synonym mask = "32 word"

definition EPOLLIN :: mask where "EPOLLIN = 0x001"
definition EPOLLOUT :: mask where "EPOLLOUT = 0x004"
definition EPOLLERR :: mask where "EPOLLERR = 0x008"
definition EPOLLHUP :: mask where "EPOLLHUP = 0x010"

definition MAX_EVENTS :: nat where "MAX_EVENTS = 64"
definition READ_CHUNK :: nat where "READ_CHUNK = 4096"

record conn =
  cn_self :: addr
  cn_fd :: nat
  cn_in :: bytebuf
  cn_out :: bytebuf
  cn_events :: mask
  cn_close_after_drain :: bool

text \<open>
  \<open>w_epoll\<close> is the interest set of the epoll instance: the pointer and the mask registered for a
  descriptor. \<open>w_sent\<close> logs what \<open>write\<close> accepted. \<open>w_bad_close\<close> records a \<open>close\<close> of a
  descriptor that is not open. A descriptor of \<open>-1\<close> is \<open>None\<close>.
\<close>

record world =
  w_mem :: mem
  w_store :: hashtable
  w_conns :: "conn list"
  w_listen_fd :: "nat option"
  w_epoll_fd :: "nat option"
  w_shutdown :: bool
  w_ctl :: "bool list"
  w_epoll :: "nat \<rightharpoonup> addr option \<times> mask"
  w_open :: "nat list"
  w_bad_close :: bool
  w_sent :: "(addr \<times> bytes) list"

datatype read_result = Rd_Bytes bytes | Rd_Intr | Rd_Again | Rd_Error
datatype write_result = Wr_Bytes nat | Wr_Intr | Wr_Again | Wr_Gone | Wr_Error
datatype accept_result = Ac_Conn nat bool | Ac_Intr | Ac_Again | Ac_Error

record event =
  ev_ptr :: "addr option"
  ev_mask :: mask
  ev_reads :: "read_result list"
  ev_writes :: "write_result list"
  ev_accepts :: "accept_result list"

section \<open>The kernel\<close>

text \<open>A descriptor that is not in use, from \<open>k\<close> on.\<close>

function next_free :: "nat \<Rightarrow> nat list \<Rightarrow> nat" where
  "next_free k used = (if k \<in> set used then next_free (Suc k) (removeAll k used) else k)"
  by pat_completeness auto
termination
  by (relation "measure (\<lambda>(k, used). length used)") (auto simp: length_removeAll_less)

declare next_free.simps [simp del]

definition sys_open :: "nat \<Rightarrow> world \<Rightarrow> nat \<times> world" where
  "sys_open k w = (let fd = next_free k (w_open w) in (fd, w\<lparr>w_open := fd # w_open w\<rparr>))"

text \<open>\<open>close\<close> also drops the descriptor from the epoll set.\<close>

definition sys_close :: "nat \<Rightarrow> world \<Rightarrow> world" where
  "sys_close fd w =
     (if fd \<in> set (w_open w)
      then w\<lparr>w_open := removeAll fd (w_open w), w_epoll := (w_epoll w)(fd := None)\<rparr>
      else w\<lparr>w_bad_close := True\<rparr>)"

definition ctl_outcome :: "world \<Rightarrow> bool \<times> world" where
  "ctl_outcome w = (case w_ctl w of [] \<Rightarrow> (True, w) | b # bs \<Rightarrow> (b, w\<lparr>w_ctl := bs\<rparr>))"

text \<open>\<open>epoll_ctl\<close> with \<open>ADD\<close> or \<open>MOD\<close>, and with \<open>DEL\<close>.\<close>

definition epoll_set :: "nat \<Rightarrow> addr option \<Rightarrow> mask \<Rightarrow> world \<Rightarrow> rc \<times> world" where
  "epoll_set fd ptr ev w =
     (let (ok, w') = ctl_outcome w in
      if ok then (RC_OK, w'\<lparr>w_epoll := (w_epoll w')(fd \<mapsto> (ptr, ev))\<rparr>) else (RC_ERR, w'))"

definition epoll_del :: "nat \<Rightarrow> world \<Rightarrow> world" where
  "epoll_del fd w =
     (let (ok, w') = ctl_outcome w in
      if ok then w'\<lparr>w_epoll := (w_epoll w')(fd := None)\<rparr> else w')"

section \<open>Interest\<close>

definition arm_events :: "world \<Rightarrow> conn \<Rightarrow> mask \<Rightarrow> rc \<times> world \<times> conn" where
  "arm_events w c events =
     (if cn_events c = events then (RC_OK, w, c)
      else case epoll_set (cn_fd c) (Some (cn_self c)) events w of
        (RC_ERR, w') \<Rightarrow> (RC_ERR, w', c)
      | (RC_OK, w') \<Rightarrow> (RC_OK, w', c\<lparr>cn_events := events\<rparr>))"

section \<open>Connection lifecycle\<close>

definition free_conn :: "conn \<Rightarrow> mem \<Rightarrow> mem" where
  "free_conn c m =
     (let (m1, _) = bytebuf_free m (cn_in c); (m2, _) = bytebuf_free m1 (cn_out c)
      in mfree (cn_self c) m2)"

text \<open>The fields of a fresh connection.\<close>

definition new_conn :: "addr \<Rightarrow> nat \<Rightarrow> mask \<Rightarrow> conn" where
  "new_conn a fd ev = \<lparr>cn_self = a, cn_fd = fd, cn_in = bytebuf_init, cn_out = bytebuf_init,
     cn_events = ev, cn_close_after_drain = False\<rparr>"

text \<open>One accepted socket: its set-up, and the unwinding of each failure.\<close>

definition accept_one :: "nat \<Rightarrow> bool \<Rightarrow> world \<Rightarrow> world" where
  "accept_one k nonblock_ok w =
     (let (cfd, w1) = sys_open k w in
      if \<not> nonblock_ok then sys_close cfd w1
      else case malloc (w_mem w1) of
        (None, m') \<Rightarrow> sys_close cfd (w1\<lparr>w_mem := m'\<rparr>)
      | (Some a, m') \<Rightarrow>
          (let c = new_conn a cfd 0;
               w2 = w1\<lparr>w_mem := m', w_conns := c # w_conns w1\<rparr>
           in case epoll_set cfd (Some a) EPOLLIN w2 of
                (RC_ERR, w3) \<Rightarrow>
                  sys_close cfd (w3\<lparr>w_conns := tl (w_conns w3), w_mem := free_conn c (w_mem w3)\<rparr>)
              | (RC_OK, w3) \<Rightarrow> w3\<lparr>w_conns := c\<lparr>cn_events := EPOLLIN\<rparr> # tl (w_conns w3)\<rparr>))"

fun accept_clients :: "accept_result list \<Rightarrow> world \<Rightarrow> world" where
  "accept_clients [] w = w"
| "accept_clients (r # rs) w =
     (case r of
        Ac_Again \<Rightarrow> w
      | Ac_Intr \<Rightarrow> accept_clients rs w
      | Ac_Error \<Rightarrow> w
      | Ac_Conn k nonblock_ok \<Rightarrow> accept_clients rs (accept_one k nonblock_ok w))"

fun unlink_conn :: "addr \<Rightarrow> conn list \<Rightarrow> conn list" where
  "unlink_conn a [] = []"
| "unlink_conn a (c # cs) = (if cn_self c = a then cs else c # unlink_conn a cs)"

definition close_conn :: "conn \<Rightarrow> world \<Rightarrow> world" where
  "close_conn c w =
     (let w1 = (if w_epoll_fd w \<noteq> None then epoll_del (cn_fd c) w else w);
          w2 = sys_close (cn_fd c) w1;
          w3 = w2\<lparr>w_conns := unlink_conn (cn_self c) (w_conns w2)\<rparr>
      in w3\<lparr>w_mem := free_conn c (w_mem w3)\<rparr>)"

section \<open>Reading\<close>

datatype read_end = Re_Wait | Re_Failed bytes | Re_Close

text \<open>The two checks at the head of the loop: the error text, or the tail to read into.\<close>

definition read_prepare :: "mem \<Rightarrow> bytebuf \<Rightarrow> (bytes \<times> mem \<times> bytebuf) + (size_t \<times> mem \<times> bytebuf)" where
  "read_prepare m b =
     (if bytebuf_len b \<ge> BYTEBUF_MAX then Inl (cstr ''ERR request too large'', m, b)
      else case bytebuf_reserve m b (word_of_nat READ_CHUNK) of
        (None, m', b') \<Rightarrow> Inl (cstr ''ERR out of memory'', m', b')
      | (Some tail, m', b') \<Rightarrow> Inr (tail, m', b'))"

text \<open>The kernel writes the \<open>n\<close> bytes it returns at the tail, and the code advances by \<open>n\<close>.\<close>

definition read_into :: "bytebuf \<Rightarrow> size_t \<Rightarrow> bytes \<Rightarrow> bytebuf" where
  "read_into b tail bs =
     bytebuf_advance (b\<lparr>bb_data := blit (bb_data b) (unat tail) bs\<rparr>) (size_of bs)"

fun read_loop :: "mem \<Rightarrow> bytebuf \<Rightarrow> read_result list \<Rightarrow> read_end \<times> mem \<times> bytebuf" where
  "read_loop m b [] =
     (case read_prepare m b of
        Inl (msg, m', b') \<Rightarrow> (Re_Failed msg, m', b')
      | Inr (tail, m', b') \<Rightarrow> (Re_Wait, m', b'))"
| "read_loop m b (r # rs) =
     (case read_prepare m b of
        Inl (msg, m', b') \<Rightarrow> (Re_Failed msg, m', b')
      | Inr (tail, m', b') \<Rightarrow>
          (case r of
             Rd_Bytes bs \<Rightarrow>
               (let bs' = take READ_CHUNK bs in
                if bs' = [] then (Re_Close, m', b')
                else read_loop m' (read_into b' tail bs') rs)
           | Rd_Again \<Rightarrow> (Re_Wait, m', b')
           | Rd_Intr \<Rightarrow> read_loop m' b' rs
           | Rd_Error \<Rightarrow> (Re_Close, m', b')))"

section \<open>Dispatching\<close>

datatype dispatch_end = De_Wait | De_Protocol | De_Fail

text \<open>The input pointer \<open>bytebuf_data\<close> as the bytes from it to the end of the backing array.\<close>

definition input_bytes :: "bytebuf \<Rightarrow> bytes" where
  "input_bytes b = (case bytebuf_data b of None \<Rightarrow> [] | Some off \<Rightarrow> drop (unat off) (bb_data b))"

partial_function (option) dispatch_frames ::
  "command_ctx \<Rightarrow> bytebuf \<Rightarrow> (dispatch_end \<times> command_ctx \<times> bytebuf) option" where
  "dispatch_frames ctx b =
     (case resp_parse_request (input_bytes b) (unat (bytebuf_len b)) of
        RESP_NEED_MORE \<Rightarrow> Some (De_Wait, ctx, b)
      | RESP_PROTOCOL_ERR \<Rightarrow> Some (De_Protocol, snd (reply_error (cstr ''ERR Protocol error'') ctx), b)
      | RESP_OK req \<Rightarrow>
          (case command_execute ctx (map (slice_bytes (input_bytes b)) (rq_args req)) of
             (RC_ERR, ctx') \<Rightarrow> Some (De_Fail, ctx', b)
           | (RC_OK, ctx') \<Rightarrow> dispatch_frames ctx' (bytebuf_consume b (word_of_nat (rq_consumed req)))))"

text \<open>The interest the code asks for after dispatching.\<close>

definition want_events :: "conn \<Rightarrow> mask" where
  "want_events c =
     (if \<not> cn_close_after_drain c then EPOLLIN else 0) OR
     (if bytebuf_len (cn_out c) > 0 then EPOLLOUT else 0)"

text \<open>The end of \<open>handle_read\<close>, after the buffers and the flag are up to date.\<close>

definition finish_read :: "world \<Rightarrow> conn \<Rightarrow> rc \<times> world \<times> conn" where
  "finish_read w c =
     (if cn_close_after_drain c \<and> bytebuf_len (cn_out c) = 0 then (RC_ERR, w, c)
      else let want = want_events c in
        if want = 0 then (RC_ERR, w, c) else arm_events w c want)"

definition handle_read :: "read_result list \<Rightarrow> world \<Rightarrow> conn \<Rightarrow> (rc \<times> world \<times> conn) option" where
  "handle_read reads w c =
     (if cn_close_after_drain c then
        (if bytebuf_len (cn_out c) = 0 then Some (RC_ERR, w, c) else Some (arm_events w c EPOLLOUT))
      else
        (case read_loop (w_mem w) (cn_in c) reads of (re, m1, in1) \<Rightarrow>
           if re = Re_Close then Some (RC_ERR, w\<lparr>w_mem := m1\<rparr>, c\<lparr>cn_in := in1\<rparr>)
           else do {
             (de, ctx, in2) \<leftarrow> dispatch_frames \<lparr>c_mem = m1, c_store = w_store w, c_out = cn_out c\<rparr> in1;
             let c1 = c\<lparr>cn_in := in2, cn_out := c_out ctx\<rparr>;
             let w1 = w\<lparr>w_mem := c_mem ctx, w_store := c_store ctx\<rparr>;
             (if de = De_Fail then Some (RC_ERR, w1, c1)
              else
                let c2 = (if de = De_Protocol then c1\<lparr>cn_close_after_drain := True\<rparr> else c1) in
                (case re of
                   Re_Failed msg \<Rightarrow>
                     (case resp_reply_error (w_mem w1) (cn_out c2) msg of
                        (_, m3, out3) \<Rightarrow>
                          Some (finish_read (w1\<lparr>w_mem := m3\<rparr>)
                            (c2\<lparr>cn_out := out3, cn_close_after_drain := True\<rparr>)))
                 | _ \<Rightarrow> Some (finish_read w1 c2)))
           }))"

section \<open>Writing\<close>

datatype write_end = We_Drained | We_Again | We_Error

text \<open>The loop of \<open>handle_write\<close>, with the bytes the kernel accepted.\<close>

fun write_loop :: "bytebuf \<Rightarrow> write_result list \<Rightarrow> write_end \<times> bytebuf \<times> bytes" where
  "write_loop b [] = (if bytebuf_len b > 0 then We_Again else We_Drained, b, [])"
| "write_loop b (r # rs) =
     (if bytebuf_len b > 0 then
        (case r of
           Wr_Bytes k \<Rightarrow>
             (let n = min k (unat (bytebuf_len b));
                  sent = take n (input_bytes b)
              in case write_loop (bytebuf_consume b (word_of_nat n)) rs of
                   (e, b', later) \<Rightarrow> (e, b', sent @ later))
         | Wr_Again \<Rightarrow> (We_Again, b, [])
         | Wr_Intr \<Rightarrow> write_loop b rs
         | Wr_Gone \<Rightarrow> (We_Error, b, [])
         | Wr_Error \<Rightarrow> (We_Error, b, []))
      else (We_Drained, b, []))"

definition handle_write :: "write_result list \<Rightarrow> world \<Rightarrow> conn \<Rightarrow> rc \<times> world \<times> conn" where
  "handle_write writes w c =
     (case write_loop (cn_out c) writes of (e, out', sent) \<Rightarrow>
        let c' = c\<lparr>cn_out := out'\<rparr>; w' = w\<lparr>w_sent := w_sent w @ [(cn_self c, sent)]\<rparr> in
        (case e of
           We_Again \<Rightarrow> (RC_OK, w', c')
         | We_Error \<Rightarrow> (RC_ERR, w', c')
         | We_Drained \<Rightarrow>
             (if cn_close_after_drain c' then (RC_ERR, w', c') else arm_events w' c' EPOLLIN)))"

section \<open>The event loop\<close>

fun find_conn :: "addr \<Rightarrow> conn list \<Rightarrow> conn option" where
  "find_conn a [] = None"
| "find_conn a (c # cs) = (if cn_self c = a then Some c else find_conn a cs)"

fun put_conn :: "conn \<Rightarrow> conn list \<Rightarrow> conn list" where
  "put_conn c [] = []"
| "put_conn c (d # ds) = (if cn_self d = cn_self c then c # ds else d # put_conn c ds)"

definition update_conn :: "conn \<Rightarrow> world \<Rightarrow> world" where
  "update_conn c w = w\<lparr>w_conns := put_conn c (w_conns w)\<rparr>"

definition has_event :: "mask \<Rightarrow> mask \<Rightarrow> bool" where
  "has_event ev bits \<longleftrightarrow> ev AND bits \<noteq> 0"

text \<open>The body of the loop for an event on a client socket.\<close>

definition write_event :: "event \<Rightarrow> world \<Rightarrow> conn \<Rightarrow> world" where
  "write_event e w c =
     (if has_event (ev_mask e) EPOLLOUT
      then (case handle_write (ev_writes e) w c of
              (RC_ERR, w', c') \<Rightarrow> close_conn c' w'
            | (RC_OK, w', c') \<Rightarrow> update_conn c' w')
      else update_conn c w)"

definition client_event :: "event \<Rightarrow> world \<Rightarrow> conn \<Rightarrow> world option" where
  "client_event e w c =
     (if has_event (ev_mask e) (EPOLLERR OR EPOLLHUP) then Some (close_conn c w)
      else if has_event (ev_mask e) EPOLLIN
      then do {
        (r, w', c') \<leftarrow> handle_read (ev_reads e) w c;
        Some (if r = RC_ERR then close_conn c' w' else write_event e w' c')
      }
      else Some (write_event e w c))"

text \<open>A batch: \<open>break\<close> on a listener error stops it.\<close>

fun net_batch :: "event list \<Rightarrow> world \<Rightarrow> world option" where
  "net_batch [] w = Some w"
| "net_batch (e # es) w =
     (case ev_ptr e of
        None \<Rightarrow>
          (if has_event (ev_mask e) (EPOLLERR OR EPOLLHUP) then Some (w\<lparr>w_shutdown := True\<rparr>)
           else net_batch es (accept_clients (ev_accepts e) w))
      | Some a \<Rightarrow>
          (case find_conn a (w_conns w) of
             None \<Rightarrow> net_batch es (w\<lparr>w_mem := (w_mem w)\<lparr>m_bad := True\<rparr>\<rparr>)
           | Some c \<Rightarrow> client_event e w c \<bind> net_batch es))"

definition on_signal :: "world \<Rightarrow> world" where
  "on_signal w = w\<lparr>w_shutdown := True\<rparr>"

text \<open>
  What happens at \<open>epoll_wait\<close>, entered after the flag was found clear: a signal that arrives before
  the call blocks, which the call does not notice (it goes on to wait); an interruption (by a
  signal that is handled or not); a fatal error; or a batch during whose handling a signal may arrive.
\<close>

datatype wait_result = Ew_Early | Ew_Intr bool | Ew_Fatal | Ew_Events bool "event list"

text \<open>
  The loop from \<open>epoll_wait\<close> on, on the successive results; the flag of the result says that it was
  left. With no result left the program is blocked in \<open>epoll_wait\<close>. The test of \<open>g_shutdown\<close> stands at the
  head of each turn, so only a wait that returns is followed by it.
\<close>

fun net_wait :: "wait_result list \<Rightarrow> world \<Rightarrow> (bool \<times> world) option" where
  "net_wait [] w = Some (False, w)"
| "net_wait (r # rs) w =
     (let again = (\<lambda>w. if w_shutdown w then Some (True, w) else net_wait rs w) in
      case r of
        Ew_Early \<Rightarrow> net_wait rs (on_signal w)
      | Ew_Intr sig \<Rightarrow> again (if sig then on_signal w else w)
      | Ew_Fatal \<Rightarrow> Some (True, w)
      | Ew_Events sig es \<Rightarrow> do {
          w' \<leftarrow> net_batch es w;
          again (if sig then on_signal w' else w')
        })"

definition net_loop :: "wait_result list \<Rightarrow> world \<Rightarrow> (bool \<times> world) option" where
  "net_loop rs w = (if w_shutdown w then Some (True, w) else net_wait rs w)"

lemma net_wait_turn:
  "net_wait (r # rs) w =
     (case r of
        Ew_Early \<Rightarrow> net_wait rs (on_signal w)
      | Ew_Intr sig \<Rightarrow> net_loop rs (if sig then on_signal w else w)
      | Ew_Fatal \<Rightarrow> Some (True, w)
      | Ew_Events sig es \<Rightarrow> net_batch es w \<bind> (\<lambda>w'. net_loop rs (if sig then on_signal w' else w')))"
  by (simp only: net_wait.simps net_loop_def Let_def)

lemma net_loop_turn [simp]:
  "w_shutdown w \<Longrightarrow> net_loop rs w = Some (True, w)" "\<not> w_shutdown w \<Longrightarrow> net_loop rs w = net_wait rs w"
  by (simp_all add: net_loop_def)

lemma net_loop_blocked [simp]: "net_loop [] w = Some (w_shutdown w, w)"
  by (simp add: net_loop_def)

lemmas net_wait_simps [simp] = net_wait.simps(1) net_wait_turn

declare net_wait.simps(2) [simp del]

fun teardown_conns :: "conn list \<Rightarrow> world \<Rightarrow> world" where
  "teardown_conns [] w = w\<lparr>w_conns := []\<rparr>"
| "teardown_conns (c # cs) w =
     (let w1 = (if w_epoll_fd w \<noteq> None then epoll_del (cn_fd c) w else w);
          w2 = sys_close (cn_fd c) w1
      in teardown_conns cs (w2\<lparr>w_mem := free_conn c (w_mem w2), w_conns := cs\<rparr>))"

definition net_teardown :: "world \<Rightarrow> world" where
  "net_teardown w =
     (let w1 = teardown_conns (w_conns w) w;
          w2 = (case w_epoll_fd w1 of None \<Rightarrow> w1 | Some fd \<Rightarrow> (sys_close fd w1)\<lparr>w_epoll_fd := None\<rparr>)
      in case w_listen_fd w2 of None \<Rightarrow> w2 | Some fd \<Rightarrow> (sys_close fd w2)\<lparr>w_listen_fd := None\<rparr>)"

text \<open>\<open>net_run\<close>: its status and the world it leaves, or \<open>None\<close> while it is still waiting.\<close>

definition net_run :: "wait_result list \<Rightarrow> world \<Rightarrow> (rc \<times> world) option" where
  "net_run rs w = do {
     (left, w') \<leftarrow> net_loop rs w;
     (if left then Some (RC_OK, net_teardown w') else None)
   }"

section \<open>Set-up\<close>

text \<open>The outcomes of the calls of \<open>setup_listener\<close> and \<open>net_init\<close>, in the order they are made.\<close>

record setup_env =
  se_socket :: "nat option"
  se_setsockopt :: bool
  se_getfl :: bool
  se_setfl :: bool
  se_pton :: bool
  se_bind :: bool
  se_listen :: bool
  se_epoll_create :: "nat option"

definition set_nonblock :: "setup_env \<Rightarrow> rc" where
  "set_nonblock se = (if \<not> se_getfl se then RC_ERR else if \<not> se_setfl se then RC_ERR else RC_OK)"

definition setup_listener :: "setup_env \<Rightarrow> world \<Rightarrow> nat option \<times> world" where
  "setup_listener se w =
     (case se_socket se of
        None \<Rightarrow> (None, w)
      | Some k \<Rightarrow>
          (let (fd, w1) = sys_open k w in
           if \<not> se_setsockopt se then (None, sys_close fd w1)
           else if set_nonblock se = RC_ERR then (None, sys_close fd w1)
           else if \<not> se_pton se then (None, sys_close fd w1)
           else if \<not> se_bind se then (None, sys_close fd w1)
           else if \<not> se_listen se then (None, sys_close fd w1)
           else (Some fd, w1)))"

definition net_init :: "setup_env \<Rightarrow> hashtable \<Rightarrow> world \<Rightarrow> rc \<times> world" where
  "net_init se store w =
     (let w0 = w\<lparr>w_store := store\<rparr> in
      case setup_listener se w0 of
        (None, w1) \<Rightarrow> (RC_ERR, w1\<lparr>w_listen_fd := None\<rparr>)
      | (Some lfd, w1) \<Rightarrow>
          (case se_epoll_create se of
             None \<Rightarrow> (RC_ERR, (sys_close lfd w1)\<lparr>w_listen_fd := None\<rparr>)
           | Some k \<Rightarrow>
               (let (efd, w2) = sys_open k w1;
                    w3 = w2\<lparr>w_listen_fd := Some lfd, w_epoll_fd := Some efd\<rparr>
                in case epoll_set lfd None EPOLLIN w3 of
                     (RC_ERR, w4) \<Rightarrow>
                       (RC_ERR, (sys_close lfd (sys_close efd w4))\<lparr>w_epoll_fd := None, w_listen_fd := None\<rparr>)
                   | (RC_OK, w4) \<Rightarrow> (RC_OK, w4))))"

end
