(* ===== verification/Net_Session.thy ===== *)
theory Net_Session
  imports Networking
begin

text \<open>
  What the dispatch loop of \<open>handle_read\<close> does: \<open>session\<close> serves complete requests one after the
  other against the map, and the loop is shown to return and to produce a session. Sessions do
  not depend on how the bytes arrive in pieces.
\<close>

section \<open>Room for the data\<close>

text \<open>
  \<open>fits mp n\<close>: the data of the store, together with \<open>n\<close> further bytes of requests, stay below
  the size of the address space. Every request leaves a store that fits the bytes after it.
\<close>

definition fits :: "(bytes \<rightharpoonup> bytes) \<Rightarrow> nat \<Rightarrow> bool" where
  "fits mp n \<longleftrightarrow> (\<forall>k v. mp k = Some v \<longrightarrow> length k + n \<le> MEM_MAX \<and> length v + n \<le> MEM_MAX) \<and>
     card (dom mp) + n \<le> MEM_MAX \<and> n + 20 \<le> MEM_MAX"

lemma fits_mono: "fits mp n \<Longrightarrow> m \<le> n \<Longrightarrow> fits mp m"
  by (fastforce simp: fits_def)

lemma fits_in_memory:
  "fits mp n \<Longrightarrow> \<forall>a\<in>set args. length a \<le> n \<Longrightarrow> length args \<le> RESP_MAX_ARGC \<Longrightarrow> in_memory mp args"
  by (fastforce simp: fits_def in_memory_def)

lemma fits_update:
  assumes "fits mp (n + j)" "0 < n" "length k \<le> n" "length v + j \<le> MEM_MAX" "finite (dom mp)"
  shows "fits (mp(k \<mapsto> v)) j"
proof -
  have "card (dom (mp(k \<mapsto> v))) \<le> Suc (card (dom mp))"
    using assms(5) by (simp add: card_insert_if)
  with assms show ?thesis by (fastforce simp: fits_def)
qed

lemma fits_subset:
  assumes "fits mp n" "mp' \<subseteq>\<^sub>m mp" "finite (dom mp)"
  shows "fits mp' n"
proof -
  have "dom mp' \<subseteq> dom mp" using assms(2) by (rule map_le_implies_dom_le)
  then have "card (dom mp') \<le> card (dom mp)" using assms(3) by (simp add: card_mono)
  moreover have "mp k = Some v" if "mp' k = Some v" for k v
    using that assms(2) by (auto simp: map_le_def dom_def)
  ultimately show ?thesis using assms(1) by (fastforce simp: fits_def)
qed

lemma run_fits:
  assumes f: "fits mp (n + j)" and n: "0 < n" and fin: "finite (dom mp)"
    and c: "case c of Set k v \<Rightarrow> length k \<le> n \<and> length v \<le> n | Incr k d \<Rightarrow> length k \<le> n
      | Append k v \<Rightarrow> length k \<le> n \<and> length v \<le> n | Setnx k v \<Rightarrow> length k \<le> n \<and> length v \<le> n
      | Getset k v \<Rightarrow> length k \<le> n \<and> length v \<le> n | _ \<Rightarrow> True"
  shows "fits (snd (run order mp c)) j"
proof -
  have keep: "fits mp j" using f by (rule fits_mono) simp
  have lim: "n + j + 20 \<le> MEM_MAX" using f by (simp add: fits_def)
  have old: "length v + n + j \<le> MEM_MAX" if "mp k = Some v" for k v
    using f that by (fastforce simp: fits_def)
  note up = fits_update [OF f n _ _ fin]
  show ?thesis
  proof (cases c)
    case (Del ks)
    have "fits (mp |` (- set ks)) j" using keep _ fin by (rule fits_subset) (auto simp: map_le_def)
    with Del show ?thesis by simp
  next
    case (Incr k d)
    have "fits (mp(k \<mapsto> fmt_d64 i)) j" if "int64_range i" for i
      using c Incr lim fmt_d64_length [OF that] by (intro up) auto
    with Incr keep show ?thesis by (auto split: option.splits)
  next
    case (Append k v)
    have "length (case mp k of None \<Rightarrow> v | Some old \<Rightarrow> old @ v) + j \<le> MEM_MAX"
      using c Append lim old [of k] by (auto split: option.splits)
    with c Append up [of k] show ?thesis by (auto simp: Let_def)
  next
    case Flushdb
    with lim show ?thesis by (simp add: fits_def)
  qed (use c keep lim up in auto)
qed


lemma decode_named_args:
  assumes "decode_named name as = Some (Inr c)" "\<forall>a\<in>set as. length a \<le> n"
  shows "case c of Set k v \<Rightarrow> length k \<le> n \<and> length v \<le> n | Incr k d \<Rightarrow> length k \<le> n
      | Append k v \<Rightarrow> length k \<le> n \<and> length v \<le> n | Setnx k v \<Rightarrow> length k \<le> n \<and> length v \<le> n
      | Getset k v \<Rightarrow> length k \<le> n \<and> length v \<le> n | _ \<Rightarrow> True"
  using assms unfolding decode_named_def wrong_args_def
  by (elim if_Some_elim) (auto split: list.splits)

lemma decode_args:
  assumes "decode args = Inr c" "\<forall>a\<in>set args. length a \<le> n"
  shows "case c of Set k v \<Rightarrow> length k \<le> n \<and> length v \<le> n | Incr k d \<Rightarrow> length k \<le> n
      | Append k v \<Rightarrow> length k \<le> n \<and> length v \<le> n | Setnx k v \<Rightarrow> length k \<le> n \<and> length v \<le> n
      | Getset k v \<Rightarrow> length k \<le> n \<and> length v \<le> n | _ \<Rightarrow> True"
proof (cases args)
  case (Cons name as)
  with assms have "decode_named (map to_upper name) as = Some (Inr c)" "\<forall>a\<in>set as. length a \<le> n"
    by (auto simp: decode_def split: option.splits)
  then show ?thesis by (rule decode_named_args)
qed (use assms in \<open>simp add: decode_def\<close>)

lemma exec_fits:
  assumes "fits mp (n + j)" "0 < n" "finite (dom mp)" "\<forall>a\<in>set args. length a \<le> n"
  shows "fits (snd (exec order mp args)) j"
proof (cases "decode args")
  case (Inl e)
  then show ?thesis using fits_mono [OF assms(1), of j] by (simp add: exec_def)
next
  case (Inr c)
  then show ?thesis
    using run_fits [OF assms(1-3) decode_args [OF Inr assms(4)]] by (simp add: exec_def)
qed

section \<open>Sessions\<close>

text \<open>
  \<open>session oom mp bs rs mp' rest\<close>: serving the complete requests at the head of \<open>bs\<close>, from the
  map \<open>mp\<close>, gives the replies \<open>rs\<close>, leaves the map \<open>mp'\<close> and the bytes \<open>rest\<close>. With \<open>oom\<close> a request
  may also be refused with the out-of-memory error, which leaves the map as it was.
\<close>

inductive session ::
  "bool \<Rightarrow> (bytes \<rightharpoonup> bytes) \<Rightarrow> bytes \<Rightarrow> reply list \<Rightarrow> (bytes \<rightharpoonup> bytes) \<Rightarrow> bytes \<Rightarrow> bool"
  for oom :: bool where
  s_done: "session oom mp bs [] mp bs"
| s_request: "ref_request bs = RESP_OK (args, n) \<Longrightarrow> set order = dom mp \<Longrightarrow> distinct order \<Longrightarrow>
    exec order mp args = (r, mp1) \<Longrightarrow> session oom mp1 (drop n bs) rs mp2 rest \<Longrightarrow>
    session oom mp bs (r # rs) mp2 rest"
| s_refused: "ref_request bs = RESP_OK (args, n) \<Longrightarrow> oom \<Longrightarrow>
    session oom mp (drop n bs) rs mp2 rest \<Longrightarrow> session oom mp bs (out_of_memory # rs) mp2 rest"

inductive_cases session_ConsE: "session oom mp bs (r # rs) mp' rest"
inductive_cases session_NilE: "session oom mp bs [] mp' rest"

lemma session_trans:
  "session oom mp bs rs mp1 rest1 \<Longrightarrow> session oom mp1 rest1 rs' mp2 rest2 \<Longrightarrow>
   session oom mp bs (rs @ rs') mp2 rest2"
  by (induction rule: session.induct) (auto intro: session.intros)

text \<open>More bytes behind do not change what was served.\<close>

lemma ref_request_more:
  assumes "ref_request bs = RESP_OK (args, n)"
  shows "ref_request (bs @ later) = RESP_OK (args, n)" "drop n (bs @ later) = drop n bs @ later"
  using ref_request_final [of bs later] ref_request_bounds [of bs args n] assms by auto

lemma session_more:
  "session oom mp bs rs mp' rest \<Longrightarrow> session oom mp (bs @ later) rs mp' (rest @ later)"
proof (induction rule: session.induct)
  case (s_request bs args n order mp r mp1 rs mp2 rest)
  note m = ref_request_more [OF s_request.hyps(1), of later]
  show ?case
    by (rule session.s_request [OF m(1) s_request.hyps(2-4)]) (simp only: m(2) s_request.IH)
next
  case (s_refused bs args n mp rs mp2 rest)
  note m = ref_request_more [OF s_refused.hyps(1), of later]
  show ?case
    by (rule session.s_refused [OF m(1) s_refused.hyps(2)]) (simp only: m(2) s_refused.IH)
qed (rule session.s_done)

lemma session_chunks:
  assumes "session oom mp bs rs mp1 rest1" "session oom mp1 (rest1 @ later) rs' mp2 rest2"
  shows "session oom mp (bs @ later) (rs @ rs') mp2 rest2"
  using session_trans [OF session_more [OF assms(1)] assms(2)] .

lemma session_suffix: "session oom mp bs rs mp' rest \<Longrightarrow> length rest \<le> length bs"
  by (induction rule: session.induct) auto

lemma session_oom_mono: "session oom mp bs rs mp' rest \<Longrightarrow> (oom \<Longrightarrow> oom') \<Longrightarrow> session oom' mp bs rs mp' rest"
  by (induction rule: session.induct) (auto intro: session.intros)

text \<open>Pipelined requests get one reply each, in their order.\<close>

inductive replies :: "(bytes \<rightharpoonup> bytes) \<Rightarrow> bytes list list \<Rightarrow> reply list \<Rightarrow> (bytes \<rightharpoonup> bytes) \<Rightarrow> bool" where
  r_none: "replies mp [] [] mp"
| r_one: "set order = dom mp \<Longrightarrow> distinct order \<Longrightarrow> exec order mp args = (r, mp1) \<Longrightarrow>
    replies mp1 reqs rs mp2 \<Longrightarrow> replies mp (args # reqs) (r # rs) mp2"

lemma replies_length: "replies mp reqs rs mp' \<Longrightarrow> length rs = length reqs"
  by (induction rule: replies.induct) auto

lemma session_pipeline:
  assumes "session False mp (concat (map encode_request reqs) @ part) rs mp' rest"
    "\<forall>as\<in>set reqs. request_ok as" "\<nexists>x. ref_request part = RESP_OK x" "\<nexists>x. ref_request rest = RESP_OK x"
  shows "replies mp reqs rs mp' \<and> rest = part"
  using assms
proof (induction reqs arbitrary: mp rs)
  case Nil
  from Nil(1,3) show ?case by (auto elim: session.cases intro: replies.r_none)
next
  case (Cons args reqs)
  let ?bs = "concat (map encode_request (args # reqs)) @ part"
  have enc: "ref_request ?bs = RESP_OK (args, length (encode_request args))"
    using ref_request_encode [of args "concat (map encode_request reqs) @ part"] Cons.prems(2) by simp
  from Cons.prems(1) show ?case
  proof (cases rule: session.cases)
    case s_done
    with enc Cons.prems(4) show ?thesis by blast
  next
    case (s_request args' n order r mp1 rs1)
    with enc have "args' = args" "n = length (encode_request args)" by auto
    with s_request Cons.IH [of mp1 rs1] Cons.prems(2-4) show ?thesis
      by (auto intro: replies.r_one)
  qed simp
qed

text \<open>What was served before all of it was, and the replies that fit in the output buffer.\<close>

lemma session_prefix_pipeline:
  assumes "session False mp (concat (map encode_request reqs) @ part) rs mp' rest"
    "\<forall>as\<in>set reqs. request_ok as" "\<nexists>x. ref_request part = RESP_OK x"
  shows "\<exists>k. replies mp (take k reqs) rs mp'"
  using assms
proof (induction reqs arbitrary: mp rs)
  case Nil
  from Nil(1,3) show ?case by (auto elim: session.cases intro: replies.r_none)
next
  case (Cons args reqs)
  let ?bs = "concat (map encode_request (args # reqs)) @ part"
  have enc: "ref_request ?bs = RESP_OK (args, length (encode_request args))"
    using ref_request_encode [of args "concat (map encode_request reqs) @ part"] Cons.prems(2) by simp
  from Cons.prems(1) show ?case
  proof (cases rule: session.cases)
    case s_done
    then show ?thesis by (intro exI [of _ 0]) (simp add: replies.r_none)
  next
    case (s_request args' n order r mp1 rs1)
    with enc have "args' = args" "n = length (encode_request args)" by auto
    with s_request Cons.IH [of mp1 rs1] Cons.prems(2,3) obtain k where "replies mp1 (take k reqs) rs1 mp'" by auto
    with s_request \<open>args' = args\<close> show ?thesis
      by (intro exI [of _ "Suc k"]) (auto intro: replies.r_one)
  qed simp
qed

definition replies_fit :: "(bytes \<rightharpoonup> bytes) \<Rightarrow> bytes list list \<Rightarrow> nat \<Rightarrow> bool" where
  "replies_fit mp reqs n \<longleftrightarrow>
     (\<forall>k rs mp'. replies mp (take k reqs) rs mp' \<longrightarrow> n + length (concat (map encode_reply rs)) \<le> BUF_LIMIT)"

section \<open>The dispatch loop\<close>

lemma input_bytes_contents:
  assumes "bb_inv b"
  shows "take (unat (bytebuf_len b)) (input_bytes b) = bb_contents b"
    "unat (bytebuf_len b) \<le> length (input_bytes b)" "unat (bytebuf_len b) \<le> OBJ_MAX"
proof -
  note n = bb_inv_nat [OF assms]
  show "unat (bytebuf_len b) \<le> OBJ_MAX" using n by (simp add: BUF_LIMIT_def OBJ_MAX_def)
  show "take (unat (bytebuf_len b)) (input_bytes b) = bb_contents b"
    "unat (bytebuf_len b) \<le> length (input_bytes b)"
    using assms n by (auto simp: input_bytes_def bytebuf_data_def bb_contents_def bb_inv_def)
qed

text \<open>One request: what the parser hands to the dispatcher, and the buffer after it.\<close>

lemma request_step:
  assumes inv: "bb_inv b" and ok: "resp_parse_request (input_bytes b) (unat (bytebuf_len b)) = RESP_OK req"
  defines "args \<equiv> map (slice_bytes (input_bytes b)) (rq_args req)"
  defines "b' \<equiv> bytebuf_consume b (word_of_nat (rq_consumed req))"
  shows "ref_request (bb_contents b) = RESP_OK (args, rq_consumed req)"
    "\<forall>a\<in>set args. length a \<le> rq_consumed req" "length args \<le> RESP_MAX_ARGC"
    "0 < rq_consumed req" "rq_consumed req \<le> length (bb_contents b)"
    "bb_inv b'" "bb_contents b' = drop (rq_consumed req) (bb_contents b)" "bb_ptr b' = bb_ptr b"
proof -
  note I = input_bytes_contents [OF inv]
  note S = resp_parse_request_shape [OF ok I(2,3)]
  show "ref_request (bb_contents b) = RESP_OK (args, rq_consumed req)"
    using S(6) I(1) by (simp add: args_def)
  show "\<forall>a\<in>set args. length a \<le> rq_consumed req"
    using S(1) by (fastforce simp: args_def slice_bytes_def slice_within_def)
  show "length args \<le> RESP_MAX_ARGC" "0 < rq_consumed req" using S by (simp_all add: args_def)
  show le: "rq_consumed req \<le> length (bb_contents b)"
    using S(5) by (simp add: length_bb_contents [OF inv])
  have "rq_consumed req \<le> SIZE_MAX"
    using le bb_contents_limit [OF inv] by (intro BUF_LIMIT_SIZE_MAX) simp
  with bytebuf_consume_props [OF inv, of "word_of_nat (rq_consumed req)"]
  show "bb_inv b'" "bb_contents b' = drop (rq_consumed req) (bb_contents b)" "bb_ptr b' = bb_ptr b"
    by (simp_all add: b'_def unat_word_of_nat_size)
qed

lemma parse_status_ref:
  assumes "bb_inv b"
  shows "resp_parse_request (input_bytes b) (unat (bytebuf_len b)) = RESP_NEED_MORE \<longleftrightarrow>
      ref_request (bb_contents b) = RESP_NEED_MORE"
    "resp_parse_request (input_bytes b) (unat (bytebuf_len b)) = RESP_PROTOCOL_ERR \<longleftrightarrow>
      ref_request (bb_contents b) = RESP_PROTOCOL_ERR"
proof -
  note I = input_bytes_contents [OF assms]
  show "resp_parse_request (input_bytes b) (unat (bytebuf_len b)) = RESP_NEED_MORE \<longleftrightarrow>
      ref_request (bb_contents b) = RESP_NEED_MORE"
    "resp_parse_request (input_bytes b) (unat (bytebuf_len b)) = RESP_PROTOCOL_ERR \<longleftrightarrow>
      ref_request (bb_contents b) = RESP_PROTOCOL_ERR"
    using resp_parse_request_ref [OF I(2,3)] I(1)
    by (cases "resp_parse_request (input_bytes b) (unat (bytebuf_len b))"; force)+
qed

lemma ht_dom_finite: "ht_inv ht \<Longrightarrow> finite (dom (ht_abs ht))"
  using ht_keys_dom [of ht] by (metis List.finite_set)

definition protocol_error :: reply where
  "protocol_error = RError (cstr ''ERR Protocol error'')"

text \<open>
  \<open>errors_sent oom n es p\<close>: the bytes \<open>p\<close> are the errors \<open>es\<close> in their order, each possibly cut; none is cut
  when memory does not run out and they fit behind the \<open>n\<close> bytes before them.
\<close>

definition errors_sent :: "bool \<Rightarrow> nat \<Rightarrow> reply list \<Rightarrow> bytes \<Rightarrow> bool" where
  "errors_sent oom n es p \<longleftrightarrow>
     (\<exists>ps. p = concat ps \<and> list_all2 (\<lambda>e q. \<exists>s. encode_reply e = q @ s) es ps) \<and>
     (\<not> oom \<longrightarrow> n + length (concat (map encode_reply es)) \<le> BUF_LIMIT \<longrightarrow> p = concat (map encode_reply es))"

text \<open>The error that answers an input which is no request.\<close>

definition syntax_error :: "bytes \<Rightarrow> reply list" where
  "syntax_error bs = (if ref_request bs = RESP_PROTOCOL_ERR then [protocol_error] else [])"

lemma errors_sent_none [simp]: "errors_sent oom n [] p \<longleftrightarrow> p = []"
  by (auto simp: errors_sent_def)

lemma errors_sent_mono: "errors_sent oom n es p \<Longrightarrow> (oom \<Longrightarrow> oom') \<Longrightarrow> n \<le> n' \<Longrightarrow> errors_sent oom' n' es p"
  by (auto simp: errors_sent_def)

lemma errors_sent_length: "errors_sent oom n es p \<Longrightarrow> length p \<le> length (concat (map encode_reply es))"
proof -
  have "list_all2 (\<lambda>e q. \<exists>s. encode_reply e = q @ s) es ps \<Longrightarrow> length (concat ps) \<le> length (concat (map encode_reply es))" for ps
    by (induction rule: list_all2_induct) auto
  then show "errors_sent oom n es p \<Longrightarrow> length p \<le> length (concat (map encode_reply es))" by (auto simp: errors_sent_def)
qed

text \<open>A further error is written after the errors \<open>es\<close>.\<close>

lemma errors_sent_written:
  assumes es: "errors_sent (\<not> mem_plenty m) n es p" and w: "written c e rc c'" "mem_plenty m \<longrightarrow> mem_plenty (c_mem c)"
    and c: "length (ctx_reply c) = n + length p"
  shows "\<exists>q. ctx_reply c' = ctx_reply c @ q \<and> errors_sent (\<not> mem_plenty m) n (es @ [e]) (p @ q)"
proof -
  obtain q s where q: "encode_reply e = q @ s" "ctx_reply c' = ctx_reply c @ q" "rc = RC_OK \<longrightarrow> s = []"
    using w(1) by (auto simp: written_def)
  obtain ps where ps: "p = concat ps" "list_all2 (\<lambda>e q. \<exists>s. encode_reply e = q @ s) es ps" using es by (auto simp: errors_sent_def)
  have "p @ q = concat (ps @ [q])" "list_all2 (\<lambda>e q. \<exists>s. encode_reply e = q @ s) (es @ [e]) (ps @ [q])"
    using ps q(1) by (auto intro: list_all2_appendI)
  moreover have "p @ q = concat (map encode_reply (es @ [e]))"
    if "mem_plenty m" and fit: "n + length (concat (map encode_reply (es @ [e]))) \<le> BUF_LIMIT"
  proof -
    have "length (ctx_reply c) + length (encode_reply e) \<le> BUF_LIMIT" using errors_sent_length [OF es] fit c by simp
    then have "s = []" using w that(1) q(3) by (simp add: written_def)
    moreover have "p = concat (map encode_reply es)" using es that by (simp add: errors_sent_def)
    ultimately show ?thesis using q(1) by simp
  qed
  ultimately have "errors_sent (\<not> mem_plenty m) n (es @ [e]) (p @ q)" unfolding errors_sent_def by blast
  with q(2) show ?thesis by blast
qed

text \<open>
  What the loop leaves: in every case the invariants, room for the bytes still to come and no
  block lost; when it did not fail, the replies of a session, and on a protocol error a prefix of
  that error. With memory it fails only when the replies of a session do not fit in the buffer;
  what a failing loop did to the store is that of a session too.
\<close>

definition overfull :: "command_ctx \<Rightarrow> bytes \<Rightarrow> bool" where
  "overfull c bs \<longleftrightarrow> (\<exists>rs mp rest. session False (ht_abs (c_store c)) bs rs mp rest \<and>
     BUF_LIMIT < length (ctx_reply c) + length (concat (map encode_reply rs)))"

definition dispatched ::
  "nat \<Rightarrow> command_ctx \<Rightarrow> bytebuf \<Rightarrow> dispatch_end \<Rightarrow> command_ctx \<Rightarrow> bytebuf \<Rightarrow> bool" where
  "dispatched j c b e c' b' \<longleftrightarrow>
     ctx_inv c' \<and> bb_inv b' \<and> bb_ptr b' = bb_ptr b \<and>
     fits (ht_abs (c_store c')) (if e = De_Fail then j else length (bb_contents b') + j) \<and>
     length (bb_contents b') \<le> length (bb_contents b) \<and>
     (mem_plenty (c_mem c) \<longrightarrow> mem_plenty (c_mem c')) \<and>
     (\<forall>xs F. owns (c_mem c) (ctx_blocks c @ xs) F \<longrightarrow> owns (c_mem c') (ctx_blocks c' @ xs) F) \<and>
     (e \<noteq> De_Fail \<longrightarrow> (\<exists>rs p.
        session (\<not> mem_plenty (c_mem c)) (ht_abs (c_store c)) (bb_contents b) rs
          (ht_abs (c_store c')) (bb_contents b') \<and>
        ctx_reply c' = ctx_reply c @ concat (map encode_reply rs) @ p \<and>
        errors_sent (\<not> mem_plenty (c_mem c)) (length (ctx_reply c @ concat (map encode_reply rs)))
          (syntax_error (bb_contents b')) p \<and>
        ref_request (bb_contents b') = (if e = De_Wait then RESP_NEED_MORE else RESP_PROTOCOL_ERR))) \<and>
     (e = De_Fail \<longrightarrow> mem_plenty (c_mem c) \<longrightarrow> overfull c (bb_contents b)) \<and>
     (e = De_Fail \<longrightarrow> (\<exists>rs rest.
        session (\<not> mem_plenty (c_mem c)) (ht_abs (c_store c)) (bb_contents b) rs (ht_abs (c_store c')) rest))"

lemma dispatched_stop:
  assumes "ctx_inv c" "bb_inv b" "fits (ht_abs (c_store c)) (length (bb_contents b) + j)"
    "ref_request (bb_contents b) = RESP_NEED_MORE"
  shows "dispatched j c b De_Wait c b"
  using assms by (auto simp: dispatched_def syntax_error_def intro: session.s_done)

lemma dispatched_protocol:
  assumes "ctx_inv c" "bb_inv b" "fits (ht_abs (c_store c)) (length (bb_contents b) + j)"
    "ref_request (bb_contents b) = RESP_PROTOCOL_ERR"
  shows "dispatched j c b De_Protocol (snd (reply_error (cstr ''ERR Protocol error'') c)) b"
proof -
  obtain rc c' where r: "reply_error (cstr ''ERR Protocol error'') c = (rc, c')" by fastforce
  have "emits c protocol_error (reply_error (cstr ''ERR Protocol error'') c)"
    unfolding protocol_error_def using assms(1) by (rule emits_text) simp_all
  then have e: "written c protocol_error rc c'" "c_store c' = c_store c" "ctx_inv c'"
    "\<And>xs F. owns (c_mem c) (ctx_blocks c @ xs) F \<Longrightarrow> owns (c_mem c') (ctx_blocks c' @ xs) F"
    by (auto simp: emits_def r)
  from errors_sent_written [where m = "c_mem c" and es = "[]" and p = "[]", OF _ e(1)]
  obtain p where "ctx_reply c' = ctx_reply c @ p"
    "errors_sent (\<not> mem_plenty (c_mem c)) (length (ctx_reply c)) (syntax_error (bb_contents b)) p"
    by (auto simp: syntax_error_def assms(4))
  moreover have "mem_plenty (c_mem c) \<longrightarrow> mem_plenty (c_mem c')" using e(1) by (simp add: written_def)
  moreover have "session (\<not> mem_plenty (c_mem c)) (ht_abs (c_store c)) (bb_contents b) []
      (ht_abs (c_store c')) (bb_contents b)"
    by (simp add: e(2) session.s_done)
  ultimately show ?thesis
    using assms e(2-4) unfolding dispatched_def r snd_conv
    by (intro conjI impI exI [of _ "[]"] exI [of _ p]) simp_all
qed

lemma answers_dispatch:
  assumes inv: "ctx_inv c" and ans: "answers [] c (exec (ht_keys (c_store c)) (ht_abs (c_store c)) args) (rc, c1)"
  obtains r where "written c r rc c1" "ctx_inv c1"
    "\<And>xs F. owns (c_mem c) (ctx_blocks c @ xs) F \<Longrightarrow> owns (c_mem c1) (ctx_blocks c1 @ xs) F"
    "(exec (ht_keys (c_store c)) (ht_abs (c_store c)) args = (r, ht_abs (c_store c1))) \<or>
     (r = out_of_memory \<and> ht_abs (c_store c1) = ht_abs (c_store c) \<and> \<not> mem_plenty (c_mem c))"
  using ans unfolding answers_def by (cases "exec (ht_keys (c_store c)) (ht_abs (c_store c)) args") auto

text \<open>
  \<open>executed j c b rc c1 b1 r\<close>: the first request of the input was executed with the reply \<open>r\<close>; a
  session of what is left extends to one of the whole input.
\<close>

definition executed ::
  "nat \<Rightarrow> command_ctx \<Rightarrow> bytebuf \<Rightarrow> rc \<Rightarrow> command_ctx \<Rightarrow> bytebuf \<Rightarrow> reply \<Rightarrow> bool" where
  "executed j c b rc c1 b1 r \<longleftrightarrow>
     written c r rc c1 \<and> ctx_inv c1 \<and> bb_inv b1 \<and> bb_ptr b1 = bb_ptr b \<and>
     length (bb_contents b1) < length (bb_contents b) \<and>
     fits (ht_abs (c_store c1)) (length (bb_contents b1) + j) \<and>
     (mem_plenty (c_mem c) \<longrightarrow> mem_plenty (c_mem c1)) \<and>
     (\<forall>xs F. owns (c_mem c) (ctx_blocks c @ xs) F \<longrightarrow> owns (c_mem c1) (ctx_blocks c1 @ xs) F) \<and>
     (\<forall>rs mp rest. session (\<not> mem_plenty (c_mem c1)) (ht_abs (c_store c1)) (bb_contents b1) rs mp rest \<longrightarrow>
        session (\<not> mem_plenty (c_mem c)) (ht_abs (c_store c)) (bb_contents b) (r # rs) mp rest)"

lemma request_executed:
  assumes inv: "ctx_inv c" "bb_inv b" and fit: "fits (ht_abs (c_store c)) (length (bb_contents b) + j)"
    and ok: "resp_parse_request (input_bytes b) (unat (bytebuf_len b)) = RESP_OK req"
    and ex: "command_execute c (map (slice_bytes (input_bytes b)) (rq_args req)) = (rc, c1)"
  obtains r where "executed j c b rc c1 (bytebuf_consume b (word_of_nat (rq_consumed req))) r"
proof -
  define args where "args = map (slice_bytes (input_bytes b)) (rq_args req)"
  define b1 where "b1 = bytebuf_consume b (word_of_nat (rq_consumed req))"
  note R = request_step [OF inv(2) ok, folded args_def b1_def]
  define n where "n = rq_consumed req"
  have len: "length (bb_contents b1) = length (bb_contents b) - n" using R(7) by (simp add: n_def)
  have fit': "fits (ht_abs (c_store c)) (n + (length (bb_contents b1) + j))"
    using fit len R(5) by (simp add: n_def)
  have hinv: "ht_inv (c_store c)" using inv by (simp add: ctx_inv_def)
  have mem: "in_memory (ht_abs (c_store c)) args"
    using R(2,3,5) by (intro fits_in_memory [OF fit]) (auto intro: order_trans)
  let ?x = "exec (ht_keys (c_store c)) (ht_abs (c_store c)) args"
  obtain r where r: "written c r rc c1" "ctx_inv c1"
    "\<And>xs F. owns (c_mem c) (ctx_blocks c @ xs) F \<Longrightarrow> owns (c_mem c1) (ctx_blocks c1 @ xs) F"
    "(?x = (r, ht_abs (c_store c1))) \<or>
     (r = out_of_memory \<and> ht_abs (c_store c1) = ht_abs (c_store c) \<and> \<not> mem_plenty (c_mem c))"
    using answers_dispatch [OF inv(1)] command_execute_answers [OF inv(1) mem] ex [folded args_def] by metis
  have "fits (snd ?x) (length (bb_contents b1) + j)"
    using R(2,4) by (intro exec_fits [OF fit' _ ht_dom_finite [OF hinv]]) (auto simp: n_def)
  with r(4) have fit1: "fits (ht_abs (c_store c1)) (length (bb_contents b1) + j)"
    using fits_mono [OF fit', of "length (bb_contents b1) + j"] by auto
  have plenty: "mem_plenty (c_mem c) \<longrightarrow> mem_plenty (c_mem c1)" using r(1) by (simp add: written_def)
  have "session (\<not> mem_plenty (c_mem c)) (ht_abs (c_store c)) (bb_contents b) (r # rs) mp rest"
    if "session (\<not> mem_plenty (c_mem c1)) (ht_abs (c_store c1)) (bb_contents b1) rs mp rest" for rs mp rest
  proof -
    have s: "session (\<not> mem_plenty (c_mem c)) (ht_abs (c_store c1)) (drop n (bb_contents b)) rs mp rest"
      using session_oom_mono [OF that] plenty R(7) by (auto simp: n_def)
    from r(4) show ?thesis
    proof (elim disjE conjE)
      assume "?x = (r, ht_abs (c_store c1))"
      with R(1) s show ?thesis
        by (intro s_request [of _ args n "ht_keys (c_store c)"])
           (simp_all add: n_def ht_keys_dom [OF hinv] kv.keys_distinct [OF hinv])
    next
      assume "r = out_of_memory" "ht_abs (c_store c1) = ht_abs (c_store c)" "\<not> mem_plenty (c_mem c)"
      with R(1) s show ?thesis by (auto simp: n_def intro: s_refused)
    qed
  qed
  with r(1-3) R(4,5,6,8) fit1 plenty len have "executed j c b rc c1 b1 r"
    by (simp add: executed_def n_def)
  then show ?thesis using that by (simp add: b1_def)
qed

text \<open>The reply could not be written, or it was and the loop goes on.\<close>

lemma executed_fail:
  assumes "bb_inv b" "executed j c b RC_ERR c1 b1 r"
  shows "dispatched j c b De_Fail c1 b"
proof -
  note X = assms(2) [unfolded executed_def]
  have one: "session (\<not> mem_plenty (c_mem c)) (ht_abs (c_store c)) (bb_contents b) [r] (ht_abs (c_store c1)) (bb_contents b1)"
    using X s_done by blast
  have "overfull c (bb_contents b)" if "mem_plenty (c_mem c)"
    using one X that unfolding overfull_def written_def by (intro exI [of _ "[r]"]) (auto simp: not_le [symmetric])
  with assms(1) X one fits_mono [of "ht_abs (c_store c1)" "length (bb_contents b1) + j" j] show ?thesis
    by (auto simp: dispatched_def)
qed

lemma executed_next:
  assumes ex: "executed j c b RC_OK c1 b1 r" and d: "dispatched j c1 b1 e c' b'"
  shows "dispatched j c b e c' b'"
proof -
  note X = ex [unfolded executed_def]
  have step: "session (\<not> mem_plenty (c_mem c)) (ht_abs (c_store c)) (bb_contents b) (r # rs) mp rest"
    if "session (\<not> mem_plenty (c_mem c1)) (ht_abs (c_store c1)) (bb_contents b1) rs mp rest" for rs mp rest
    using X that by blast
  have reply1: "ctx_reply c1 = ctx_reply c @ encode_reply r" using X by (auto simp: written_def)
  have "\<exists>rs p. session (\<not> mem_plenty (c_mem c)) (ht_abs (c_store c)) (bb_contents b) rs
        (ht_abs (c_store c')) (bb_contents b') \<and>
      ctx_reply c' = ctx_reply c @ concat (map encode_reply rs) @ p \<and>
      errors_sent (\<not> mem_plenty (c_mem c)) (length (ctx_reply c @ concat (map encode_reply rs)))
        (syntax_error (bb_contents b')) p \<and>
      ref_request (bb_contents b') = (if e = De_Wait then RESP_NEED_MORE else RESP_PROTOCOL_ERR)"
    if "e \<noteq> De_Fail"
  proof -
    from d that obtain rs p where *: "session (\<not> mem_plenty (c_mem c1)) (ht_abs (c_store c1)) (bb_contents b1) rs
        (ht_abs (c_store c')) (bb_contents b')"
      "ctx_reply c' = ctx_reply c1 @ concat (map encode_reply rs) @ p"
      "errors_sent (\<not> mem_plenty (c_mem c1)) (length (ctx_reply c1 @ concat (map encode_reply rs)))
        (syntax_error (bb_contents b')) p"
      "ref_request (bb_contents b') = (if e = De_Wait then RESP_NEED_MORE else RESP_PROTOCOL_ERR)"
      unfolding dispatched_def by blast
    have "errors_sent (\<not> mem_plenty (c_mem c)) (length (ctx_reply c @ concat (map encode_reply (r # rs))))
        (syntax_error (bb_contents b')) p"
      using X by (intro errors_sent_mono [OF *(3)]) (auto simp: reply1)
    with step [OF *(1)] *(2,4) reply1 show ?thesis by (intro exI [of _ "r # rs"] exI [of _ p]) simp
  qed
  moreover have "overfull c (bb_contents b)" if "e = De_Fail" "mem_plenty (c_mem c)"
  proof -
    have "overfull c1 (bb_contents b1)" using d that X by (simp add: dispatched_def)
    then obtain rs mp rest where "session False (ht_abs (c_store c1)) (bb_contents b1) rs mp rest"
      "BUF_LIMIT < length (ctx_reply c1) + length (concat (map encode_reply rs))" by (auto simp: overfull_def)
    with step [of rs mp rest] that(2) X reply1 show ?thesis
      unfolding overfull_def by (intro exI [of _ "r # rs"] exI [of _ mp] exI [of _ rest]) simp
  qed
  moreover have "\<exists>rs rest. session (\<not> mem_plenty (c_mem c)) (ht_abs (c_store c)) (bb_contents b) rs
      (ht_abs (c_store c')) rest" if "e = De_Fail"
    using d that step unfolding dispatched_def by blast
  ultimately show ?thesis
    using d X unfolding dispatched_def by simp
qed

text \<open>The loop returns, and leaves what \<open>dispatched\<close> says.\<close>

lemma dispatch_frames_returns:
  assumes "ctx_inv c" "bb_inv b" "fits (ht_abs (c_store c)) (length (bb_contents b) + j)"
  shows "\<exists>e c' b'. dispatch_frames c b = Some (e, c', b') \<and> dispatched j c b e c' b'"
  using assms
proof (induction "length (bb_contents b)" arbitrary: c b rule: less_induct)
  case less
  show ?case
  proof (cases "resp_parse_request (input_bytes b) (unat (bytebuf_len b))")
    case RESP_NEED_MORE
    then show ?thesis
      using dispatched_stop [OF less.prems] parse_status_ref(1) [OF less.prems(2)]
      by (subst dispatch_frames.simps) auto
  next
    case RESP_PROTOCOL_ERR
    then show ?thesis
      using dispatched_protocol [OF less.prems] parse_status_ref(2) [OF less.prems(2)]
      by (subst dispatch_frames.simps) auto
  next
    case (RESP_OK req)
    let ?args = "map (slice_bytes (input_bytes b)) (rq_args req)"
    let ?b1 = "bytebuf_consume b (word_of_nat (rq_consumed req))"
    obtain rc c1 where ex: "command_execute c ?args = (rc, c1)" by fastforce
    obtain r where x: "executed j c b rc c1 ?b1 r" by (rule request_executed [OF less.prems RESP_OK ex])
    show ?thesis
    proof (cases rc)
      case RC_ERR
      with ex RESP_OK executed_fail [OF less.prems(2)] x show ?thesis by (subst dispatch_frames.simps) auto
    next
      case RC_OK
      have "length (bb_contents ?b1) < length (bb_contents b)" "ctx_inv c1" "bb_inv ?b1"
        "fits (ht_abs (c_store c1)) (length (bb_contents ?b1) + j)" using x by (simp_all add: executed_def)
      from less.hyps [OF this] obtain e c' b' where
        "dispatch_frames c1 ?b1 = Some (e, c', b')" "dispatched j c1 ?b1 e c' b'" by blast
      with ex RESP_OK RC_OK executed_next x show ?thesis by (subst dispatch_frames.simps) auto
    qed
  qed
qed

text \<open>Pipelined requests, with memory: all of them are served unless their replies do not fit.\<close>

lemma dispatch_frames_serves:
  assumes inv: "ctx_inv c" "bb_inv b" "fits (ht_abs (c_store c)) (length (bb_contents b) + j)" "mem_plenty (c_mem c)"
    and pipe: "bb_contents b = concat (map encode_request reqs) @ part" "\<forall>as\<in>set reqs. request_ok as"
      "ref_request part = RESP_NEED_MORE"
  shows "\<exists>e c' b'. dispatch_frames c b = Some (e, c', b') \<and> dispatched j c b e c' b' \<and>
    (e = De_Fail \<longrightarrow> \<not> replies_fit (ht_abs (c_store c)) reqs (length (ctx_reply c))) \<and>
    (e \<noteq> De_Fail \<longrightarrow> e = De_Wait \<and> bb_contents b' = part \<and>
       (\<exists>rs. replies (ht_abs (c_store c)) reqs rs (ht_abs (c_store c')) \<and> length rs = length reqs \<and>
             ctx_reply c' = ctx_reply c @ concat (map encode_reply rs)))"
proof -
  from dispatch_frames_returns [OF inv(1-3)] obtain e c' b' where
    d: "dispatch_frames c b = Some (e, c', b')" "dispatched j c b e c' b'" by auto
  have part: "\<nexists>x. ref_request part = RESP_OK x" using pipe(3) by simp
  show ?thesis
  proof (cases "e = De_Fail")
    case True
    then have "overfull c (concat (map encode_request reqs) @ part)"
      using d(2) inv(4) pipe(1) by (simp add: dispatched_def)
    then have "\<not> replies_fit (ht_abs (c_store c)) reqs (length (ctx_reply c))"
      using session_prefix_pipeline [OF _ pipe(2) part] by (fastforce simp: overfull_def replies_fit_def not_le)
    with d True show ?thesis by auto
  next
    case False
    then obtain rs p where s: "session False (ht_abs (c_store c)) (bb_contents b) rs (ht_abs (c_store c')) (bb_contents b')"
      "ctx_reply c' = ctx_reply c @ concat (map encode_reply rs) @ p"
      "ref_request (bb_contents b') = (if e = De_Wait then RESP_NEED_MORE else RESP_PROTOCOL_ERR)"
      "errors_sent False (length (ctx_reply c @ concat (map encode_reply rs))) (syntax_error (bb_contents b')) p"
      using d(2) inv(4) by (auto simp: dispatched_def)
    have "\<nexists>x. ref_request (bb_contents b') = RESP_OK x" using s(3) by (auto split: if_splits)
    with session_pipeline [OF s(1) [unfolded pipe(1)] pipe(2) part]
    have R: "replies (ht_abs (c_store c)) reqs rs (ht_abs (c_store c'))" "bb_contents b' = part" by auto
    moreover have "e = De_Wait" using s(3) R(2) pipe(3) by (auto split: if_splits)
    moreover have "p = []" using s(4) R(2) pipe(3) by (simp add: syntax_error_def)
    ultimately show ?thesis using d s(2) replies_length [OF R(1)] by auto
  qed
qed

end
