(* ===== verification/Net_Handlers.thy ===== *)
theory Net_Handlers
  imports Net_Session
begin

text \<open>
  What \<open>handle_read\<close> and \<open>handle_write\<close> do to one connection and to the rest of the server: the
  bytes they move, the interest they leave armed, and that they lose or damage no block and no
  registration of the others.
\<close>

section \<open>Receiving\<close>

text \<open>The bytes the kernel delivers before it would block, fails or reports the end.\<close>

fun recv :: "read_result list \<Rightarrow> bytes" where
  "recv [] = []"
| "recv (r # rs) = (case r of
     Rd_Bytes bs \<Rightarrow> (if bs = [] then [] else take READ_CHUNK bs @ recv rs)
   | Rd_Intr \<Rightarrow> recv rs | Rd_Again \<Rightarrow> [] | Rd_Error \<Rightarrow> [])"

lemma owns_step: "(\<And>F. owns m (f b) F \<Longrightarrow> owns m' (f b') F) \<Longrightarrow> owns m (f b @ ys) F \<Longrightarrow> owns m' (f b' @ ys) F"
  using owns_frame [of m f b m' b' "[]" ys F] by simp

lemma unat_READ_CHUNK: "unat (word_of_nat READ_CHUNK :: size_t) = READ_CHUNK"
  by (simp add: READ_CHUNK_def)

text \<open>The errors of a read that failed.\<close>

definition read_errors :: "bytes list" where
  "read_errors = [cstr ''ERR request too large'', cstr ''ERR out of memory'']"

lemma read_errors_text: "msg \<in> set read_errors \<Longrightarrow> 0 \<notin> set msg \<and> length msg \<le> 1000"
  by (auto simp: read_errors_def cstr_def)

lemma read_prepare_fail:
  assumes "bb_inv b" "read_prepare m b = Inl (msg, m', b')"
  shows "bb_inv b'" "bb_contents b' = bb_contents b" "mem_plenty m \<Longrightarrow> mem_plenty m'"
    "owns m (bb_blocks b @ xs) F \<Longrightarrow> owns m' (bb_blocks b' @ xs) F"
    "msg \<in> set read_errors"
    "mem_plenty m \<Longrightarrow> BUF_LIMIT < length (bb_contents b) + READ_CHUNK"
proof -
  have "bb_inv b' \<and> bb_contents b' = bb_contents b \<and> (mem_plenty m \<longrightarrow> mem_plenty m') \<and>
    (\<forall>xs F. owns m (bb_blocks b @ xs) F \<longrightarrow> owns m' (bb_blocks b' @ xs) F) \<and>
    msg \<in> set read_errors \<and>
    (mem_plenty m \<longrightarrow> BUF_LIMIT < length (bb_contents b) + READ_CHUNK)"
  proof (cases "bytebuf_len b \<ge> BYTEBUF_MAX")
    case True
    then have "BUF_LIMIT \<le> length (bb_contents b)"
      by (simp add: length_bb_contents [OF assms(1)] word_le_nat_alt)
    with True assms show ?thesis by (auto simp: read_prepare_def read_errors_def READ_CHUNK_def)
  next
    case False
    obtain r m1 b1 where e: "ensure_tail_cap m b (word_of_nat READ_CHUNK) = (r, m1, b1)" by (metis prod_cases3)
    note E = ensure_tail_cap_props [OF assms(1) e]
    from False assms(2) e have "r = RC_ERR" "m' = m1" "b' = b1" "msg = cstr ''ERR out of memory''"
      by (auto simp: read_prepare_def bytebuf_reserve_def split: rc.splits)
    with E owns_step [of m bb_blocks b m1 b1, OF E(7)] show ?thesis
      by (auto simp: unat_READ_CHUNK read_errors_def not_le[symmetric])
  qed
  then show "bb_inv b'" "bb_contents b' = bb_contents b" "mem_plenty m \<Longrightarrow> mem_plenty m'"
    "owns m (bb_blocks b @ xs) F \<Longrightarrow> owns m' (bb_blocks b' @ xs) F" "msg \<in> set read_errors"
    "mem_plenty m \<Longrightarrow> BUF_LIMIT < length (bb_contents b) + READ_CHUNK" by blast+
qed

lemma read_prepare_ok:
  assumes "bb_inv b" "read_prepare m b = Inr (tail, m', b')"
  shows "bb_inv b'" "bb_contents b' = bb_contents b" "mem_plenty m \<Longrightarrow> mem_plenty m'"
    "owns m (bb_blocks b @ xs) F \<Longrightarrow> owns m' (bb_blocks b' @ xs) F"
    "tail = bb_len b'" "unat (bb_len b') + READ_CHUNK \<le> unat (bb_cap b')"
proof -
  obtain r m1 b1 where e: "ensure_tail_cap m b (word_of_nat READ_CHUNK) = (r, m1, b1)" by (metis prod_cases3)
  note E = ensure_tail_cap_props [OF assms(1) e]
  from assms(2) e have *: "r = RC_OK" "m' = m1" "b' = b1" "tail = bb_len b1"
    by (auto simp: read_prepare_def bytebuf_reserve_def split: rc.splits if_splits)
  with E show "bb_inv b'" "bb_contents b' = bb_contents b" "mem_plenty m \<Longrightarrow> mem_plenty m'"
    "tail = bb_len b'" "unat (bb_len b') + READ_CHUNK \<le> unat (bb_cap b')"
    by (simp_all add: unat_READ_CHUNK)
  show "owns m (bb_blocks b @ xs) F \<Longrightarrow> owns m' (bb_blocks b' @ xs) F"
    using owns_step [of m bb_blocks b m1 b1, OF E(7)] * by blast
qed

lemma read_into_props:
  assumes inv: "bb_inv b" and fit: "unat (bb_len b) + READ_CHUNK \<le> unat (bb_cap b)" and bs: "length bs \<le> READ_CHUNK"
  shows "bb_inv (read_into b (bb_len b) bs)" "bb_contents (read_into b (bb_len b) bs) = bb_contents b @ bs"
    "bb_blocks (read_into b (bb_len b) bs) = bb_blocks b"
proof -
  have "length bs \<le> SIZE_MAX" using bs by (simp add: READ_CHUNK_def SIZE_MAX_def)
  then have sz: "unat (size_of bs) = length bs" by (simp add: unat_size_of)
  have "\<not> size_of bs > bb_cap b - bb_len b"
    using bb_inv_nat(6) [OF inv] fit bs sz by (simp add: word_less_nat_alt)
  then have eq: "read_into b (bb_len b) bs =
      b\<lparr>bb_data := blit (bb_data b) (unat (bb_len b)) (bs @ []), bb_len := bb_len b + size_of bs\<rparr>"
    by (simp add: read_into_def bytebuf_advance_def Let_def)
  have "unat (bb_len b) + length (bs @ []) \<le> unat (bb_cap b)" using fit bs by simp
  from write_tail_props [OF inv this] show "bb_inv (read_into b (bb_len b) bs)"
    "bb_contents (read_into b (bb_len b) bs) = bb_contents b @ bs" by (simp_all only: eq)
  show "bb_blocks (read_into b (bb_len b) bs) = bb_blocks b" by (simp add: eq bb_blocks_def)
qed

text \<open>\<open>received m b rs re m' b'\<close>: what a run of the read loop leaves.\<close>

definition received ::
  "mem \<Rightarrow> bytebuf \<Rightarrow> read_result list \<Rightarrow> read_end \<Rightarrow> mem \<Rightarrow> bytebuf \<Rightarrow> bool" where
  "received m b rs re m' b' \<longleftrightarrow>
     bb_inv b' \<and> (mem_plenty m \<longrightarrow> mem_plenty m') \<and>
     (\<forall>xs F. owns m (bb_blocks b @ xs) F \<longrightarrow> owns m' (bb_blocks b' @ xs) F) \<and>
     (\<exists>data rest. recv rs = data @ rest \<and> bb_contents b' = bb_contents b @ data \<and>
        (re = Re_Wait \<longrightarrow> rest = [])) \<and>
     (\<forall>msg. re = Re_Failed msg \<longrightarrow> msg \<in> set read_errors \<and>
        (mem_plenty m \<longrightarrow> BUF_LIMIT < length (bb_contents b') + READ_CHUNK))"

lemma received_more:
  assumes R: "received m1 b2 rs re m' b'" and bs: "bs \<noteq> []" "bb_contents b2 = bb_contents b @ take READ_CHUNK bs"
    and step: "mem_plenty m \<longrightarrow> mem_plenty m1" "\<And>xs F. owns m (bb_blocks b @ xs) F \<Longrightarrow> owns m1 (bb_blocks b2 @ xs) F"
  shows "received m b (Rd_Bytes bs # rs) re m' b'"
proof -
  from R obtain data rest where d: "recv rs = data @ rest" "bb_contents b' = bb_contents b2 @ data"
    "re = Re_Wait \<longrightarrow> rest = []" unfolding received_def by blast
  have "\<exists>data rest. recv (Rd_Bytes bs # rs) = data @ rest \<and> bb_contents b' = bb_contents b @ data \<and>
      (re = Re_Wait \<longrightarrow> rest = [])"
    by (rule exI [of _ "take READ_CHUNK bs @ data"], rule exI [of _ rest]) (use d bs in simp)
  then show ?thesis
    using R step bs unfolding received_def by (auto simp: add.assoc)
qed

lemma read_loop_stops:
  assumes "bb_inv b" "read_prepare m b = Inl (msg, m1, b1)" "read_loop m b rs = (re, m', b')"
  shows "received m b rs re m' b'"
  using assms(2,3) read_prepare_fail [OF assms(1,2)] by (cases rs) (fastforce simp: received_def)+

lemma read_loop_received:
  "bb_inv b \<Longrightarrow> read_loop m b rs = (re, m', b') \<Longrightarrow> received m b rs re m' b'"
proof (induction rs arbitrary: m b)
  case Nil
  show ?case
  proof (cases "read_prepare m b")
    case (Inl x)
    with Nil show ?thesis by (cases x) (auto intro: read_loop_stops)
  next
    case (Inr x)
    then obtain t m1 b1 where x: "read_prepare m b = Inr (t, m1, b1)" by (cases x) auto
    with Nil read_prepare_ok [OF Nil(1) x] show ?thesis by (auto simp: received_def)
  qed
next
  case (Cons r rs)
  show ?case
  proof (cases "read_prepare m b")
    case (Inl x)
    with Cons.prems show ?thesis by (cases x) (auto intro: read_loop_stops)
  next
    case (Inr x)
    then obtain t m1 b1 where x: "read_prepare m b = Inr (t, m1, b1)" by (cases x) auto
    note P = read_prepare_ok [OF Cons.prems(1) x]
    show ?thesis
    proof (cases r)
      case (Rd_Bytes bs)
      show ?thesis
      proof (cases "bs = []")
        case True
        with Rd_Bytes x Cons.prems P show ?thesis by (auto simp: received_def)
      next
        case False
        let ?b2 = "read_into b1 t (take READ_CHUNK bs)"
        have I: "bb_inv ?b2" "bb_contents ?b2 = bb_contents b @ take READ_CHUNK bs" "bb_blocks ?b2 = bb_blocks b1"
          using read_into_props [OF P(1) P(6), of "take READ_CHUNK bs"] P(2,5) by simp_all
        have "take READ_CHUNK bs \<noteq> []" using False by (simp add: READ_CHUNK_def)
        then have "read_loop m1 ?b2 rs = (re, m', b')" using Cons.prems(2) Rd_Bytes x False by simp
        from received_more [OF Cons.IH [OF I(1) this] False I(2)] show ?thesis
          using P(3,4) I(3) Rd_Bytes by simp
      qed
    next
      case Rd_Intr
      with Cons.prems x have "read_loop m1 b1 rs = (re, m', b')" by simp
      from Cons.IH [OF P(1) this] P Rd_Intr show ?thesis unfolding received_def by simp
    qed (use x Cons.prems P in \<open>auto simp: received_def\<close>)
  qed
qed

section \<open>Contracts of the handlers\<close>

definition conn_blocks :: "conn \<Rightarrow> addr list" where
  "conn_blocks c = cn_self c # bb_blocks (cn_in c) @ bb_blocks (cn_out c)"

text \<open>A connection whose buffers are sound and whose mask is the one registered in epoll.\<close>

definition conn_inv :: "world \<Rightarrow> conn \<Rightarrow> bool" where
  "conn_inv w c \<longleftrightarrow> bb_inv (cn_in c) \<and> bb_inv (cn_out c) \<and>
     w_epoll w (cn_fd c) = Some (Some (cn_self c), cn_events c)"

text \<open>
  A connection between two events: it waits for exactly what it needs, input unless it is being
  closed and output if and only if replies are pending, and it waits for something.
\<close>

definition waits :: "conn \<Rightarrow> bool" where
  "waits c \<longleftrightarrow> cn_events c = want_events c \<and> want_events c \<noteq> 0"

text \<open>
  \<open>transfers w c w' c'\<close>: of the server only the allocator, the store, the registration of \<open>c\<close> and
  the log changed, and the blocks owned by store and connection are still exactly accounted for.
\<close>

definition transfers :: "world \<Rightarrow> conn \<Rightarrow> world \<Rightarrow> conn \<Rightarrow> bool" where
  "transfers w c w' c' \<longleftrightarrow>
     cn_self c' = cn_self c \<and> cn_fd c' = cn_fd c \<and>
     w_conns w' = w_conns w \<and> w_listen_fd w' = w_listen_fd w \<and> w_epoll_fd w' = w_epoll_fd w \<and>
     w_shutdown w' = w_shutdown w \<and> w_open w' = w_open w \<and> w_bad_close w' = w_bad_close w \<and>
     (\<forall>fd. fd \<noteq> cn_fd c \<longrightarrow> w_epoll w' fd = w_epoll w fd) \<and>
     (mem_plenty (w_mem w) \<longrightarrow> mem_plenty (w_mem w')) \<and>
     (\<forall>xs F. owns (w_mem w) (ht_blocks (w_store w) @ conn_blocks c @ xs) F \<longrightarrow>
             owns (w_mem w') (ht_blocks (w_store w') @ conn_blocks c' @ xs) F)"

lemma transfers_refl: "transfers w c w c"
  by (simp add: transfers_def)

lemma transfers_trans: "transfers w c w1 c1 \<Longrightarrow> transfers w1 c1 w2 c2 \<Longrightarrow> transfers w c w2 c2"
  by (simp add: transfers_def)

lemma EPOLL_masks: "EPOLLIN \<noteq> 0" "EPOLLOUT \<noteq> 0" "EPOLLIN OR EPOLLOUT \<noteq> 0"
  by (simp_all add: EPOLLIN_def EPOLLOUT_def)

lemma want_events_cases:
  "want_events c =
    (if cn_close_after_drain c then (if bytebuf_len (cn_out c) > 0 then EPOLLOUT else 0)
     else if bytebuf_len (cn_out c) > 0 then EPOLLIN OR EPOLLOUT else EPOLLIN)"
  by (simp add: want_events_def)

lemma ctl_outcome_cases:
  obtains ok os where "ctl_outcome w = (ok, w\<lparr>w_ctl := os\<rparr>)"
proof (cases "w_ctl w")
  case Nil
  then show ?thesis by (intro that [of True "w_ctl w"]) (simp add: ctl_outcome_def)
next
  case (Cons b bs)
  then show ?thesis by (intro that [of b bs]) (simp add: ctl_outcome_def)
qed

lemma arm_events_props:
  assumes inv: "conn_inv w c" and arm: "arm_events w c ev = (r, w', c')"
  shows "transfers w c w' c'" "conn_inv w' c'" "w_store w' = w_store w" "w_mem w' = w_mem w"
    "cn_in c' = cn_in c" "cn_out c' = cn_out c" "cn_close_after_drain c' = cn_close_after_drain c"
    "r = RC_OK \<Longrightarrow> cn_events c' = ev" "w_sent w' = w_sent w"
proof -
  obtain ok os where k: "ctl_outcome w = (ok, w\<lparr>w_ctl := os\<rparr>)" by (rule ctl_outcome_cases)
  have "(r, w', c') = (RC_OK, w, c) \<and> cn_events c = ev \<or>
    (r, w', c') = (RC_OK, w\<lparr>w_ctl := os, w_epoll := (w_epoll w)(cn_fd c \<mapsto> (Some (cn_self c), ev))\<rparr>,
       c\<lparr>cn_events := ev\<rparr>) \<or>
    (r, w', c') = (RC_ERR, w\<lparr>w_ctl := os\<rparr>, c)"
    using arm k by (auto simp: arm_events_def epoll_set_def split: if_splits)
  then show "transfers w c w' c'" "conn_inv w' c'" "w_store w' = w_store w" "w_mem w' = w_mem w"
    "cn_in c' = cn_in c" "cn_out c' = cn_out c" "cn_close_after_drain c' = cn_close_after_drain c"
    "r = RC_OK \<Longrightarrow> cn_events c' = ev" "w_sent w' = w_sent w"
    using inv by (auto simp: transfers_def conn_inv_def conn_blocks_def)
qed

section \<open>Writing\<close>

lemma input_bytes_take:
  assumes "bb_inv b" "n \<le> unat (bytebuf_len b)"
  shows "take n (input_bytes b) = take n (bb_contents b)"
  using input_bytes_contents(1) [OF assms(1)] assms(2) by (metis min.absorb1 take_take)

lemma pending_iff: "bb_inv b \<Longrightarrow> bytebuf_len b > 0 \<longleftrightarrow> bb_contents b \<noteq> []"
  using length_bb_contents [of b] by (simp add: word_less_nat_alt flip: length_greater_0_conv)

text \<open>First in, first out: what was sent and what is still pending are the pending bytes before.\<close>

lemma write_loop_props:
  "bb_inv b \<Longrightarrow> write_loop b rs = (e, b', sent) \<Longrightarrow>
   bb_inv b' \<and> bb_ptr b' = bb_ptr b \<and> bb_contents b = sent @ bb_contents b' \<and>
   (e = We_Drained \<longrightarrow> bb_contents b' = []) \<and> (e = We_Again \<longrightarrow> bb_contents b' \<noteq> [])"
proof (induction rs arbitrary: b sent)
  case Nil
  with pending_iff [OF Nil(1)] show ?case by (auto split: if_splits)
next
  case (Cons r rs)
  note pos = pending_iff [OF Cons.prems(1)]
  show ?case
  proof (cases "bytebuf_len b > 0")
    case False
    with Cons.prems pos show ?thesis by auto
  next
    case True
    show ?thesis
    proof (cases r)
      case (Wr_Bytes k)
      define n where "n = min k (unat (bytebuf_len b))"
      have le: "n \<le> unat (bytebuf_len b)" by (simp add: n_def)
      then have "n \<le> SIZE_MAX" using unat_size_t_max [of "bytebuf_len b"] by linarith
      then have u: "unat (word_of_nat n :: size_t) = n" by (rule unat_word_of_nat_size)
      obtain e1 b1 later where w: "write_loop (bytebuf_consume b (word_of_nat n)) rs = (e1, b1, later)"
        by (metis prod_cases3)
      have eq: "e1 = e" "b1 = b'" "sent = take n (bb_contents b) @ later"
        using Cons.prems(2) Wr_Bytes True w input_bytes_take [OF Cons.prems(1) le]
        by (auto simp: n_def [symmetric] Let_def)
      note C = bytebuf_consume_props [OF Cons.prems(1), of "word_of_nat n"]
      have "bb_contents b = take n (bb_contents b) @ drop n (bb_contents b)" by simp
      with Cons.IH [OF C(1) w [unfolded eq(1,2)]] C u show ?thesis unfolding eq(3) by simp
    qed (use Cons True pos in auto)
  qed
qed

lemma waits_iff:
  assumes "bb_inv (cn_out c)"
  shows "waits c \<longleftrightarrow> (if cn_close_after_drain c then bb_contents (cn_out c) \<noteq> [] \<and> cn_events c = EPOLLOUT
    else if bb_contents (cn_out c) \<noteq> [] then cn_events c = EPOLLIN OR EPOLLOUT else cn_events c = EPOLLIN)"
  using EPOLL_masks pending_iff [OF assms] by (auto simp: waits_def want_events_cases)

lemma handle_write_props:
  assumes inv: "conn_inv w c" and wait: "waits c" and h: "handle_write ws w c = (r, w', c')"
  shows "transfers w c w' c'" "conn_inv w' c'" "w_store w' = w_store w" "cn_in c' = cn_in c"
    "r = RC_OK \<Longrightarrow> waits c'"
    "\<exists>sent. w_sent w' = w_sent w @ [(cn_self c, sent)] \<and> bb_contents (cn_out c) = sent @ bb_contents (cn_out c')"
    "r = RC_OK \<Longrightarrow> cn_close_after_drain c' = cn_close_after_drain c"
    "r = RC_OK \<Longrightarrow> cn_close_after_drain c \<Longrightarrow> bb_contents (cn_out c') \<noteq> []"
proof -
  obtain e out' sent where l: "write_loop (cn_out c) ws = (e, out', sent)" by (metis prod_cases3)
  define c1 where "c1 = c\<lparr>cn_out := out'\<rparr>"
  define w1 where "w1 = w\<lparr>w_sent := w_sent w @ [(cn_self c, sent)]\<rparr>"
  have bo: "bb_inv (cn_out c)" using inv by (simp add: conn_inv_def)
  note L = write_loop_props [OF bo l]
  have t1: "transfers w c w1 c1" and i1: "conn_inv w1 c1"
    using inv L by (auto simp: transfers_def conn_inv_def w1_def c1_def conn_blocks_def bb_blocks_def)
  have h': "(r, w', c') = (case e of We_Again \<Rightarrow> (RC_OK, w1, c1) | We_Error \<Rightarrow> (RC_ERR, w1, c1)
     | We_Drained \<Rightarrow> (if cn_close_after_drain c1 then (RC_ERR, w1, c1) else arm_events w1 c1 EPOLLIN))"
    using h [symmetric] by (cases e) (simp_all add: handle_write_def l w1_def c1_def Let_def)
  have again: "waits c1" if "e = We_Again"
    using that wait L bo i1 by (auto simp: waits_iff conn_inv_def c1_def)
  have bo': "bb_inv out'" using L by simp
  consider (now) "w' = w1" "c' = c1" "r = RC_OK \<Longrightarrow> e = We_Again"
    | (arm) "e = We_Drained" "\<not> cn_close_after_drain c1" "arm_events w1 c1 EPOLLIN = (r, w', c')"
    using h' by (cases e) (auto split: if_splits)
  then have "transfers w c w' c' \<and> conn_inv w' c' \<and> w_store w' = w_store w \<and> cn_in c' = cn_in c \<and>
    (r = RC_OK \<longrightarrow> waits c') \<and> w_sent w' = w_sent w1 \<and> cn_out c' = out' \<and>
    cn_close_after_drain c' = cn_close_after_drain c"
  proof cases
    case now
    with t1 i1 again show ?thesis by (auto simp: w1_def c1_def)
  next
    case arm
    note A = arm_events_props [OF i1 arm(3)]
    have "waits c'" if "r = RC_OK"
      using A(6,7) A(8) [OF that] arm(1,2) L bo' by (simp add: waits_iff c1_def)
    with A transfers_trans [OF t1 A(1)] show ?thesis by (auto simp: w1_def c1_def)
  qed
  moreover have "cn_close_after_drain c \<longrightarrow> bb_contents out' \<noteq> []" if "r = RC_OK"
    using h' L that by (cases e) (auto simp: c1_def split: if_splits)
  ultimately show "transfers w c w' c'" "conn_inv w' c'" "w_store w' = w_store w" "cn_in c' = cn_in c"
    "r = RC_OK \<Longrightarrow> waits c'"
    "\<exists>sent. w_sent w' = w_sent w @ [(cn_self c, sent)] \<and> bb_contents (cn_out c) = sent @ bb_contents (cn_out c')"
    "r = RC_OK \<Longrightarrow> cn_close_after_drain c' = cn_close_after_drain c"
    "r = RC_OK \<Longrightarrow> cn_close_after_drain c \<Longrightarrow> bb_contents (cn_out c') \<noteq> []"
    using L by (auto simp: w1_def)
qed

section \<open>Reading and dispatching\<close>

lemma finish_read_props:
  assumes inv: "conn_inv w c" and f: "finish_read w c = (r, w', c')"
  shows "transfers w c w' c'" "conn_inv w' c'" "w_store w' = w_store w" "w_mem w' = w_mem w"
    "cn_in c' = cn_in c" "cn_out c' = cn_out c" "cn_close_after_drain c' = cn_close_after_drain c"
    "w_sent w' = w_sent w" "r = RC_OK \<Longrightarrow> waits c'"
proof -
  consider "(r, w', c') = (RC_ERR, w, c)" | "want_events c \<noteq> 0" "arm_events w c (want_events c) = (r, w', c')"
    using f by (auto simp: finish_read_def Let_def split: if_splits)
  then have "transfers w c w' c' \<and> conn_inv w' c' \<and> w_store w' = w_store w \<and> w_mem w' = w_mem w \<and>
    cn_in c' = cn_in c \<and> cn_out c' = cn_out c \<and> cn_close_after_drain c' = cn_close_after_drain c \<and>
    w_sent w' = w_sent w \<and> (r = RC_OK \<longrightarrow> waits c')"
  proof cases
    case 1
    with inv show ?thesis by (simp add: transfers_refl)
  next
    case 2
    note A = arm_events_props [OF inv 2(2)]
    have "want_events c' = want_events c" using A(6,7) by (simp add: want_events_def)
    with A 2(1) show ?thesis by (auto simp: waits_def)
  qed
  then show "transfers w c w' c'" "conn_inv w' c'" "w_store w' = w_store w" "w_mem w' = w_mem w"
    "cn_in c' = cn_in c" "cn_out c' = cn_out c" "cn_close_after_drain c' = cn_close_after_drain c"
    "w_sent w' = w_sent w" "r = RC_OK \<Longrightarrow> waits c'" by blast+
qed

lemma owns_perm: "owns m xs F \<Longrightarrow> mset xs = mset ys \<Longrightarrow> owns m ys F"
  using owns_mset by blast

lemma transfers_received:
  assumes inv: "conn_inv w c" and l: "read_loop (w_mem w) (cn_in c) reads = (re, m1, in1)"
  shows "transfers w c (w\<lparr>w_mem := m1\<rparr>) (c\<lparr>cn_in := in1\<rparr>)"
proof -
  have R: "received (w_mem w) (cn_in c) reads re m1 in1"
    using inv by (intro read_loop_received l) (simp add: conn_inv_def)
  have "owns m1 (ht_blocks (w_store w) @ conn_blocks (c\<lparr>cn_in := in1\<rparr>) @ xs) F"
    if "owns (w_mem w) (ht_blocks (w_store w) @ conn_blocks c @ xs) F" for xs F
  proof -
    have "owns (w_mem w) (bb_blocks (cn_in c) @ ht_blocks (w_store w) @ cn_self c # bb_blocks (cn_out c) @ xs) F"
      using that by (rule owns_perm) (simp add: conn_blocks_def)
    then have "owns m1 (bb_blocks in1 @ ht_blocks (w_store w) @ cn_self c # bb_blocks (cn_out c) @ xs) F"
      using R by (simp add: received_def)
    then show ?thesis by (rule owns_perm) (simp add: conn_blocks_def)
  qed
  with R show ?thesis by (simp add: transfers_def received_def)
qed

lemma transfers_ctx:
  assumes blocks: "bb_blocks in2 = bb_blocks (cn_in c)"
    and plenty: "mem_plenty (w_mem w) \<longrightarrow> mem_plenty (c_mem x)"
    and own: "\<And>xs F. owns (w_mem w) (ht_blocks (w_store w) @ bb_blocks (cn_out c) @ xs) F \<Longrightarrow>
      owns (c_mem x) (ctx_blocks x @ xs) F"
  shows "transfers w c (w\<lparr>w_mem := c_mem x, w_store := c_store x\<rparr>)
    (c\<lparr>cn_in := in2, cn_out := c_out x, cn_close_after_drain := b\<rparr>)"
proof -
  have "owns (c_mem x) (ht_blocks (c_store x) @ conn_blocks (c\<lparr>cn_in := in2, cn_out := c_out x,
      cn_close_after_drain := b\<rparr>) @ xs) F"
    if "owns (w_mem w) (ht_blocks (w_store w) @ conn_blocks c @ xs) F" for xs F
  proof -
    have "owns (w_mem w) (ht_blocks (w_store w) @ bb_blocks (cn_out c) @ cn_self c # bb_blocks (cn_in c) @ xs) F"
      using that by (rule owns_perm) (simp add: conn_blocks_def)
    from own [OF this] show ?thesis by (rule owns_perm) (simp add: conn_blocks_def ctx_blocks_def blocks)
  qed
  with plenty show ?thesis by (simp add: transfers_def)
qed

text \<open>
  \<open>closes_with oom used rest n closing lost p\<close>: how a connection stands whose input \<open>used\<close> ends in
  \<open>rest\<close>, which is no complete request, and whose replies have \<open>n\<close> bytes. It is \<open>closing\<close> exactly when \<open>rest\<close>
  is no beginning of a request either or a read failed, which needs an input buffer at its limit
  unless memory ran out. The bytes \<open>p\<close> after its replies are the errors that say so, the first for
  the first reason and the second for the other; the input \<open>lost\<close> was not taken in. So an open
  connection has nothing after its replies and lost nothing.
\<close>

definition closes_with :: "bool \<Rightarrow> bytes \<Rightarrow> bytes \<Rightarrow> nat \<Rightarrow> bool \<Rightarrow> bytes \<Rightarrow> bytes \<Rightarrow> bool" where
  "closes_with oom used rest n closing lost p \<longleftrightarrow>
     ref_request rest \<in> {RESP_NEED_MORE, RESP_PROTOCOL_ERR} \<and>
     (\<exists>es. (es = [] \<or> (\<exists>msg\<in>set read_errors. es = [RError msg]) \<and> (oom \<or> BUF_LIMIT < length used + READ_CHUNK)) \<and>
        errors_sent oom n (syntax_error rest @ es) p \<and>
        (closing \<longleftrightarrow> ref_request rest = RESP_PROTOCOL_ERR \<or> es \<noteq> [])) \<and>
     (\<not> closing \<longrightarrow> lost = [])"

lemma closes_with_open:
  "closes_with oom used rest n False lost p \<longleftrightarrow> ref_request rest = RESP_NEED_MORE \<and> lost = [] \<and> p = []"
  by (auto simp: closes_with_def syntax_error_def)

lemma closes_with_not_closing:
  "closes_with oom used rest n closing lost p \<Longrightarrow> \<not> closing \<longrightarrow> lost = [] \<and> p = [] \<and> ref_request rest = RESP_NEED_MORE"
  by (cases closing) (simp_all add: closes_with_open)

lemma closes_with_mono:
  assumes "closes_with oom used rest n closing lost p" "oom \<Longrightarrow> oom'" "length used \<le> length used'" "n \<le> n'"
    "closing \<or> lost' = []"
  shows "closes_with oom' used' rest n' closing lost' p"
proof -
  obtain es where es: "es = [] \<or> (\<exists>msg\<in>set read_errors. es = [RError msg]) \<and> (oom \<or> BUF_LIMIT < length used + READ_CHUNK)"
    "errors_sent oom n (syntax_error rest @ es) p" "closing \<longleftrightarrow> ref_request rest = RESP_PROTOCOL_ERR \<or> es \<noteq> []"
    "ref_request rest \<in> {RESP_NEED_MORE, RESP_PROTOCOL_ERR}" using assms(1) unfolding closes_with_def by blast
  have "es = [] \<or> (\<exists>msg\<in>set read_errors. es = [RError msg]) \<and> (oom' \<or> BUF_LIMIT < length used' + READ_CHUNK)"
    using es(1) assms(2,3) by auto
  with errors_sent_mono [OF es(2) assms(2,4)] es(3,4) assms(5) show ?thesis unfolding closes_with_def by blast
qed

text \<open>What a call of \<open>handle_read\<close> does, for \<open>j\<close> further bytes that other events may bring.\<close>

definition served ::
  "nat \<Rightarrow> read_result list \<Rightarrow> world \<Rightarrow> conn \<Rightarrow> rc \<Rightarrow> world \<Rightarrow> conn \<Rightarrow> bool" where
  "served j reads w c r w' c' \<longleftrightarrow>
     transfers w c w' c' \<and> conn_inv w' c' \<and> ht_inv (w_store w') \<and> w_sent w' = w_sent w \<and>
     fits (ht_abs (w_store w')) ((if r = RC_OK then length (bb_contents (cn_in c')) else 0) + j) \<and>
     (r = RC_OK \<longrightarrow> waits c') \<and>
     (\<exists>data lost rs rest. recv reads = data @ lost \<and>
        session (\<not> mem_plenty (w_mem w)) (ht_abs (w_store w)) (bb_contents (cn_in c) @ data) rs
          (ht_abs (w_store w')) rest) \<and>
     (r = RC_OK \<longrightarrow> cn_close_after_drain c \<longrightarrow> cn_close_after_drain c' \<and> w_store w' = w_store w \<and>
        cn_in c' = cn_in c \<and> cn_out c' = cn_out c) \<and>
     (r = RC_OK \<longrightarrow> \<not> cn_close_after_drain c \<longrightarrow> (\<exists>data lost rs p.
        recv reads = data @ lost \<and>
        session (\<not> mem_plenty (w_mem w)) (ht_abs (w_store w)) (bb_contents (cn_in c) @ data) rs
          (ht_abs (w_store w')) (bb_contents (cn_in c')) \<and>
        bb_contents (cn_out c') = bb_contents (cn_out c) @ concat (map encode_reply rs) @ p \<and>
        closes_with (\<not> mem_plenty (w_mem w)) (bb_contents (cn_in c) @ data) (bb_contents (cn_in c'))
          (length (bb_contents (cn_out c) @ concat (map encode_reply rs))) (cn_close_after_drain c') lost p))"

lemma servedI:
  assumes "transfers w c w1 c1" "conn_inv w1 c1" "ht_inv (w_store w1)" "w_sent w1 = w_sent w"
    "fits (ht_abs (w_store w1)) (length (bb_contents (cn_in c1)) + j)"
    "session (\<not> mem_plenty (w_mem w)) (ht_abs (w_store w)) (bb_contents (cn_in c) @ data) rs
        (ht_abs (w_store w1)) (bb_contents (cn_in c1))"
    "recv reads = data @ lost"
    "bb_contents (cn_out c1) = bb_contents (cn_out c) @ concat (map encode_reply rs) @ p"
    "closes_with (\<not> mem_plenty (w_mem w)) (bb_contents (cn_in c) @ data) (bb_contents (cn_in c1))
      (length (bb_contents (cn_out c) @ concat (map encode_reply rs))) (cn_close_after_drain c1) lost p"
    "finish_read w1 c1 = (r, w', c')" "\<not> cn_close_after_drain c"
  shows "served j reads w c r w' c'"
proof -
  note F = finish_read_props [OF assms(2,10)]
  have "fits (ht_abs (w_store w')) ((if r = RC_OK then length (bb_contents (cn_in c')) else 0) + j)"
    using fits_mono [OF assms(5), of j] assms(5) F(3,5) by simp
  moreover have "\<exists>data lost rs p. recv reads = data @ lost \<and>
        session (\<not> mem_plenty (w_mem w)) (ht_abs (w_store w)) (bb_contents (cn_in c) @ data) rs
          (ht_abs (w_store w')) (bb_contents (cn_in c')) \<and>
        bb_contents (cn_out c') = bb_contents (cn_out c) @ concat (map encode_reply rs) @ p \<and>
        closes_with (\<not> mem_plenty (w_mem w)) (bb_contents (cn_in c) @ data) (bb_contents (cn_in c'))
          (length (bb_contents (cn_out c) @ concat (map encode_reply rs))) (cn_close_after_drain c') lost p"
    using assms(6-9) F(3,5-7) by (intro exI [of _ data] exI [of _ lost] exI [of _ rs] exI [of _ p]) simp
  moreover have "\<exists>data lost rs rest. recv reads = data @ lost \<and>
        session (\<not> mem_plenty (w_mem w)) (ht_abs (w_store w)) (bb_contents (cn_in c) @ data) rs
          (ht_abs (w_store w')) rest"
    using assms(6,7) F(3) by auto
  ultimately show ?thesis
    using transfers_trans [OF assms(1) F(1)] F(2,3,7-9) assms(3,4,11) by (simp add: served_def)
qed

lemma served_err:
  assumes "transfers w c w' c'" "conn_inv w' c'" "ht_inv (w_store w')" "w_sent w' = w_sent w"
    "fits (ht_abs (w_store w')) j" "recv reads = data @ lost"
    "session (\<not> mem_plenty (w_mem w)) (ht_abs (w_store w)) (bb_contents (cn_in c) @ data) rs (ht_abs (w_store w')) rest"
  shows "served j reads w c RC_ERR w' c'"
  using assms by (auto simp: served_def)

text \<open>Nothing was served.\<close>

lemma served_nothing:
  assumes "w_store w' = w_store w"
  shows "\<exists>data lost rs rest. recv reads = data @ lost \<and>
    session (\<not> mem_plenty (w_mem w)) (ht_abs (w_store w)) (bb_contents (cn_in c) @ data) rs (ht_abs (w_store w')) rest"
  by (rule exI [of _ "[]"], rule exI [of _ "recv reads"], rule exI [of _ "[]"],
      rule exI [of _ "bb_contents (cn_in c)"]) (simp add: assms s_done)

text \<open>The connection in the middle of its shutdown only waits for its replies to drain.\<close>

lemma handle_read_closing:
  assumes "conn_inv w c" "waits c" "ht_inv (w_store w)" "cn_close_after_drain c"
    "fits (ht_abs (w_store w)) (length (bb_contents (cn_in c)) + j)"
  shows "\<exists>r w' c'. handle_read reads w c = Some (r, w', c') \<and> served j reads w c r w' c'"
proof (cases "bytebuf_len (cn_out c) = 0")
  case True
  have "served j reads w c RC_ERR w c"
    using assms fits_mono [OF assms(5), of j] served_nothing [OF refl]
    by (simp add: served_def transfers_refl)
  with True assms(4) show ?thesis by (simp add: handle_read_def)
next
  case False
  obtain r w' c' where a: "arm_events w c EPOLLOUT = (r, w', c')" by (metis prod_cases3)
  note A = arm_events_props [OF assms(1) a]
  have "want_events c' = EPOLLOUT" using False A(6,7) assms(4) by (simp add: want_events_cases word_gt_0)
  then have "r = RC_OK \<longrightarrow> waits c'" using A(8) EPOLL_masks by (simp add: waits_def)
  then have "served j reads w c r w' c'"
    using A assms(3-5) fits_mono [OF assms(5), of j] served_nothing [OF A(3)] by (simp add: served_def)
  with False a assms(4) show ?thesis by (simp add: handle_read_def)
qed

text \<open>The error of a failed read is added after the replies.\<close>

lemma read_error_ctx:
  assumes inv: "ctx_inv x" and msg: "msg \<in> set read_errors"
    and e: "resp_reply_error (c_mem x) (c_out x) msg = (rc, m3, out3)"
  shows "bb_inv out3" "written x (RError msg) rc (x\<lparr>c_mem := m3, c_out := out3\<rparr>)"
    "mem_plenty (c_mem x) \<longrightarrow> mem_plenty m3"
    "owns (c_mem x) (ctx_blocks x @ xs) F \<Longrightarrow> owns m3 (ctx_blocks (x\<lparr>c_mem := m3, c_out := out3\<rparr>) @ xs) F"
proof -
  have "emits x (RError msg) (reply_error msg x)"
    using inv read_errors_text [OF msg] by (intro emits_error) (auto simp: SIZE_MAX_def)
  then have "emits x (RError msg) (rc, x\<lparr>c_mem := m3, c_out := out3\<rparr>)"
    by (simp add: reply_error_def on_out_def e)
  then show "bb_inv out3" "written x (RError msg) rc (x\<lparr>c_mem := m3, c_out := out3\<rparr>)"
    "mem_plenty (c_mem x) \<longrightarrow> mem_plenty m3"
    "owns (c_mem x) (ctx_blocks x @ xs) F \<Longrightarrow> owns m3 (ctx_blocks (x\<lparr>c_mem := m3, c_out := out3\<rparr>) @ xs) F"
    by (auto simp: emits_def written_def ctx_inv_def ctx_reply_def)
qed

text \<open>
  \<open>after_dispatch j reads w c re de x in2\<close>: how an open connection stands once its bytes are read, with
  the end \<open>re\<close>, and its requests are dispatched, with the end \<open>de\<close>, the context \<open>x\<close> and the input \<open>in2\<close>.
\<close>

definition after_dispatch ::
  "nat \<Rightarrow> read_result list \<Rightarrow> world \<Rightarrow> conn \<Rightarrow> read_end \<Rightarrow> dispatch_end \<Rightarrow> command_ctx \<Rightarrow> bytebuf \<Rightarrow> bool" where
  "after_dispatch j reads w c re de x in2 \<longleftrightarrow>
     ctx_inv x \<and> bb_inv in2 \<and>
     (\<forall>y b. (mem_plenty (c_mem x) \<longrightarrow> mem_plenty (c_mem y)) \<longrightarrow>
        (\<forall>xs F. owns (c_mem x) (ctx_blocks x @ xs) F \<longrightarrow> owns (c_mem y) (ctx_blocks y @ xs) F) \<longrightarrow>
        transfers w c (w\<lparr>w_mem := c_mem y, w_store := c_store y\<rparr>)
          (c\<lparr>cn_in := in2, cn_out := c_out y, cn_close_after_drain := b\<rparr>)) \<and>
     fits (ht_abs (c_store x)) (if de = De_Fail then j else length (bb_contents in2) + j) \<and>
     (mem_plenty (w_mem w) \<longrightarrow> mem_plenty (c_mem x)) \<and>
     (\<exists>data lost rs rest. recv reads = data @ lost \<and> (re = Re_Wait \<longrightarrow> lost = []) \<and>
        (\<forall>msg. re = Re_Failed msg \<longrightarrow> msg \<in> set read_errors \<and>
           (mem_plenty (w_mem w) \<longrightarrow> BUF_LIMIT < length (bb_contents (cn_in c) @ data) + READ_CHUNK)) \<and>
        session (\<not> mem_plenty (w_mem w)) (ht_abs (w_store w)) (bb_contents (cn_in c) @ data) rs (ht_abs (c_store x)) rest \<and>
        (de \<noteq> De_Fail \<longrightarrow> rest = bb_contents in2 \<and>
           ref_request (bb_contents in2) = (if de = De_Wait then RESP_NEED_MORE else RESP_PROTOCOL_ERR) \<and>
           (\<exists>p. bb_contents (c_out x) = bb_contents (cn_out c) @ concat (map encode_reply rs) @ p \<and>
              errors_sent (\<not> mem_plenty (w_mem w)) (length (bb_contents (cn_out c) @ concat (map encode_reply rs)))
                (syntax_error (bb_contents in2)) p)))"

lemma read_then_dispatch:
  assumes inv: "conn_inv w c" and st: "ht_inv (w_store w)"
    and fit: "fits (ht_abs (w_store w)) (length (bb_contents (cn_in c)) + length (recv reads) + j)"
    and l: "read_loop (w_mem w) (cn_in c) reads = (re, m1, in1)"
  shows "\<exists>de x in2. dispatch_frames \<lparr>c_mem = m1, c_store = w_store w, c_out = cn_out c\<rparr> in1 = Some (de, x, in2) \<and>
    after_dispatch j reads w c re de x in2"
proof -
  have R: "received (w_mem w) (cn_in c) reads re m1 in1"
    using inv by (intro read_loop_received l) (simp add: conn_inv_def)
  have in1: "bb_inv in1" and plenty1: "mem_plenty (w_mem w) \<longrightarrow> mem_plenty m1"
    using R by (simp_all add: received_def)
  obtain data lost where data: "recv reads = data @ lost" "bb_contents in1 = bb_contents (cn_in c) @ data"
    "re = Re_Wait \<longrightarrow> lost = []" using R unfolding received_def by blast
  have failed: "msg \<in> set read_errors \<and>
      (mem_plenty (w_mem w) \<longrightarrow> BUF_LIMIT < length (bb_contents (cn_in c) @ data) + READ_CHUNK)" if "re = Re_Failed msg" for msg
    using R that data(2) by (simp add: received_def)
  define x0 where "x0 = \<lparr>c_mem = m1, c_store = w_store w, c_out = cn_out c\<rparr>"
  have x0: "ctx_inv x0" using inv st by (simp add: x0_def ctx_inv_def conn_inv_def)
  have "fits (ht_abs (c_store x0)) (length (bb_contents in1) + j)"
    unfolding x0_def using fit by (simp add: data) (rule fits_mono, assumption, simp)
  from dispatch_frames_returns [OF x0 in1 this] obtain de x in2 where
    d: "dispatch_frames x0 in1 = Some (de, x, in2)" "dispatched j x0 in1 de x in2" by blast
  have D: "ctx_inv x" "bb_inv in2" "bb_blocks in2 = bb_blocks in1" "mem_plenty m1 \<longrightarrow> mem_plenty (c_mem x)"
    "\<And>xs F. owns m1 (ht_blocks (w_store w) @ bb_blocks (cn_out c) @ xs) F \<Longrightarrow> owns (c_mem x) (ctx_blocks x @ xs) F"
    "fits (ht_abs (c_store x)) (if de = De_Fail then j else length (bb_contents in2) + j)"
    using d(2) by (simp_all add: dispatched_def x0_def ctx_blocks_def bb_blocks_def)
  have plenty: "mem_plenty (w_mem w) \<longrightarrow> mem_plenty (c_mem x)" using plenty1 D(4) by blast
  have T: "transfers w c (w\<lparr>w_mem := c_mem y, w_store := c_store y\<rparr>)
      (c\<lparr>cn_in := in2, cn_out := c_out y, cn_close_after_drain := b\<rparr>)"
    if "mem_plenty (c_mem x) \<longrightarrow> mem_plenty (c_mem y)"
      "\<forall>xs F. owns (c_mem x) (ctx_blocks x @ xs) F \<longrightarrow> owns (c_mem y) (ctx_blocks y @ xs) F" for y b
    using transfers_trans [OF transfers_received [OF inv l]
        transfers_ctx [of in2 "c\<lparr>cn_in := in1\<rparr>" "w\<lparr>w_mem := m1\<rparr>" y b]] D(3-5) that by simp
  define Q where "Q rs rest \<longleftrightarrow> rest = bb_contents in2 \<and>
      ref_request (bb_contents in2) = (if de = De_Wait then RESP_NEED_MORE else RESP_PROTOCOL_ERR) \<and>
      (\<exists>p. bb_contents (c_out x) = bb_contents (cn_out c) @ concat (map encode_reply rs) @ p \<and>
         errors_sent (\<not> mem_plenty (w_mem w)) (length (bb_contents (cn_out c) @ concat (map encode_reply rs)))
           (syntax_error (bb_contents in2)) p)" for rs rest
  have "\<exists>rs rest. session (\<not> mem_plenty m1) (ht_abs (w_store w)) (bb_contents in1) rs (ht_abs (c_store x)) rest \<and>
    (de \<noteq> De_Fail \<longrightarrow> Q rs rest)"
  proof (cases "de = De_Fail")
    case False
    with d(2) obtain rs p where s:
      "session (\<not> mem_plenty m1) (ht_abs (w_store w)) (bb_contents in1) rs (ht_abs (c_store x)) (bb_contents in2)"
      "bb_contents (c_out x) = bb_contents (cn_out c) @ concat (map encode_reply rs) @ p"
      "errors_sent (\<not> mem_plenty m1) (length (bb_contents (cn_out c) @ concat (map encode_reply rs))) (syntax_error (bb_contents in2)) p"
      "ref_request (bb_contents in2) = (if de = De_Wait then RESP_NEED_MORE else RESP_PROTOCOL_ERR)"
      by (auto simp: dispatched_def x0_def ctx_reply_def)
    then have "Q rs (bb_contents in2)" using errors_sent_mono [OF s(3)] plenty1 by (auto simp: Q_def)
    with s(1) show ?thesis by blast
  qed (use d(2) in \<open>auto simp: dispatched_def x0_def\<close>)
  then obtain rs rest where s: "session (\<not> mem_plenty m1) (ht_abs (w_store w)) (bb_contents in1) rs (ht_abs (c_store x)) rest"
    "de \<noteq> De_Fail \<longrightarrow> Q rs rest" by blast
  have "session (\<not> mem_plenty (w_mem w)) (ht_abs (w_store w)) (bb_contents (cn_in c) @ data) rs (ht_abs (c_store x)) rest"
    using session_oom_mono [OF s(1)] plenty1 data(2) by auto
  with D(1,2,6) T data(1,3) s(2) [unfolded Q_def] failed plenty have "after_dispatch j reads w c re de x in2"
    unfolding after_dispatch_def by blast
  with d(1) show ?thesis by (auto simp: x0_def)
qed

text \<open>A reply could not be written: the connection is given up.\<close>

lemma served_fail:
  assumes "after_dispatch j reads w c re De_Fail x in2" "conn_inv w c"
  shows "served j reads w c RC_ERR (w\<lparr>w_mem := c_mem x, w_store := c_store x\<rparr>) (c\<lparr>cn_in := in2, cn_out := c_out x\<rparr>)"
proof -
  note A = assms(1) [unfolded after_dispatch_def]
  obtain data lost rs rest where s: "recv reads = data @ lost"
    "session (\<not> mem_plenty (w_mem w)) (ht_abs (w_store w)) (bb_contents (cn_in c) @ data) rs (ht_abs (c_store x)) rest"
    using A by blast
  have "transfers w c (w\<lparr>w_mem := c_mem x, w_store := c_store x\<rparr>)
      (c\<lparr>cn_in := in2, cn_out := c_out x, cn_close_after_drain := cn_close_after_drain c\<rparr>)" using A by blast
  with A s assms(2) show ?thesis
    by (intro served_err [where data = data and lost = lost and rs = rs and rest = rest])
       (simp_all add: conn_inv_def ctx_inv_def)
qed

text \<open>A deferred read error follows the replies.\<close>

lemma served_read_error:
  assumes A: "after_dispatch j reads w c re de x in2" and open_: "\<not> cn_close_after_drain c" and inv: "conn_inv w c"
    and ok: "de \<noteq> De_Fail" and re: "re = Re_Failed msg"
    and e: "resp_reply_error (c_mem x) (c_out x) msg = (rc, m3, out3)"
    and f: "finish_read (w\<lparr>w_store := c_store x, w_mem := m3\<rparr>)
      (c\<lparr>cn_in := in2, cn_out := out3, cn_close_after_drain := True\<rparr>) = (r, w', c')"
  shows "served j reads w c r w' c'"
proof -
  note A' = A [unfolded after_dispatch_def]
  have xinv: "ctx_inv x" "ht_inv (c_store x)" "bb_inv in2" using A' by (simp_all add: ctx_inv_def)
  from A' ok re obtain data lost rs p where s: "recv reads = data @ lost"
    "session (\<not> mem_plenty (w_mem w)) (ht_abs (w_store w)) (bb_contents (cn_in c) @ data) rs (ht_abs (c_store x)) (bb_contents in2)"
    "bb_contents (c_out x) = bb_contents (cn_out c) @ concat (map encode_reply rs) @ p"
    "fits (ht_abs (c_store x)) (length (bb_contents in2) + j)"
    and k: "msg \<in> set read_errors" "mem_plenty (w_mem w) \<longrightarrow> BUF_LIMIT < length (bb_contents (cn_in c) @ data) + READ_CHUNK"
      "ref_request (bb_contents in2) \<in> {RESP_NEED_MORE, RESP_PROTOCOL_ERR}"
      "errors_sent (\<not> mem_plenty (w_mem w)) (length (bb_contents (cn_out c) @ concat (map encode_reply rs)))
         (syntax_error (bb_contents in2)) p" by auto
  note E = read_error_ctx [OF xinv(1) k(1) e]
  have "mem_plenty (w_mem w) \<longrightarrow> mem_plenty (c_mem x)" using A' by blast
  from errors_sent_written [OF k(4) E(2) this] s(3) obtain q where q: "bb_contents out3 = bb_contents (c_out x) @ q"
    "errors_sent (\<not> mem_plenty (w_mem w)) (length (bb_contents (cn_out c) @ concat (map encode_reply rs)))
       (syntax_error (bb_contents in2) @ [RError msg]) (p @ q)" by (auto simp: ctx_reply_def)
  have ends: "closes_with (\<not> mem_plenty (w_mem w)) (bb_contents (cn_in c) @ data) (bb_contents in2)
      (length (bb_contents (cn_out c) @ concat (map encode_reply rs))) True lost (p @ q)"
    unfolding closes_with_def using k(1-3) q(2) by (intro conjI exI [of _ "[RError msg]"]) auto
  let ?y = "x\<lparr>c_mem := m3, c_out := out3\<rparr>"
  have "transfers w c (w\<lparr>w_mem := c_mem ?y, w_store := c_store ?y\<rparr>)
      (c\<lparr>cn_in := in2, cn_out := c_out ?y, cn_close_after_drain := True\<rparr>)"
    using A' E(3,4) by (intro A' [THEN conjunct2, THEN conjunct2, THEN conjunct1, rule_format]) auto
  then have T: "transfers w c (w\<lparr>w_mem := m3, w_store := c_store x\<rparr>)
      (c\<lparr>cn_in := in2, cn_out := out3, cn_close_after_drain := True\<rparr>)" by simp
  have eq: "w\<lparr>w_store := c_store x, w_mem := m3\<rparr> = w\<lparr>w_mem := m3, w_store := c_store x\<rparr>" by (cases w) simp
  have "transfers w c (w\<lparr>w_store := c_store x, w_mem := m3\<rparr>)
      (c\<lparr>cn_in := in2, cn_out := out3, cn_close_after_drain := True\<rparr>)" unfolding eq by (rule T)
  then show ?thesis
    using inv xinv(2,3) E(1) s q(1) open_ ends
    by (intro servedI [OF _ _ _ _ _ _ s(1) _ _ f, where rs = rs and p = "p @ q"]) (simp_all add: conn_inv_def)
qed

text \<open>The socket would block: everything that came was served.\<close>

lemma served_wait:
  assumes A: "after_dispatch j reads w c Re_Wait de x in2" and open_: "\<not> cn_close_after_drain c" and inv: "conn_inv w c"
    and ok: "de \<noteq> De_Fail"
    and f: "finish_read (w\<lparr>w_mem := c_mem x, w_store := c_store x\<rparr>)
      (c\<lparr>cn_in := in2, cn_out := c_out x, cn_close_after_drain := (de = De_Protocol)\<rparr>) = (r, w', c')"
  shows "served j reads w c r w' c'"
proof -
  note A' = A [unfolded after_dispatch_def]
  have xinv: "ctx_inv x" "ht_inv (c_store x)" "bb_inv (c_out x)" "bb_inv in2" using A' by (simp_all add: ctx_inv_def)
  from A' ok obtain data lost rs p where s: "recv reads = data @ lost" "lost = []"
    "session (\<not> mem_plenty (w_mem w)) (ht_abs (w_store w)) (bb_contents (cn_in c) @ data) rs (ht_abs (c_store x)) (bb_contents in2)"
    "bb_contents (c_out x) = bb_contents (cn_out c) @ concat (map encode_reply rs) @ p"
    "fits (ht_abs (c_store x)) (length (bb_contents in2) + j)"
    and k: "ref_request (bb_contents in2) = (if de = De_Wait then RESP_NEED_MORE else RESP_PROTOCOL_ERR)"
      "errors_sent (\<not> mem_plenty (w_mem w)) (length (bb_contents (cn_out c) @ concat (map encode_reply rs)))
         (syntax_error (bb_contents in2)) p" by auto
  have "de = De_Protocol \<longleftrightarrow> de \<noteq> De_Wait" using ok by (cases de) simp_all
  with k s(2) have "closes_with (\<not> mem_plenty (w_mem w)) (bb_contents (cn_in c) @ data) (bb_contents in2)
      (length (bb_contents (cn_out c) @ concat (map encode_reply rs))) (de = De_Protocol) lost p"
    unfolding closes_with_def by (intro conjI exI [of _ "[]"]) auto
  moreover have "transfers w c (w\<lparr>w_mem := c_mem x, w_store := c_store x\<rparr>)
      (c\<lparr>cn_in := in2, cn_out := c_out x, cn_close_after_drain := (de = De_Protocol)\<rparr>)" using A' by blast
  ultimately show ?thesis
    using inv xinv(2-4) s open_
    by (intro servedI [OF _ _ _ _ _ _ s(1) _ _ f, where rs = rs and p = p]) (simp_all add: conn_inv_def)
qed

lemma handle_read_served:
  assumes inv: "conn_inv w c" and wait: "waits c" and st: "ht_inv (w_store w)"
    and fit: "fits (ht_abs (w_store w)) (length (bb_contents (cn_in c)) + length (recv reads) + j)"
  shows "\<exists>r w' c'. handle_read reads w c = Some (r, w', c') \<and> served j reads w c r w' c'"
proof (cases "cn_close_after_drain c")
  case True
  have "fits (ht_abs (w_store w)) (length (bb_contents (cn_in c)) + j)" using fit by (rule fits_mono) simp
  from handle_read_closing [OF inv wait st True this] show ?thesis .
next
  case open_: False
  obtain re m1 in1 where l: "read_loop (w_mem w) (cn_in c) reads = (re, m1, in1)" by (metis prod_cases3)
  have R: "received (w_mem w) (cn_in c) reads re m1 in1"
    using inv by (intro read_loop_received l) (simp add: conn_inv_def)
  from read_then_dispatch [OF inv st fit l] obtain de x in2 where
    d: "dispatch_frames \<lparr>c_mem = m1, c_store = w_store w, c_out = cn_out c\<rparr> in1 = Some (de, x, in2)"
      "after_dispatch j reads w c re de x in2" by blast
  note hr = handle_read_def [of reads w c] l d(1) open_
  consider (close) "re = Re_Close" | (fail) "re \<noteq> Re_Close" "de = De_Fail"
    | (error) msg where "re = Re_Failed msg" "de \<noteq> De_Fail" | (more) "re = Re_Wait" "de \<noteq> De_Fail" by (cases re) auto
  then show ?thesis
  proof cases
    case close
    have "fits (ht_abs (w_store w)) j" using fit by (rule fits_mono) simp
    then have "served j reads w c RC_ERR (w\<lparr>w_mem := m1\<rparr>) (c\<lparr>cn_in := in1\<rparr>)"
      using transfers_received [OF inv l] inv R st served_nothing [of "w\<lparr>w_mem := m1\<rparr>" w reads c]
      by (simp add: served_def conn_inv_def received_def)
    with close show ?thesis by (simp add: hr)
  next
    case fail
    with served_fail [of j reads w c re x in2] d(2) inv show ?thesis by (simp add: hr)
  next
    case error
    obtain rc m3 out3 where e: "resp_reply_error (c_mem x) (c_out x) msg = (rc, m3, out3)" by (metis prod_cases3)
    obtain r w' c' where f: "finish_read (w\<lparr>w_store := c_store x, w_mem := m3\<rparr>)
      (c\<lparr>cn_in := in2, cn_out := out3, cn_close_after_drain := True\<rparr>) = (r, w', c')" by (metis prod_cases3)
    with served_read_error [OF d(2) open_ inv error(2,1) e f] error e f show ?thesis
      by (cases "de = De_Protocol") (simp_all add: hr Let_def)
  next
    case more
    obtain r w' c' where f: "finish_read (w\<lparr>w_mem := c_mem x, w_store := c_store x\<rparr>)
      (c\<lparr>cn_in := in2, cn_out := c_out x, cn_close_after_drain := (de = De_Protocol)\<rparr>) = (r, w', c')" by (metis prod_cases3)
    have "c\<lparr>cn_in := in2, cn_out := c_out x, cn_close_after_drain := False\<rparr> = c\<lparr>cn_in := in2, cn_out := c_out x\<rparr>"
      using open_ by (cases c) simp
    with served_wait [OF d(2) [unfolded more(1)] open_ inv more(2) f] more f show ?thesis
      by (cases "de = De_Protocol") (simp_all add: hr Let_def)
  qed
qed

end
