(* ===== verification/Net_Server.thy ===== *)
theory Net_Server
  imports Net_Handlers
begin

text \<open>
  The invariant of the whole server and the proof that every batch of events keeps it: each
  connection waits for what it needs and is registered so, descriptors and blocks are exactly
  accounted for, and no freed connection is ever used. At the end of \<open>net_run\<close> only the store is
  left allocated and only the descriptors of the rest of the process are open.
\<close>

section \<open>The invariant\<close>

text \<open>
  \<open>fds\<close> are the descriptors of the rest of the process. The descriptors of the server are the
  listener \<open>l\<close>, the epoll instance \<open>e\<close> and one per connection, all different.
\<close>

definition fd_inv :: "nat set \<Rightarrow> world \<Rightarrow> nat \<Rightarrow> nat \<Rightarrow> bool" where
  "fd_inv fds w l e \<longleftrightarrow>
     w_listen_fd w = Some l \<and> w_epoll_fd w = Some e \<and> distinct (w_open w) \<and>
     distinct (l # e # map cn_fd (w_conns w)) \<and>
     fds \<inter> set (l # e # map cn_fd (w_conns w)) = {} \<and>
     set (w_open w) = fds \<union> set (l # e # map cn_fd (w_conns w)) \<and>
     dom (w_epoll w) = set (l # map cn_fd (w_conns w)) \<and>
     (\<exists>m. w_epoll w l = Some (None, m)) \<and> \<not> w_bad_close w"

definition server_blocks :: "world \<Rightarrow> addr list" where
  "server_blocks w = ht_blocks (w_store w) @ concat (map conn_blocks (w_conns w))"

definition net_inv :: "nat set \<Rightarrow> world \<Rightarrow> bool" where
  "net_inv fds w \<longleftrightarrow>
     ht_inv (w_store w) \<and>
     (\<forall>c\<in>set (w_conns w). conn_inv w c \<and> waits c) \<and>
     (\<exists>l e. fd_inv fds w l e) \<and>
     owns (w_mem w) (server_blocks w) alone"

text \<open>The bytes received and not yet served.\<close>

definition pending :: "conn list \<Rightarrow> nat" where
  "pending cs = sum_list (map (\<lambda>c. length (bb_contents (cn_in c))) cs)"

section \<open>Lists of connections\<close>

lemma cn_self_in_blocks: "cn_self c \<in> set (conn_blocks c)"
  by (simp add: conn_blocks_def)

lemma owns_distinct_selves: "owns m (xs @ concat (map conn_blocks cs)) F \<Longrightarrow> distinct (map cn_self cs)"
proof (induction cs arbitrary: xs)
  case (Cons c cs)
  have "distinct (xs @ conn_blocks c @ concat (map conn_blocks cs))"
    using Cons.prems by (simp add: owns_def)
  moreover have "cn_self d \<in> set (concat (map conn_blocks cs))" if "d \<in> set cs" for d
    using that cn_self_in_blocks by auto
  moreover have "cn_self c \<in> set (conn_blocks c)" by (rule cn_self_in_blocks)
  ultimately have "cn_self c \<notin> cn_self ` set cs"
    by (metis (no_types, lifting) disjoint_iff distinct_append imageE)
  moreover have "distinct (map cn_self cs)"
    using Cons.prems by (intro Cons.IH [of "xs @ conn_blocks c"]) simp
  ultimately show ?case by simp
qed simp

lemma net_inv_selves: "net_inv fds w \<Longrightarrow> distinct (map cn_self (w_conns w))"
  by (auto simp: net_inv_def server_blocks_def dest: owns_distinct_selves)

lemma find_conn_split:
  "find_conn a cs = Some c \<Longrightarrow> \<exists>cs1 cs2. cs = cs1 @ c # cs2 \<and> cn_self c = a \<and> a \<notin> cn_self ` set cs1"
proof (induction cs)
  case (Cons d ds)
  show ?case
  proof (cases "cn_self d = a")
    case True
    with Cons.prems show ?thesis by (intro exI [of _ "[]"] exI [of _ ds]) simp
  next
    case False
    with Cons obtain cs1 cs2 where "ds = cs1 @ c # cs2" "cn_self c = a" "a \<notin> cn_self ` set cs1" by auto
    with False show ?thesis by (intro exI [of _ "d # cs1"] exI [of _ cs2]) simp
  qed
qed simp

lemma find_conn_None: "find_conn a cs = None \<longleftrightarrow> a \<notin> cn_self ` set cs"
  by (induction cs) auto

lemma put_conn_split:
  "cn_self c' = cn_self c \<Longrightarrow> cn_self c \<notin> cn_self ` set cs1 \<Longrightarrow> put_conn c' (cs1 @ c # cs2) = cs1 @ c' # cs2"
  by (induction cs1) auto

lemma unlink_conn_split:
  "cn_self c \<notin> cn_self ` set cs1 \<Longrightarrow> unlink_conn (cn_self c) (cs1 @ c # cs2) = cs1 @ cs2"
  by (induction cs1) auto

lemma pending_split: "pending (cs1 @ c # cs2) = length (bb_contents (cn_in c)) + pending (cs1 @ cs2)"
  by (simp add: pending_def)

section \<open>One connection changes, or goes\<close>

lemma owns_free_conn:
  assumes "owns m (conn_blocks c @ xs) F"
  shows "owns (free_conn c m) xs F"
proof -
  obtain m1 b1 where f1: "bytebuf_free m (cn_in c) = (m1, b1)" by fastforce
  obtain m2 b2 where f2: "bytebuf_free m1 (cn_out c) = (m2, b2)" by fastforce
  have "owns m (bb_blocks (cn_in c) @ bb_blocks (cn_out c) @ cn_self c # xs) F"
    using assms by (rule owns_perm) (simp add: conn_blocks_def)
  then have "owns m1 (bb_blocks (cn_out c) @ cn_self c # xs) F" by (rule bytebuf_free_owns [OF f1])
  then have "owns m2 (cn_self c # xs) F" by (rule bytebuf_free_owns [OF f2])
  then have "owns (mfree (cn_self c) m2) xs F" by (rule owns_mfree)
  then show ?thesis by (simp add: free_conn_def f1 f2)
qed

lemma server_blocks_split:
  "w_conns w = cs1 @ c # cs2 \<Longrightarrow>
   mset (server_blocks w) = mset (ht_blocks (w_store w) @ conn_blocks c @ concat (map conn_blocks (cs1 @ cs2)))"
  by (simp add: server_blocks_def)

lemma update_conn_simps [simp]:
  "w_store (update_conn c w) = w_store w" "w_mem (update_conn c w) = w_mem w"
  "w_epoll (update_conn c w) = w_epoll w" "w_open (update_conn c w) = w_open w"
  "w_listen_fd (update_conn c w) = w_listen_fd w" "w_epoll_fd (update_conn c w) = w_epoll_fd w"
  "w_bad_close (update_conn c w) = w_bad_close w" "w_shutdown (update_conn c w) = w_shutdown w"
  "w_sent (update_conn c w) = w_sent w"
  by (simp_all add: update_conn_def)

lemma net_inv_update:
  assumes inv: "net_inv fds w" and cs: "w_conns w = cs1 @ c # cs2" and t: "transfers w c w' c'"
    and c': "ht_inv (w_store w')" "conn_inv w' c'" "waits c'"
  shows "net_inv fds (update_conn c' w')" "w_conns (update_conn c' w') = cs1 @ c' # cs2"
proof -
  have self: "cn_self c \<notin> cn_self ` set cs1" using net_inv_selves [OF inv] cs by auto
  have T: "cn_self c' = cn_self c" "cn_fd c' = cn_fd c" "w_conns w' = w_conns w"
    "\<And>fd. fd \<noteq> cn_fd c \<Longrightarrow> w_epoll w' fd = w_epoll w fd" using t by (simp_all add: transfers_def)
  show cs': "w_conns (update_conn c' w') = cs1 @ c' # cs2"
    using put_conn_split [OF T(1) self, of cs2] by (simp add: update_conn_def T(3) cs)
  obtain l e where fd: "fd_inv fds w l e" using inv by (auto simp: net_inv_def)
  have ep: "w_epoll w' (cn_fd c) \<noteq> None" "w_epoll w (cn_fd c) \<noteq> None"
    using c'(2) T(2) inv cs by (auto simp: conn_inv_def net_inv_def)
  have dom: "dom (w_epoll w') = dom (w_epoll w)"
  proof (intro set_eqI)
    fix fd
    show "fd \<in> dom (w_epoll w') \<longleftrightarrow> fd \<in> dom (w_epoll w)"
      using T(4) [of fd] ep by (cases "fd = cn_fd c") (auto simp: domIff)
  qed
  have fds: "map cn_fd (w_conns (update_conn c' w')) = map cn_fd (w_conns w)"
    unfolding cs' cs by (simp add: T(2))
  have l: "w_epoll w' l = w_epoll w l" using fd cs by (intro T(4)) (auto simp: fd_inv_def)
  have "fd_inv fds (update_conn c' w') l e"
    using fd t dom l unfolding fd_inv_def fds by (simp add: transfers_def)
  moreover have "conn_inv (update_conn c' w') d \<and> waits d" if "d \<in> set (cs1 @ c' # cs2)" for d
  proof (cases "d = c'")
    case True
    with c' show ?thesis by (simp add: conn_inv_def)
  next
    case False
    with that have d: "d \<in> set (w_conns w)" "d \<in> set cs1 \<union> set cs2" by (auto simp: cs)
    then have "cn_fd d \<noteq> cn_fd c" using fd unfolding fd_inv_def cs by (auto simp: in_set_conv_decomp)
    with d(1) inv T(4) show ?thesis by (auto simp: net_inv_def conn_inv_def)
  qed
  moreover have "owns (w_mem w') (server_blocks (update_conn c' w')) alone"
  proof -
    have "owns (w_mem w) (ht_blocks (w_store w) @ conn_blocks c @ concat (map conn_blocks (cs1 @ cs2))) alone"
      using inv server_blocks_split [OF cs] unfolding net_inv_def by (blast intro: owns_perm)
    then have "owns (w_mem w') (ht_blocks (w_store w') @ conn_blocks c' @ concat (map conn_blocks (cs1 @ cs2))) alone"
      using t unfolding transfers_def by blast
    then show ?thesis
      by (rule owns_perm) (simp add: server_blocks_split [OF cs'])
  qed
  ultimately show "net_inv fds (update_conn c' w')"
    using c'(1) unfolding net_inv_def cs' by auto
qed

text \<open>Closing: whatever \<open>EPOLL_CTL_DEL\<close> answers, the registration is gone with the descriptor.\<close>

lemma close_conn_eq:
  assumes "cn_fd c \<in> set (w_open w)" "w_epoll_fd w \<noteq> None"
  obtains os where "close_conn c w = w\<lparr>w_ctl := os, w_open := removeAll (cn_fd c) (w_open w),
    w_epoll := (w_epoll w)(cn_fd c := None), w_conns := unlink_conn (cn_self c) (w_conns w),
    w_mem := free_conn c (w_mem w)\<rparr>"
proof -
  obtain ok os where k: "ctl_outcome w = (ok, w\<lparr>w_ctl := os\<rparr>)" by (rule ctl_outcome_cases)
  have "close_conn c w = w\<lparr>w_ctl := os, w_open := removeAll (cn_fd c) (w_open w),
    w_epoll := (w_epoll w)(cn_fd c := None), w_conns := unlink_conn (cn_self c) (w_conns w),
    w_mem := free_conn c (w_mem w)\<rparr>"
    using assms k by (cases ok) (simp_all add: close_conn_def epoll_del_def sys_close_def Let_def)
  then show ?thesis by (rule that)
qed

lemma net_inv_close:
  assumes inv: "net_inv fds w" and cs: "w_conns w = cs1 @ c # cs2" and t: "transfers w c w' c'"
    and st: "ht_inv (w_store w')"
  shows "net_inv fds (close_conn c' w')" "w_conns (close_conn c' w') = cs1 @ cs2"
    "w_store (close_conn c' w') = w_store w'"
proof -
  have self: "cn_self c \<notin> cn_self ` set cs1" using net_inv_selves [OF inv] cs by auto
  have T: "cn_self c' = cn_self c" "cn_fd c' = cn_fd c" "w_conns w' = w_conns w" "w_open w' = w_open w"
    "\<And>fd. fd \<noteq> cn_fd c \<Longrightarrow> w_epoll w' fd = w_epoll w fd" using t by (simp_all add: transfers_def)
  obtain l e where fd: "fd_inv fds w l e" using inv by (auto simp: net_inv_def)
  have "cn_fd c' \<in> set (w_open w')" using fd by (simp add: fd_inv_def T cs)
  moreover have "w_epoll_fd w' \<noteq> None" using fd t by (simp add: fd_inv_def transfers_def)
  ultimately obtain os where "close_conn c' w' = w'\<lparr>w_ctl := os, w_open := removeAll (cn_fd c') (w_open w'),
    w_epoll := (w_epoll w')(cn_fd c' := None), w_conns := unlink_conn (cn_self c') (w_conns w'),
    w_mem := free_conn c' (w_mem w')\<rparr>" by (rule close_conn_eq)
  then have eq: "close_conn c' w' = w'\<lparr>w_ctl := os, w_open := removeAll (cn_fd c) (w_open w),
    w_epoll := (w_epoll w')(cn_fd c := None), w_conns := cs1 @ cs2, w_mem := free_conn c' (w_mem w')\<rparr>"
    by (simp only: T cs unlink_conn_split [OF self])
  show "w_conns (close_conn c' w') = cs1 @ cs2" "w_store (close_conn c' w') = w_store w'"
    by (simp_all add: eq)
  have ne: "cn_fd c \<notin> cn_fd ` (set cs1 \<union> set cs2)" "cn_fd c \<noteq> l" "cn_fd c \<noteq> e" "cn_fd c \<notin> fds"
    using fd unfolding fd_inv_def cs by auto
  have ep: "(w_epoll w')(cn_fd c := None) = (w_epoll w)(cn_fd c := None)"
    using T(5) by auto
  have "fd_inv fds (close_conn c' w') l e"
    using fd t ne unfolding fd_inv_def eq ep by (auto simp: cs transfers_def distinct_removeAll)
  moreover have "conn_inv (close_conn c' w') d \<and> waits d" if "d \<in> set (cs1 @ cs2)" for d
  proof -
    have "cn_fd d \<noteq> cn_fd c" using that ne(1) by (metis image_eqI set_append)
    moreover have "conn_inv w d \<and> waits d" using that inv cs by (auto simp: net_inv_def)
    ultimately show ?thesis by (simp add: conn_inv_def eq T(5))
  qed
  moreover have "owns (w_mem (close_conn c' w')) (server_blocks (close_conn c' w')) alone"
  proof -
    have "owns (w_mem w) (ht_blocks (w_store w) @ conn_blocks c @ concat (map conn_blocks (cs1 @ cs2))) alone"
      using inv server_blocks_split [OF cs] unfolding net_inv_def by (blast intro: owns_perm)
    then have "owns (w_mem w') (ht_blocks (w_store w') @ conn_blocks c' @ concat (map conn_blocks (cs1 @ cs2))) alone"
      using t unfolding transfers_def by blast
    then have "owns (w_mem w') (conn_blocks c' @ ht_blocks (w_store w') @ concat (map conn_blocks (cs1 @ cs2))) alone"
      by (rule owns_perm) simp
    then show ?thesis by (simp add: eq server_blocks_def owns_free_conn)
  qed
  ultimately show "net_inv fds (close_conn c' w')"
    using st unfolding net_inv_def by (auto simp: eq)
qed

section \<open>Accepting\<close>

lemma next_free_props: "k \<le> next_free k used \<and> next_free k used \<notin> set used"
proof (induction k used rule: next_free.induct)
  case (1 k used)
  show ?case
  proof (cases "k \<in> set used")
    case True
    with 1 have "Suc k \<le> next_free (Suc k) (removeAll k used)"
      "next_free (Suc k) (removeAll k used) \<notin> set (removeAll k used)" by blast+
    with True show ?thesis by (subst (1 2) next_free.simps) auto
  next
    case False
    then show ?thesis by (subst (1 2) next_free.simps) simp
  qed
qed

text \<open>The invariant reads only some of the fields.\<close>

lemma net_inv_same:
  assumes "net_inv fds w" "w_store w' = w_store w" "w_conns w' = w_conns w" "w_listen_fd w' = w_listen_fd w"
    "w_epoll_fd w' = w_epoll_fd w" "w_open w' = w_open w" "w_epoll w' = w_epoll w"
    "w_bad_close w' = w_bad_close w" "owns (w_mem w') (server_blocks w) alone"
  shows "net_inv fds w'"
  using assms by (simp add: net_inv_def fd_inv_def conn_inv_def server_blocks_def)

text \<open>Closing a descriptor that was just opened and never registered undoes the opening.\<close>

lemma open_close:
  assumes "cfd \<notin> set (w_open w)" "w_epoll w cfd = None" "w_open w1 = cfd # w_open w" "w_epoll w1 = w_epoll w"
  shows "sys_close cfd w1 = w1\<lparr>w_open := w_open w, w_epoll := w_epoll w\<rparr>"
proof -
  have "removeAll cfd (cfd # w_open w) = w_open w" using assms(1) by simp
  moreover have "(w_epoll w)(cfd := None) = w_epoll w" using assms(2) by auto
  ultimately show ?thesis using assms(3,4) by (simp add: sys_close_def)
qed

lemma new_conn_events: "(new_conn a fd ev)\<lparr>cn_events := ev'\<rparr> = new_conn a fd ev'"
  by (simp add: new_conn_def)

lemma waits_new_conn: "waits (new_conn a fd EPOLLIN)"
  using EPOLL_masks by (simp add: waits_def want_events_cases new_conn_def bytebuf_len_def bytebuf_init_def)

lemma net_inv_add:
  assumes inv: "net_inv fds w" and cfd: "cfd \<notin> set (w_open w)" "cfd \<notin> fds"
    and w': "w_store w' = w_store w" "w_conns w' = new_conn a cfd EPOLLIN # w_conns w" "w_listen_fd w' = w_listen_fd w"
      "w_epoll_fd w' = w_epoll_fd w" "w_open w' = cfd # w_open w"
      "w_epoll w' = (w_epoll w)(cfd \<mapsto> (Some a, EPOLLIN))" "w_bad_close w' = w_bad_close w"
      "owns (w_mem w') (a # server_blocks w) alone"
  shows "net_inv fds w'"
proof -
  obtain l e where fd: "fd_inv fds w l e" using inv by (auto simp: net_inv_def)
  have ne: "cfd \<notin> set (l # e # map cn_fd (w_conns w))" using fd cfd by (auto simp: fd_inv_def)
  have "fd_inv fds w' l e"
    using fd ne cfd unfolding fd_inv_def w' by (auto simp: new_conn_def)
  moreover have "conn_inv w' d \<and> waits d" if "d \<in> set (w_conns w')" for d
  proof (cases "d = new_conn a cfd EPOLLIN")
    case True
    then show ?thesis using waits_new_conn by (simp add: conn_inv_def w' new_conn_def)
  next
    case False
    with that have d: "d \<in> set (w_conns w)" by (simp add: w')
    then have "cn_fd d \<noteq> cfd" using ne by auto
    with d inv show ?thesis by (auto simp: net_inv_def conn_inv_def w')
  qed
  moreover have "owns (w_mem w') (server_blocks w') alone"
    using w'(8) by (rule owns_perm) (simp add: server_blocks_def w' conn_blocks_def new_conn_def)
  ultimately show ?thesis using inv by (auto simp: net_inv_def w')
qed

definition opened :: "nat \<Rightarrow> world \<Rightarrow> world" where
  "opened cfd w = w\<lparr>w_open := cfd # w_open w\<rparr>"

lemma sys_open_fresh:
  assumes "net_inv fds w"
  obtains cfd where "sys_open k w = (cfd, opened cfd w)" "cfd \<notin> set (w_open w)" "w_epoll w cfd = None" "cfd \<notin> fds"
proof -
  define cfd where "cfd = next_free k (w_open w)"
  have cfd: "cfd \<notin> set (w_open w)" using next_free_props by (simp add: cfd_def)
  obtain l e where fd: "fd_inv fds w l e" using assms by (auto simp: net_inv_def)
  have "dom (w_epoll w) \<subseteq> set (w_open w)" "fds \<subseteq> set (w_open w)" using fd by (auto simp: fd_inv_def)
  with cfd have "w_epoll w cfd = None" "cfd \<notin> fds" by blast+
  with cfd that show ?thesis by (simp add: sys_open_def cfd_def opened_def Let_def)
qed

text \<open>The three ways in which an accepted socket is given up again.\<close>

lemma give_up:
  assumes inv: "net_inv fds w" and cfd: "cfd \<notin> set (w_open w)" "w_epoll w cfd = None"
    and w1: "w_store w1 = w_store w" "w_conns w1 = w_conns w" "w_listen_fd w1 = w_listen_fd w"
      "w_epoll_fd w1 = w_epoll_fd w" "w_open w1 = cfd # w_open w" "w_epoll w1 = w_epoll w"
      "w_bad_close w1 = w_bad_close w" "owns (w_mem w1) (server_blocks w) alone"
  shows "net_inv fds (sys_close cfd w1)" "w_store (sys_close cfd w1) = w_store w"
    "w_conns (sys_close cfd w1) = w_conns w"
proof -
  have eq: "sys_close cfd w1 = w1\<lparr>w_open := w_open w, w_epoll := w_epoll w\<rparr>"
    by (rule open_close [OF cfd w1(5,6)])
  show "net_inv fds (sys_close cfd w1)" by (rule net_inv_same [OF inv]) (simp_all add: eq w1)
  show "w_store (sys_close cfd w1) = w_store w" "w_conns (sys_close cfd w1) = w_conns w"
    by (simp_all add: eq w1)
qed

lemma accept_one_register:
  assumes inv: "net_inv fds w" and cfd: "cfd \<notin> set (w_open w)" "w_epoll w cfd = None" "cfd \<notin> fds"
    and own: "owns (w_mem w2) (a # server_blocks w) alone"
    and w2: "w_store w2 = w_store w" "w_conns w2 = new_conn a cfd 0 # w_conns w" "w_listen_fd w2 = w_listen_fd w"
      "w_epoll_fd w2 = w_epoll_fd w" "w_open w2 = cfd # w_open w" "w_epoll w2 = w_epoll w"
      "w_bad_close w2 = w_bad_close w"
    and e: "epoll_set cfd (Some a) EPOLLIN w2 = (r, w3)"
  shows "r = RC_ERR \<Longrightarrow> w' = sys_close cfd (w3\<lparr>w_conns := tl (w_conns w3),
       w_mem := free_conn (new_conn a cfd 0) (w_mem w3)\<rparr>) \<Longrightarrow>
     net_inv fds w' \<and> w_store w' = w_store w \<and> w_conns w' = w_conns w"
    "r = RC_OK \<Longrightarrow> w' = w3\<lparr>w_conns := (new_conn a cfd 0)\<lparr>cn_events := EPOLLIN\<rparr> # tl (w_conns w3)\<rparr> \<Longrightarrow>
     net_inv fds w' \<and> w_store w' = w_store w \<and> w_conns w' = new_conn a cfd EPOLLIN # w_conns w"
proof -
  obtain ok os where k: "ctl_outcome w2 = (ok, w2\<lparr>w_ctl := os\<rparr>)" by (rule ctl_outcome_cases)
  show "net_inv fds w' \<and> w_store w' = w_store w \<and> w_conns w' = w_conns w"
    if r: "r = RC_ERR" and w': "w' = sys_close cfd (w3\<lparr>w_conns := tl (w_conns w3),
       w_mem := free_conn (new_conn a cfd 0) (w_mem w3)\<rparr>)"
  proof -
    have w3: "w3 = w2\<lparr>w_ctl := os\<rparr>" using e k r by (simp add: epoll_set_def split: if_splits)
    have "owns (w_mem w2) (conn_blocks (new_conn a cfd 0) @ server_blocks w) alone"
      using own by (simp add: conn_blocks_def new_conn_def)
    then have "owns (free_conn (new_conn a cfd 0) (w_mem w2)) (server_blocks w) alone" by (rule owns_free_conn)
    then show ?thesis unfolding w' w3 by (intro conjI give_up [OF inv cfd(1,2)]) (simp_all add: w2)
  qed
  show "net_inv fds w' \<and> w_store w' = w_store w \<and> w_conns w' = new_conn a cfd EPOLLIN # w_conns w"
    if r: "r = RC_OK" and w': "w' = w3\<lparr>w_conns := (new_conn a cfd 0)\<lparr>cn_events := EPOLLIN\<rparr> # tl (w_conns w3)\<rparr>"
  proof -
    have w3: "w3 = w2\<lparr>w_ctl := os, w_epoll := (w_epoll w)(cfd \<mapsto> (Some a, EPOLLIN))\<rparr>"
      using e k r by (simp add: epoll_set_def w2 split: if_splits)
    have "net_inv fds w'"
      by (rule net_inv_add [OF inv cfd(1,3), of w' a]) (simp_all add: w' w3 w2 own new_conn_events)
    then show ?thesis by (simp add: w' w3 w2 new_conn_events)
  qed
qed

lemma accept_one_inv:
  assumes inv: "net_inv fds w"
  shows "net_inv fds (accept_one k b w) \<and> w_store (accept_one k b w) = w_store w \<and>
    (w_conns (accept_one k b w) = w_conns w \<or>
     (\<exists>a fd. w_conns (accept_one k b w) = new_conn a fd EPOLLIN # w_conns w))"
proof -
  obtain cfd where so: "sys_open k w = (cfd, opened cfd w)"
    and cfd: "cfd \<notin> set (w_open w)" "w_epoll w cfd = None" "cfd \<notin> fds" by (rule sys_open_fresh [OF inv])
  have own: "owns (w_mem w) (server_blocks w) alone" using inv by (simp add: net_inv_def)
  obtain p m' where m: "malloc (w_mem w) = (p, m')" by fastforce
  consider (mode) "\<not> b" | (oom) "b" "p = None" | (ok) a where "b" "p = Some a" by (cases p) auto
  then show ?thesis
  proof cases
    case mode
    then have "accept_one k b w = sys_close cfd (opened cfd w)" by (simp add: accept_one_def so)
    with give_up [OF inv cfd(1,2), of "opened cfd w"] own show ?thesis by (simp add: opened_def)
  next
    case oom
    then have "accept_one k b w = sys_close cfd ((opened cfd w)\<lparr>w_mem := m'\<rparr>)"
      using m by (simp add: accept_one_def so opened_def)
    with give_up [OF inv cfd(1,2), of "(opened cfd w)\<lparr>w_mem := m'\<rparr>"] owns_malloc_None [OF own] m oom
    show ?thesis by (simp add: opened_def)
  next
    case ok
    define w2 where "w2 = (opened cfd w)\<lparr>w_mem := m', w_conns := new_conn a cfd 0 # w_conns w\<rparr>"
    obtain r w3 where e: "epoll_set cfd (Some a) EPOLLIN w2 = (r, w3)" by fastforce
    have owna: "owns (w_mem w2) (a # server_blocks w) alone"
      using owns_malloc [OF own] m ok by (simp add: w2_def)
    have ac: "accept_one k b w = (case r of
         RC_ERR \<Rightarrow> sys_close cfd (w3\<lparr>w_conns := tl (w_conns w3), w_mem := free_conn (new_conn a cfd 0) (w_mem w3)\<rparr>)
       | RC_OK \<Rightarrow> w3\<lparr>w_conns := (new_conn a cfd 0)\<lparr>cn_events := EPOLLIN\<rparr> # tl (w_conns w3)\<rparr>)"
      using m ok e by (simp add: accept_one_def so w2_def opened_def Let_def)
    note R = accept_one_register [OF inv cfd owna _ _ _ _ _ _ _ e, of "accept_one k b w"]
    show ?thesis using R ac by (cases r) (auto simp: w2_def opened_def)
  qed
qed

text \<open>What an event leaves: the invariant, and the connections other events may still name.\<close>

lemma accept_clients_inv:
  "net_inv fds w \<Longrightarrow> net_inv fds (accept_clients rs w) \<and> w_store (accept_clients rs w) = w_store w \<and>
   cn_self ` set (w_conns w) \<subseteq> cn_self ` set (w_conns (accept_clients rs w)) \<and>
   pending (w_conns (accept_clients rs w)) = pending (w_conns w)"
proof (induction rs arbitrary: w)
  case (Cons r rs)
  show ?case
  proof (cases r)
    case (Ac_Conn k b)
    have A: "net_inv fds (accept_one k b w)" "w_store (accept_one k b w) = w_store w"
      "w_conns (accept_one k b w) = w_conns w \<or>
       (\<exists>a fd. w_conns (accept_one k b w) = new_conn a fd EPOLLIN # w_conns w)"
      using accept_one_inv [OF Cons.prems] by blast+
    have "pending (w_conns (accept_one k b w)) = pending (w_conns w)"
      using A(3) by (auto simp: pending_def new_conn_def)
    moreover have "cn_self ` set (w_conns w) \<subseteq> cn_self ` set (w_conns (accept_one k b w))"
      using A(3) by auto
    ultimately show ?thesis using Cons.IH [OF A(1)] A(2) Ac_Conn by auto
  qed (use Cons in auto)
qed simp

section \<open>Events\<close>

lemma write_event_inv:
  assumes inv: "net_inv fds w" and cs: "w_conns w = cs1 @ c # cs2" and t: "transfers w c w1 c1"
    and st: "ht_inv (w_store w1)" and c1: "conn_inv w1 c1" "waits c1"
  shows "net_inv fds (write_event e w1 c1) \<and> w_store (write_event e w1 c1) = w_store w1 \<and>
    (w_conns (write_event e w1 c1) = cs1 @ cs2 \<or>
     (\<exists>d. cn_in d = cn_in c1 \<and> cn_self d = cn_self c \<and> w_conns (write_event e w1 c1) = cs1 @ d # cs2))"
proof (cases "has_event (ev_mask e) EPOLLOUT")
  case False
  with net_inv_update [OF inv cs t st c1] t show ?thesis by (auto simp: write_event_def transfers_def)
next
  case True
  obtain r w2 c2 where h: "handle_write (ev_writes e) w1 c1 = (r, w2, c2)" by (metis prod_cases3)
  note H = handle_write_props [OF c1 h]
  have st2: "ht_inv (w_store w2)" using st H(3) by simp
  note t2 = transfers_trans [OF t H(1)]
  show ?thesis
  proof (cases r)
    case RC_ERR
    with net_inv_close [OF inv cs t2 st2] True h H(3) show ?thesis by (simp add: write_event_def)
  next
    case RC_OK
    have "cn_self c2 = cn_self c" using t2 by (simp add: transfers_def)
    with net_inv_update [OF inv cs t2 st2 H(2) H(5) [OF RC_OK]] True h H(3,4) RC_OK show ?thesis
      by (auto simp: write_event_def)
  qed
qed

definition event_bytes :: "event list \<Rightarrow> nat" where
  "event_bytes es = sum_list (map (\<lambda>e. length (recv (ev_reads e))) es)"

lemma client_event_inv:
  assumes inv: "net_inv fds w" and cs: "w_conns w = cs1 @ c # cs2"
    and fit: "fits (ht_abs (w_store w)) (pending (w_conns w) + length (recv (ev_reads e)) + j)"
  shows "\<exists>w'. client_event e w c = Some w' \<and> net_inv fds w' \<and>
    fits (ht_abs (w_store w')) (pending (w_conns w') + j) \<and>
    cn_self ` set (w_conns w) - {cn_self c} \<subseteq> cn_self ` set (w_conns w')"
proof -
  have c: "conn_inv w c" "waits c" "ht_inv (w_store w)" using inv cs by (auto simp: net_inv_def)
  let ?p = "pending (cs1 @ cs2)"
  have fit': "fits (ht_abs (w_store w)) (length (bb_contents (cn_in c)) + length (recv (ev_reads e)) + (?p + j))"
    using fit by (simp add: cs pending_split ac_simps)
  have wr: "\<exists>w'. Some (write_event e w1 c1) = Some w' \<and> net_inv fds w' \<and>
      fits (ht_abs (w_store w')) (pending (w_conns w') + j) \<and>
      cn_self ` set (w_conns w) - {cn_self c} \<subseteq> cn_self ` set (w_conns w')"
    if t: "transfers w c w1 c1" and st: "ht_inv (w_store w1)" and c1: "conn_inv w1 c1" "waits c1"
      and f: "fits (ht_abs (w_store w1)) (length (bb_contents (cn_in c1)) + (?p + j))" for w1 c1
    using write_event_inv [OF inv cs t st c1, of e] f fits_mono [OF f, of "?p + j"]
    by (auto simp: cs pending_split add.assoc)
  consider (err) "has_event (ev_mask e) (EPOLLERR OR EPOLLHUP)"
    | (read) "\<not> has_event (ev_mask e) (EPOLLERR OR EPOLLHUP)" "has_event (ev_mask e) EPOLLIN"
    | (none) "\<not> has_event (ev_mask e) (EPOLLERR OR EPOLLHUP)" "\<not> has_event (ev_mask e) EPOLLIN" by blast
  then show ?thesis
  proof cases
    case err
    with net_inv_close [OF inv cs transfers_refl c(3)] fits_mono [OF fit', of "?p + j"] show ?thesis
      by (auto simp: client_event_def cs)
  next
    case none
    have "fits (ht_abs (w_store w)) (length (bb_contents (cn_in c)) + (?p + j))"
      using fit' by (rule fits_mono) simp
    from wr [OF transfers_refl c(3) c(1,2) this] none show ?thesis by (simp add: client_event_def)
  next
    case read
    from handle_read_served [OF c fit'] obtain r w1 c1 where
      h: "handle_read (ev_reads e) w c = Some (r, w1, c1)" and s: "served (?p + j) (ev_reads e) w c r w1 c1" by blast
    have S: "transfers w c w1 c1" "conn_inv w1 c1" "ht_inv (w_store w1)"
      "fits (ht_abs (w_store w1)) ((if r = RC_OK then length (bb_contents (cn_in c1)) else 0) + (?p + j))"
      "r = RC_OK \<longrightarrow> waits c1" using s by (simp_all add: served_def)
    show ?thesis
    proof (cases r)
      case RC_ERR
      with net_inv_close [OF inv cs S(1,3)] S(4) h read show ?thesis
        by (auto simp: client_event_def cs)
    next
      case RC_OK
      with wr [OF S(1,3,2)] S(4,5) h read show ?thesis by (simp add: client_event_def)
    qed
  qed
qed

section \<open>Batches and runs\<close>

text \<open>
  What \<open>epoll_wait\<close> documents of a batch: at most \<open>MAX_EVENTS\<close> events, one per registered
  descriptor, each with the pointer of a registration.
\<close>

definition registered :: "world \<Rightarrow> addr \<Rightarrow> bool" where
  "registered w a \<longleftrightarrow>
     list_ex (\<lambda>fd. case w_epoll w fd of Some (Some b, _) \<Rightarrow> b = a | _ \<Rightarrow> False) (w_open w)"

definition batch_ok :: "event list \<Rightarrow> world \<Rightarrow> bool" where
  "batch_ok es w \<longleftrightarrow> length es \<le> MAX_EVENTS \<and> distinct (map ev_ptr es) \<and>
     (\<forall>e\<in>set es. case ev_ptr e of None \<Rightarrow> True | Some a \<Rightarrow> registered w a)"

fun wait_ok :: "wait_result list \<Rightarrow> world \<Rightarrow> bool" where
  "wait_ok [] w = True"
| "wait_ok (r # rs) w =
     (let again = (\<lambda>w. w_shutdown w \<or> wait_ok rs w) in
      case r of
        Ew_Early \<Rightarrow> wait_ok rs (on_signal w)
      | Ew_Intr sig \<Rightarrow> again (if sig then on_signal w else w)
      | Ew_Fatal \<Rightarrow> True
      | Ew_Events sig es \<Rightarrow> batch_ok es w \<and>
          (case net_batch es w of
             None \<Rightarrow> True
           | Some w' \<Rightarrow> again (if sig then on_signal w' else w')))"

definition run_ok :: "wait_result list \<Rightarrow> world \<Rightarrow> bool" where
  "run_ok rs w \<longleftrightarrow> w_shutdown w \<or> wait_ok rs w"

lemma wait_ok_turn:
  "wait_ok (r # rs) w =
     (case r of
        Ew_Early \<Rightarrow> wait_ok rs (on_signal w)
      | Ew_Intr sig \<Rightarrow> run_ok rs (if sig then on_signal w else w)
      | Ew_Fatal \<Rightarrow> True
      | Ew_Events sig es \<Rightarrow> batch_ok es w \<and>
          (case net_batch es w of None \<Rightarrow> True | Some w' \<Rightarrow> run_ok rs (if sig then on_signal w' else w')))"
  by (simp only: wait_ok.simps run_ok_def Let_def)

lemma run_ok_turn [simp]: "w_shutdown w \<Longrightarrow> run_ok rs w" "\<not> w_shutdown w \<Longrightarrow> run_ok rs w = wait_ok rs w"
  by (simp_all add: run_ok_def)

lemma run_ok_nil [simp]: "run_ok [] w"
  by (simp add: run_ok_def)

lemmas wait_ok_simps [simp] = wait_ok.simps(1) wait_ok_turn

declare wait_ok.simps(2) [simp del]

text \<open>The bytes a run receives.\<close>

fun wait_bytes :: "wait_result \<Rightarrow> nat" where
  "wait_bytes (Ew_Events sig es) = event_bytes es"
| "wait_bytes Ew_Early = 0"
| "wait_bytes (Ew_Intr sig) = 0"
| "wait_bytes Ew_Fatal = 0"

definition run_bytes :: "wait_result list \<Rightarrow> nat" where
  "run_bytes rs = sum_list (map wait_bytes rs)"

lemma registered_self:
  assumes "net_inv fds w" "registered w a"
  shows "a \<in> cn_self ` set (w_conns w)"
proof -
  from assms(2) obtain fd where "case w_epoll w fd of Some (Some b, _) \<Rightarrow> b = a | _ \<Rightarrow> False"
    by (auto simp: registered_def list_ex_iff)
  then obtain m where fd: "w_epoll w fd = Some (Some a, m)"
    by (cases "w_epoll w fd") (auto split: option.splits)
  obtain l e where inv: "fd_inv fds w l e" using assms(1) by (auto simp: net_inv_def)
  have "fd \<noteq> l" using inv fd by (auto simp: fd_inv_def)
  moreover have "fd \<in> set (l # map cn_fd (w_conns w))" using inv fd by (auto simp: fd_inv_def)
  ultimately obtain c where "c \<in> set (w_conns w)" "fd = cn_fd c" by auto
  with assms(1) fd show ?thesis by (auto simp: net_inv_def conn_inv_def)
qed

lemma net_inv_on_signal: "net_inv fds w \<Longrightarrow> net_inv fds (on_signal w)"
  by (simp add: on_signal_def net_inv_def fd_inv_def conn_inv_def server_blocks_def)

lemma on_signal_simps [simp]: "w_store (on_signal w) = w_store w" "w_conns (on_signal w) = w_conns w"
  by (simp_all add: on_signal_def)

text \<open>The events of a batch that are handled: an error of the listener ends it.\<close>

definition listener_fails :: "event \<Rightarrow> bool" where
  "listener_fails e \<longleftrightarrow> ev_ptr e = None \<and> has_event (ev_mask e) (EPOLLERR OR EPOLLHUP)"

definition handled :: "event list \<Rightarrow> event list" where
  "handled es = takeWhile (\<lambda>e. \<not> listener_fails e) es"

text \<open>The events that a run of \<open>net_loop\<close> handles.\<close>

fun wait_events :: "wait_result list \<Rightarrow> world \<Rightarrow> event list" where
  "wait_events [] w = []"
| "wait_events (r # rs) w =
     (let again = (\<lambda>w. if w_shutdown w then [] else wait_events rs w) in
      case r of
        Ew_Early \<Rightarrow> wait_events rs (on_signal w)
      | Ew_Intr sig \<Rightarrow> again (if sig then on_signal w else w)
      | Ew_Fatal \<Rightarrow> []
      | Ew_Events sig es \<Rightarrow> handled es @
          (case net_batch es w of None \<Rightarrow> [] | Some w' \<Rightarrow> again (if sig then on_signal w' else w')))"

definition loop_events :: "wait_result list \<Rightarrow> world \<Rightarrow> event list" where
  "loop_events rs w = (if w_shutdown w then [] else wait_events rs w)"

lemma wait_events_turn:
  "wait_events (r # rs) w =
     (case r of
        Ew_Early \<Rightarrow> wait_events rs (on_signal w)
      | Ew_Intr sig \<Rightarrow> loop_events rs (if sig then on_signal w else w)
      | Ew_Fatal \<Rightarrow> []
      | Ew_Events sig es \<Rightarrow> handled es @
          (case net_batch es w of None \<Rightarrow> [] | Some w' \<Rightarrow> loop_events rs (if sig then on_signal w' else w')))"
  by (simp only: wait_events.simps loop_events_def Let_def)

lemma loop_events_turn [simp]:
  "w_shutdown w \<Longrightarrow> loop_events rs w = []" "\<not> w_shutdown w \<Longrightarrow> loop_events rs w = wait_events rs w"
  by (simp_all add: loop_events_def)

lemma loop_events_nil [simp]: "loop_events [] w = []"
  by (simp add: loop_events_def)

lemmas wait_events_simps [simp] = wait_events.simps(1) wait_events_turn

declare wait_events.simps(2) [simp del]

text \<open>Nothing in a batch clears the flag.\<close>

lemma ctl_outcome_shutdown: "ctl_outcome w = (ok, w') \<Longrightarrow> w_shutdown w' = w_shutdown w"
  by (auto simp: ctl_outcome_def split: list.splits)

lemma epoll_shutdown:
  "epoll_set fd p ev w = (r, w') \<Longrightarrow> w_shutdown w' = w_shutdown w" "w_shutdown (epoll_del fd w) = w_shutdown w"
  "arm_events w c ev = (r, w', c') \<Longrightarrow> w_shutdown w' = w_shutdown w" "w_shutdown (sys_close fd w) = w_shutdown w"
  by (auto simp: epoll_set_def epoll_del_def arm_events_def sys_close_def dest: ctl_outcome_shutdown
      split: prod.splits if_splits rc.splits)

lemma close_conn_shutdown: "w_shutdown (close_conn c w) = w_shutdown w"
  by (simp add: close_conn_def Let_def epoll_shutdown)

lemma handle_shutdown:
  "handle_read reads w c = Some (r, w', c') \<Longrightarrow> w_shutdown w' = w_shutdown w"
  "handle_write writes w c = (r, w', c') \<Longrightarrow> w_shutdown w' = w_shutdown w"
  by (auto simp: handle_read_def finish_read_def handle_write_def Let_def dest: epoll_shutdown(3) split: prod.splits if_splits
      bind_splits read_end.splits write_end.splits)

lemma client_event_shutdown: "client_event e w c = Some w' \<Longrightarrow> w_shutdown w' = w_shutdown w"
  by (auto simp: client_event_def write_event_def close_conn_shutdown update_conn_def
      dest: handle_shutdown split: prod.splits if_splits bind_splits rc.splits)

lemma accept_one_shutdown: "w_shutdown (accept_one k b w) = w_shutdown w"
  by (auto simp: accept_one_def sys_open_def Let_def epoll_shutdown(4) dest: epoll_shutdown(1) split: option.splits prod.splits rc.splits)

lemma accept_clients_shutdown: "w_shutdown (accept_clients rs w) = w_shutdown w"
  by (induction rs arbitrary: w) (auto simp: accept_one_shutdown split: accept_result.splits)

lemma net_batch_shutdown: "net_batch es w = Some w' \<Longrightarrow> w_shutdown w \<Longrightarrow> w_shutdown w'"
  by (induction es arbitrary: w)
    (auto simp: accept_clients_shutdown dest: client_event_shutdown split: option.splits if_splits bind_splits)

text \<open>
  When the loop ends: after an error of \<open>epoll_wait\<close>, a signal that finds it in a wait or in a batch, or any
  return of \<open>epoll_wait\<close> once a signal was missed. A missed signal alone does not end it.
\<close>

fun wait_stops :: "wait_result \<Rightarrow> bool" where
  "wait_stops Ew_Early = False"
| "wait_stops (Ew_Intr sig) = sig"
| "wait_stops Ew_Fatal = True"
| "wait_stops (Ew_Events sig es) = sig"

fun run_stops :: "wait_result list \<Rightarrow> bool" where
  "run_stops [] = False"
| "run_stops (r # rs) = (wait_stops r \<or> (r = Ew_Early \<and> list_ex (\<lambda>r. r \<noteq> Ew_Early) rs) \<or> run_stops rs)"

lemma missed_signals_wait:
  assumes "list_all (\<lambda>r. r = Ew_Early) rs" "\<not> w_shutdown w"
  shows "net_run rs w = None"
proof -
  have "\<exists>w'. net_wait rs w = Some (False, w')" for w using assms(1) by (induction rs arbitrary: w) auto
  then obtain w' where "net_wait rs w = Some (False, w')" by blast
  with assms(2) show ?thesis by (simp add: net_run_def)
qed

lemma run_stops_iff:
  "run_stops rs \<longleftrightarrow> list_ex wait_stops rs \<or>
     (\<exists>before after. rs = before @ Ew_Early # after \<and> list_ex (\<lambda>r. r \<noteq> Ew_Early) after)"
  by (induction rs) (auto simp: Cons_eq_append_conv)

text \<open>
  A property of a run: it holds of the events handled so far and the world they left. If accepting,
  each event of a client and a signal keep it, so do batches and the whole loop, which also
  return and keep the invariant.
\<close>

definition all_known :: "event list \<Rightarrow> world \<Rightarrow> bool" where
  "all_known es w \<longleftrightarrow> distinct (map ev_ptr es) \<and>
     (\<forall>e\<in>set es. \<forall>a. ev_ptr e = Some a \<longrightarrow> a \<in> cn_self ` set (w_conns w))"

lemma batch_known: "net_inv fds w \<Longrightarrow> batch_ok es w \<Longrightarrow> all_known es w"
  using registered_self by (fastforce simp: batch_ok_def all_known_def)

lemma all_known_tl:
  assumes "all_known (e # es) w" "\<And>a. a \<in> cn_self ` set (w_conns w) \<Longrightarrow> ev_ptr e \<noteq> Some a \<Longrightarrow> a \<in> cn_self ` set (w_conns w')"
  shows "all_known es w'"
proof -
  have "ev_ptr e \<notin> ev_ptr ` set es" using assms(1) by (simp add: all_known_def)
  then have "ev_ptr e \<noteq> Some a" if "d \<in> set es" "ev_ptr d = Some a" for d a
    using that by (metis image_eqI)
  moreover have "a \<in> cn_self ` set (w_conns w)" if "d \<in> set es" "ev_ptr d = Some a" for d a
    using assms(1) that by (simp add: all_known_def)
  ultimately have "a \<in> cn_self ` set (w_conns w')" if "d \<in> set es" "ev_ptr d = Some a" for d a
    using assms(2) that by simp
  then show ?thesis using assms(1) by (simp add: all_known_def)
qed

locale server_property =
  fixes fds :: "nat set" and P :: "event list \<Rightarrow> world \<Rightarrow> bool"
  assumes accepts: "net_inv fds w \<Longrightarrow> ev_ptr e = None \<Longrightarrow> P es w \<Longrightarrow> P (es @ [e]) (accept_clients (ev_accepts e) w)"
    and clients: "net_inv fds w \<Longrightarrow> w_conns w = cs1 @ c # cs2 \<Longrightarrow> ev_ptr e = Some (cn_self c) \<Longrightarrow>
      fits (ht_abs (w_store w)) (pending (w_conns w) + length (recv (ev_reads e)) + j) \<Longrightarrow>
      client_event e w c = Some w' \<Longrightarrow> P es w \<Longrightarrow> P (es @ [e]) w'"
    and signals: "P es w \<Longrightarrow> P es (on_signal w)"
begin

lemma batch:
  "net_inv fds w \<Longrightarrow> fits (ht_abs (w_store w)) (pending (w_conns w) + event_bytes es + j) \<Longrightarrow> all_known es w \<Longrightarrow> P es0 w \<Longrightarrow>
   \<exists>w'. net_batch es w = Some w' \<and> net_inv fds w' \<and> fits (ht_abs (w_store w')) (pending (w_conns w') + j) \<and>
     P (es0 @ handled es) w'"
proof (induction es arbitrary: w es0)
  case Nil
  then show ?case by (simp add: event_bytes_def handled_def)
next
  case (Cons e es)
  have eb: "event_bytes (e # es) = length (recv (ev_reads e)) + event_bytes es" by (simp add: event_bytes_def)
  show ?case
  proof (cases "ev_ptr e")
    case None
    show ?thesis
    proof (cases "has_event (ev_mask e) (EPOLLERR OR EPOLLHUP)")
      case True
      have "fits (ht_abs (w_store w)) (pending (w_conns w) + j)" using Cons.prems(2) by (rule fits_mono) simp
      with signals [OF Cons.prems(4)] net_inv_on_signal [OF Cons.prems(1)] True None show ?thesis
        by (simp add: on_signal_def handled_def listener_fails_def)
    next
      case False
      note A = accept_clients_inv [OF Cons.prems(1), of "ev_accepts e"]
      let ?w1 = "accept_clients (ev_accepts e) w"
      have "fits (ht_abs (w_store ?w1)) (pending (w_conns ?w1) + event_bytes es + j)"
        using fits_mono [OF Cons.prems(2), of "pending (w_conns w) + event_bytes es + j"] A by (simp add: eb)
      moreover have "all_known es ?w1" by (rule all_known_tl [OF Cons.prems(3) subsetD]) (simp_all add: A)
      ultimately show ?thesis
        using Cons.IH [of ?w1 "es0 @ [e]"] A accepts [OF Cons.prems(1) None Cons.prems(4)] None False
        by (simp add: handled_def listener_fails_def)
    qed
  next
    case (Some a)
    then have "a \<in> cn_self ` set (w_conns w)" using Cons.prems(3) by (simp add: all_known_def)
    then obtain c where f: "find_conn a (w_conns w) = Some c" using find_conn_None by fastforce
    from find_conn_split [OF f] obtain cs1 cs2 where cs: "w_conns w = cs1 @ c # cs2" "cn_self c = a" by blast
    have fit: "fits (ht_abs (w_store w)) (pending (w_conns w) + length (recv (ev_reads e)) + (event_bytes es + j))"
      using Cons.prems(2) by (simp add: eb ac_simps)
    from client_event_inv [OF Cons.prems(1) cs(1) this] obtain w1 where
      w1: "client_event e w c = Some w1" "net_inv fds w1"
      "fits (ht_abs (w_store w1)) (pending (w_conns w1) + (event_bytes es + j))"
      "cn_self ` set (w_conns w) - {cn_self c} \<subseteq> cn_self ` set (w_conns w1)" by blast
    have "P (es0 @ [e]) w1" using clients [OF Cons.prems(1) cs(1) _ fit w1(1) Cons.prems(4)] Some cs(2) by simp
    moreover have "all_known es w1" by (rule all_known_tl [OF Cons.prems(3) subsetD [OF w1(4)]]) (simp add: Some cs(2))
    ultimately show ?thesis
      using Cons.IH [of w1 "es0 @ [e]"] w1(1-3) Some f by (simp add: add.assoc handled_def listener_fails_def)
  qed
qed

lemma wait:
  "net_inv fds w \<Longrightarrow> fits (ht_abs (w_store w)) (pending (w_conns w) + run_bytes rs) \<Longrightarrow> wait_ok rs w \<Longrightarrow> P es0 w \<Longrightarrow>
   \<exists>left w'. net_wait rs w = Some (left, w') \<and> net_inv fds w' \<and>
     (w_shutdown w \<and> list_ex (\<lambda>r. r \<noteq> Ew_Early) rs \<or> run_stops rs \<longrightarrow> left) \<and> P (es0 @ wait_events rs w) w'"
proof (induction rs arbitrary: w es0)
  case (Cons r rs)
  have fit: "fits (ht_abs (w_store w)) (pending (w_conns w) + run_bytes rs)"
    using fits_mono [OF Cons.prems(2)] by (simp add: run_bytes_def)
  have turn: "\<exists>left w'. net_loop rs w1 = Some (left, w') \<and> net_inv fds w' \<and> (w_shutdown w1 \<or> run_stops rs \<longrightarrow> left) \<and>
      P (es1 @ loop_events rs w1) w'"
    if "net_inv fds w1" "fits (ht_abs (w_store w1)) (pending (w_conns w1) + run_bytes rs)" "run_ok rs w1" "P es1 w1" for w1 es1
    using Cons.IH [of w1 es1] that by (cases "w_shutdown w1") auto
  have S: "net_inv fds (if sig then on_signal w1 else w1)" "P es1 (if sig then on_signal w1 else w1)"
    "w_store (if sig then on_signal w1 else w1) = w_store w1" "w_conns (if sig then on_signal w1 else w1) = w_conns w1"
    if "net_inv fds w1" "P es1 w1" for sig w1 es1
    using that net_inv_on_signal signals by simp_all
  have set: "w_shutdown (on_signal w1)" for w1 by (simp add: on_signal_def)
  show ?case
  proof (cases r)
    case Ew_Early
    with Cons.IH [of "on_signal w" es0] S [OF Cons.prems(1,4), of True] fit Cons.prems(3) set show ?thesis by auto
  next
    case (Ew_Intr sig)
    note S0 = S [OF Cons.prems(1,4), of sig]
    have "run_ok rs (if sig then on_signal w else w)" using Cons.prems(3) Ew_Intr by simp
    from turn [OF S0(1) _ this S0(2)] fit S0(3,4) Ew_Intr set show ?thesis by (cases sig) (auto simp: net_loop_def)
  next
    case (Ew_Events sig es)
    with Cons.prems(3) have ok: "batch_ok es w"
      "\<And>w'. net_batch es w = Some w' \<Longrightarrow> run_ok rs (if sig then on_signal w' else w')" by auto
    have f: "fits (ht_abs (w_store w)) (pending (w_conns w) + event_bytes es + run_bytes rs)"
      using Cons.prems(2) by (simp add: run_bytes_def Ew_Events add.assoc)
    from batch [OF Cons.prems(1) f batch_known [OF Cons.prems(1) ok(1)] Cons.prems(4)] obtain w1 where
      w1: "net_batch es w = Some w1" "net_inv fds w1" "fits (ht_abs (w_store w1)) (pending (w_conns w1) + run_bytes rs)"
      "P (es0 @ handled es) w1" by blast
    note S1 = S [OF w1(2,4), of sig]
    from turn [OF S1(1) _ ok(2) [OF w1(1)] S1(2)] w1 S1(3,4) Ew_Events set net_batch_shutdown [OF w1(1)] show ?thesis by (cases sig) auto
  qed (use Cons.prems in auto)
qed auto

lemma loop:
  assumes "net_inv fds w" "fits (ht_abs (w_store w)) (pending (w_conns w) + run_bytes rs)" "run_ok rs w" "P es0 w"
  shows "\<exists>left w'. net_loop rs w = Some (left, w') \<and> net_inv fds w' \<and> (w_shutdown w \<or> run_stops rs \<longrightarrow> left) \<and>
    P (es0 @ loop_events rs w) w'"
  using wait [OF assms(1,2) _ assms(4)] assms by (cases "w_shutdown w") auto

end

text \<open>The invariant alone.\<close>

interpretation server: server_property fds "\<lambda>es w. True" for fds
  by unfold_locales simp_all

lemmas net_batch_inv = server.batch [simplified]
lemmas net_loop_inv = server.loop [simplified]

section \<open>Teardown\<close>

lemma conns_mem_swap: "v\<lparr>w_conns := a, w_mem := b\<rparr> = v\<lparr>w_mem := b, w_conns := a\<rparr>"
  by (cases v) simp

lemma teardown_step:
  assumes "w_conns w = c # cs"
  shows "teardown_conns (c # cs) w = teardown_conns cs (close_conn c w)"
proof -
  define w1 where "w1 = (if w_epoll_fd w \<noteq> None then epoll_del (cn_fd c) w else w)"
  obtain ok os where k: "ctl_outcome w = (ok, w\<lparr>w_ctl := os\<rparr>)" by (rule ctl_outcome_cases)
  have "w_conns w1 = c # cs" using assms k by (simp add: w1_def epoll_del_def)
  then have "w_conns (sys_close (cn_fd c) w1) = c # cs" by (simp add: sys_close_def)
  then have "close_conn c w = (sys_close (cn_fd c) w1)\<lparr>w_mem := free_conn c (w_mem (sys_close (cn_fd c) w1)),
      w_conns := cs\<rparr>"
    unfolding close_conn_def Let_def w1_def [symmetric] by (simp add: conns_mem_swap)
  then show ?thesis unfolding teardown_conns.simps Let_def w1_def [symmetric] by simp
qed

lemma teardown_conns_inv:
  "net_inv fds w \<Longrightarrow> w_conns w = cs \<Longrightarrow>
   net_inv fds (teardown_conns cs w) \<and> w_conns (teardown_conns cs w) = [] \<and>
   w_store (teardown_conns cs w) = w_store w"
proof (induction cs arbitrary: w)
  case Nil
  have "owns (w_mem w) (server_blocks w) alone" using Nil(1) by (simp add: net_inv_def)
  with Nil show ?case by (auto intro: net_inv_same [OF Nil(1)])
next
  case (Cons c cs)
  have "ht_inv (w_store w)" using Cons.prems(1) by (simp add: net_inv_def)
  from net_inv_close [OF Cons.prems(1), of "[]" c cs, OF _ transfers_refl this] Cons.prems(2)
  have "net_inv fds (close_conn c w)" "w_conns (close_conn c w) = cs" "w_store (close_conn c w) = w_store w" by auto
  with Cons.IH [of "close_conn c w"] teardown_step [OF Cons.prems(2)] show ?case by simp
qed

definition stopped :: "nat set \<Rightarrow> world \<Rightarrow> bool" where
  "stopped fds w \<longleftrightarrow> ht_inv (w_store w) \<and> w_conns w = [] \<and> w_listen_fd w = None \<and> w_epoll_fd w = None \<and>
     set (w_open w) = fds \<and> \<not> w_bad_close w \<and> owns (w_mem w) (ht_blocks (w_store w)) alone"

lemma net_teardown_stopped:
  assumes "net_inv fds w"
  shows "stopped fds (net_teardown w)" "w_store (net_teardown w) = w_store w"
proof -
  define w1 where "w1 = teardown_conns (w_conns w) w"
  have T: "net_inv fds w1" "w_conns w1 = []" "w_store w1 = w_store w"
    using teardown_conns_inv [OF assms refl] by (simp_all add: w1_def)
  obtain l e where fd: "fd_inv fds w1 l e" using T(1) by (auto simp: net_inv_def)
  then have F: "w_listen_fd w1 = Some l" "w_epoll_fd w1 = Some e" "l \<noteq> e" "l \<notin> fds" "e \<notin> fds"
    "set (w_open w1) = insert l (insert e fds)" "\<not> w_bad_close w1"
    using T(2) by (auto simp: fd_inv_def)
  have "net_teardown w = (sys_close l ((sys_close e w1)\<lparr>w_epoll_fd := None\<rparr>))\<lparr>w_listen_fd := None\<rparr>"
    using F by (simp add: net_teardown_def w1_def [symmetric] sys_close_def Let_def)
  then have eq: "net_teardown w = w1\<lparr>w_open := removeAll l (removeAll e (w_open w1)),
      w_epoll := (w_epoll w1)(e := None, l := None), w_epoll_fd := None, w_listen_fd := None\<rparr>"
    using F by (simp add: sys_close_def)
  have "owns (w_mem w1) (ht_blocks (w_store w1)) alone" "ht_inv (w_store w1)"
    using T by (simp_all add: net_inv_def server_blocks_def)
  then show "stopped fds (net_teardown w)" using F T(2) by (auto simp: stopped_def eq)
  show "w_store (net_teardown w) = w_store w" by (simp add: eq T(3))
qed

end
