(* ===== verification/Server_Main.thy ===== *)
theory Server_Main
  imports Net_Server
begin

text \<open>
  The life of the process: \<open>net_init\<close>, \<open>net_run\<close> and the part of \<open>main\<close> around them. Set-up either
  establishes the invariant of the server or gives back every descriptor it opened, and a run
  of \<open>main\<close> ends with no block allocated and no descriptor of its own open.
\<close>

section \<open>The end of main\<close>

text \<open>
  \<open>main\<close> from the set-up of the network on (the self tests before it are in \<open>Smoke\<close>): the exit
  code and the world it leaves, or \<open>None\<close> while the server is still waiting for events.
\<close>

definition main_serve :: "setup_env \<Rightarrow> wait_result list \<Rightarrow> hashtable \<Rightarrow> world \<Rightarrow> (int \<times> world) option" where
  "main_serve se rs store w =
     (case net_init se store w of
        (RC_ERR, w1) \<Rightarrow>
          (case ht_destroy (w_mem w1) (w_store w1) of
             (m', st') \<Rightarrow> Some (1, w1\<lparr>w_mem := m', w_store := st'\<rparr>))
      | (RC_OK, w1) \<Rightarrow>
          (case net_run rs w1 of
             None \<Rightarrow> None
           | Some (rc, w2) \<Rightarrow>
               (case ht_destroy (w_mem w2) (w_store w2) of
                  (m', st') \<Rightarrow> Some (if rc = RC_OK then 0 else 1, w2\<lparr>w_mem := m', w_store := st'\<rparr>))))"

section \<open>Set-up\<close>

text \<open>The world before the set-up: no connection, no registration, the descriptors of the process.\<close>

definition world_start :: "mem \<Rightarrow> nat list \<Rightarrow> bool list \<Rightarrow> world" where
  "world_start m fds ctl = \<lparr>w_mem = m, w_store = ht_init, w_conns = [], w_listen_fd = None, w_epoll_fd = None,
     w_shutdown = False, w_ctl = ctl, w_epoll = Map.empty, w_open = fds, w_bad_close = False, w_sent = []\<rparr>"

lemma removeAll_fresh: "a \<notin> set xs \<Longrightarrow> removeAll a xs = xs"
  by (rule removeAll_id)

lemma open_undo:
  assumes "fd \<notin> set (w_open w)" "w_epoll w = Map.empty"
  shows "sys_close fd (opened fd w) = w"
proof -
  have "sys_close fd (opened fd w) = (opened fd w)\<lparr>w_open := w_open w, w_epoll := w_epoll w\<rparr>"
    using assms by (intro open_close) (simp_all add: opened_def)
  then show ?thesis by (simp add: opened_def)
qed

lemma setup_listener_cases:
  assumes "w_epoll w = Map.empty"
  obtains (fail) "setup_listener se w = (None, w)"
  | (ok) k fd where "se_socket se = Some k" "fd \<notin> set (w_open w)" "setup_listener se w = (Some fd, opened fd w)"
proof (cases "se_socket se")
  case None
  then show ?thesis by (intro fail) (simp add: setup_listener_def)
next
  case (Some k)
  define fd where "fd = next_free k (w_open w)"
  have fd: "fd \<notin> set (w_open w)" using next_free_props by (simp add: fd_def)
  have so: "sys_open k w = (fd, opened fd w)" by (simp add: sys_open_def fd_def opened_def Let_def)
  note undo = open_undo [OF fd assms]
  have "setup_listener se w = (if se_setsockopt se \<and> set_nonblock se = RC_OK \<and> se_pton se \<and> se_bind se \<and> se_listen se
      then (Some fd, opened fd w) else (None, w))"
    unfolding setup_listener_def Some option.case so Let_def prod.case undo by (cases "set_nonblock se") simp_all
  then show ?thesis using fail ok [OF Some fd] by (auto split: if_splits)
qed

lemma net_init_listening:
  assumes w: "w_conns w = []" "w_epoll w = Map.empty" "distinct (w_open w)" "\<not> w_bad_close w"
    and st: "ht_inv (w_store w)" and own: "owns (w_mem w) (ht_blocks (w_store w)) alone"
    and fd: "lfd \<notin> set (w_open w)" "efd \<notin> set (w_open w)" "lfd \<noteq> efd"
    and w': "w_conns w' = []" "w_store w' = w_store w" "w_mem w' = w_mem w" "w_bad_close w' = w_bad_close w"
      "w_open w' = efd # lfd # w_open w" "w_listen_fd w' = Some lfd" "w_epoll_fd w' = Some efd"
      "w_epoll w' = (w_epoll w)(lfd \<mapsto> (None, EPOLLIN))"
  shows "net_inv (set (w_open w)) w'"
proof -
  have "fd_inv (set (w_open w)) w' lfd efd"
    using w fd unfolding fd_inv_def w' by auto
  then show ?thesis using w' st own by (auto simp: net_inv_def server_blocks_def)
qed

text \<open>The second half of \<open>net_init\<close>, from the listener on.\<close>

lemma net_init_listener:
  assumes w: "w_conns w = []" "w_epoll w = Map.empty" "distinct (w_open w)" "\<not> w_bad_close w"
      "w_listen_fd w = None" "w_epoll_fd w = None"
    and st: "ht_inv store" and own: "owns (w_mem w) (ht_blocks store) alone" and i: "net_init se store w = (r, w')"
    and ok: "setup_listener se (w\<lparr>w_store := store\<rparr>) = (Some lfd, opened lfd (w\<lparr>w_store := store\<rparr>))"
      "lfd \<notin> set (w_open w)" and k2: "se_epoll_create se = Some k2"
  shows "(if r = RC_OK then net_inv else stopped) (set (w_open w)) w' \<and> w_store w' = store \<and> w_conns w' = []"
proof -
  define w0 where "w0 = w\<lparr>w_store := store\<rparr>"
  have w0: "w_epoll w0 = Map.empty" "w_open w0 = w_open w" by (simp_all add: w0_def w)
  define efd where "efd = next_free k2 (lfd # w_open w)"
  have efd: "efd \<notin> set (lfd # w_open w)" unfolding efd_def using next_free_props by blast
  define w3 where "w3 = w0\<lparr>w_open := efd # lfd # w_open w, w_listen_fd := Some lfd, w_epoll_fd := Some efd\<rparr>"
  have so: "sys_open k2 (opened lfd w0) = (efd, w0\<lparr>w_open := efd # lfd # w_open w\<rparr>)"
    by (simp add: sys_open_def opened_def w0 efd_def Let_def)
  obtain okc os where c: "ctl_outcome w3 = (okc, w3\<lparr>w_ctl := os\<rparr>)" by (rule ctl_outcome_cases)
  have ni: "net_init se store w = (case epoll_set lfd None EPOLLIN w3 of
      (RC_ERR, w4) \<Rightarrow> (RC_ERR, (sys_close lfd (sys_close efd w4))\<lparr>w_epoll_fd := None, w_listen_fd := None\<rparr>)
    | (RC_OK, w4) \<Rightarrow> (RC_OK, w4))"
    using ok(1) k2 so by (simp add: net_init_def w0_def [symmetric] w3_def Let_def)
  show ?thesis
  proof (cases okc)
    case True
    then have "r = RC_OK" "w' = w3\<lparr>w_ctl := os, w_epoll := (w_epoll w3)(lfd \<mapsto> (None, EPOLLIN))\<rparr>"
      using i ni c by (simp_all add: epoll_set_def)
    with net_init_listening [of w0 lfd efd w'] w st own ok(2) efd show ?thesis
      by (auto simp: w3_def w0_def)
  next
    case False
    then have "r = RC_ERR" "w' = (sys_close lfd (sys_close efd (w3\<lparr>w_ctl := os\<rparr>)))\<lparr>w_epoll_fd := None, w_listen_fd := None\<rparr>"
      using i ni c by (simp_all add: epoll_set_def)
    with w st own ok(2) efd show ?thesis
      by (simp add: sys_close_def w3_def stopped_def w0_def)
  qed
qed

lemma net_init_cases:
  assumes w: "w_conns w = []" "w_epoll w = Map.empty" "distinct (w_open w)" "\<not> w_bad_close w"
      "w_listen_fd w = None" "w_epoll_fd w = None"
    and st: "ht_inv store" and own: "owns (w_mem w) (ht_blocks store) alone" and i: "net_init se store w = (r, w')"
  shows "(if r = RC_OK then net_inv else stopped) (set (w_open w)) w' \<and> w_store w' = store \<and> w_conns w' = []"
proof -
  define w0 where "w0 = w\<lparr>w_store := store\<rparr>"
  have w0: "w_epoll w0 = Map.empty" "w_open w0 = w_open w" by (simp_all add: w0_def w)
  from w0(1) show ?thesis
  proof (cases rule: setup_listener_cases [of _ se])
    case fail
    then have "r = RC_ERR" "w' = w0\<lparr>w_listen_fd := None\<rparr>" using i by (simp_all add: net_init_def w0_def)
    with w st own show ?thesis by (simp add: stopped_def w0_def)
  next
    case (ok k lfd)
    then have lfd: "lfd \<notin> set (w_open w)" by (simp add: w0)
    show ?thesis
    proof (cases "se_epoll_create se")
      case None
      have "sys_close lfd (opened lfd w0) = w0" using lfd w0 by (intro open_undo) simp_all
      with ok None have "r = RC_ERR" "w' = w0\<lparr>w_listen_fd := None\<rparr>"
        using i by (simp_all add: net_init_def w0_def)
      with w st own show ?thesis by (simp add: stopped_def w0_def)
    next
      case (Some k2)
      from net_init_listener [OF w st own i _ lfd Some] ok show ?thesis by (simp add: w0_def)
    qed
  qed
qed

section \<open>A whole run\<close>

lemma net_init_shutdown: "net_init se st w = (r, w') \<Longrightarrow> w_shutdown w' = w_shutdown w"
  by (auto simp: net_init_def setup_listener_def sys_open_def Let_def epoll_shutdown(4) dest!: epoll_shutdown(1)
      split: option.splits prod.splits rc.splits if_splits)

text \<open>Signals that are missed leave the program waiting.\<close>

lemma main_serve_missed_signals:
  assumes "list_all (\<lambda>r. r = Ew_Early) rs" "fst (net_init se st (world_start m fds ctl)) = RC_OK"
  shows "main_serve se rs st (world_start m fds ctl) = None"
proof -
  obtain w where i: "net_init se st (world_start m fds ctl) = (RC_OK, w)"
    using assms(2) by (cases "net_init se st (world_start m fds ctl)") simp
  then have "\<not> w_shutdown w" using net_init_shutdown [OF i] by (simp add: world_start_def)
  from missed_signals_wait [OF assms(1) this] i show ?thesis by (simp add: main_serve_def)
qed

lemma net_run_cases:
  assumes "net_inv fds w" "fits (ht_abs (w_store w)) (pending (w_conns w) + run_bytes rs)" "run_ok rs w"
  obtains (waiting) "net_run rs w = None" "\<not> run_stops rs"
  | (left) w' where "net_run rs w = Some (RC_OK, w')" "stopped fds w'"
proof -
  from net_loop_inv [OF assms] obtain l w1 where
    "net_loop rs w = Some (l, w1)" "net_inv fds w1" "run_stops rs \<longrightarrow> l" by blast
  with net_teardown_stopped(1) [of fds w1] waiting left show ?thesis by (cases l) (auto simp: net_run_def)
qed

definition all_returned :: "nat set \<Rightarrow> world \<Rightarrow> bool" where
  "all_returned fds w \<longleftrightarrow> m_live (w_mem w) = {} \<and> \<not> m_bad (w_mem w) \<and> set (w_open w) = fds \<and>
     \<not> w_bad_close w \<and> w_conns w = []"

lemma stopped_destroy:
  assumes "stopped fds w" "ht_destroy (w_mem w) (w_store w) = (m', st')"
  shows "all_returned fds (w\<lparr>w_mem := m', w_store := st'\<rparr>)"
proof -
  have "owns (w_mem w) (ht_blocks (w_store w) @ []) alone" using assms(1) by (simp add: stopped_def)
  then have "owns m' [] alone" by (rule ht_destroy_owns [OF assms(2)])
  with assms(1) show ?thesis by (auto simp: all_returned_def stopped_def owns_def)
qed

text \<open>
  The two ways a run of \<open>main\<close> stands: waiting for events, which it is not once \<open>epoll_wait\<close> failed or
  returned after a signal, or returned with everything given back.
\<close>

lemma main_serve_cases:
  assumes start: "ht_inv store" "owns m (ht_blocks store) alone" "distinct fds"
    and run: "\<And>w. net_init se store (world_start m fds ctl) = (RC_OK, w) \<Longrightarrow>
      fits (ht_abs store) (run_bytes rs) \<and> run_ok rs w"
  obtains (waiting) "main_serve se rs store (world_start m fds ctl) = None" "\<not> run_stops rs"
  | (returned) code w' where "main_serve se rs store (world_start m fds ctl) = Some (code, w')"
      "all_returned (set fds) w'" "code = 0 \<longleftrightarrow> fst (net_init se store (world_start m fds ctl)) = RC_OK"
proof -
  let ?w = "world_start m fds ctl"
  obtain r w1 where i: "net_init se store ?w = (r, w1)" by fastforce
  have I: "(if r = RC_OK then net_inv else stopped) (set fds) w1" "w_store w1 = store" "w_conns w1 = []"
    using net_init_cases [OF _ _ _ _ _ _ start(1) _ i] start by (simp_all add: world_start_def)
  show ?thesis
  proof (cases r)
    case RC_ERR
    obtain m' st' where d: "ht_destroy (w_mem w1) (w_store w1) = (m', st')" by fastforce
    with RC_ERR I i stopped_destroy [OF _ d, of "set fds"] show ?thesis
      by (intro returned [of 1 "w1\<lparr>w_mem := m', w_store := st'\<rparr>"]) (simp_all add: main_serve_def)
  next
    case RC_OK
    with run [of w1] i I have f: "fits (ht_abs (w_store w1)) (pending (w_conns w1) + run_bytes rs)" "run_ok rs w1"
      and inv: "net_inv (set fds) w1" by (simp_all add: pending_def)
    from inv f show ?thesis
    proof (cases rule: net_run_cases)
      case waiting
      with RC_OK i show ?thesis by (intro that(1)) (simp_all add: main_serve_def)
    next
      case (left w2)
      obtain m' st' where d: "ht_destroy (w_mem w2) (w_store w2) = (m', st')" by fastforce
      with RC_OK i left(1) stopped_destroy [OF left(2) d] show ?thesis
        by (intro returned [of 0 "w2\<lparr>w_mem := m', w_store := st'\<rparr>"]) (simp_all add: main_serve_def)
    qed
  qed
qed

end
