(* ===== verification/Net_Serving.thy ===== *)
theory Net_Serving
  imports Net_Handlers
begin

text \<open>
  Progress of a connection: with memory, room in the buffers and an \<open>epoll_ctl\<close> that succeeds, a call
  of \<open>handle_read\<close> on a client that keeps to the protocol serves all of its complete requests and
  keeps the connection.
\<close>

section \<open>Reads that end by waiting\<close>

text \<open>The client neither closes nor fails before the socket would block.\<close>

fun polite :: "read_result list \<Rightarrow> bool" where
  "polite [] = True"
| "polite (r # rs) = (case r of
     Rd_Bytes bs \<Rightarrow> bs \<noteq> [] \<and> polite rs
   | Rd_Intr \<Rightarrow> polite rs | Rd_Again \<Rightarrow> True | Rd_Error \<Rightarrow> False)"

lemma polite_not_closed: "polite rs \<Longrightarrow> read_loop m b rs = (re, m', b') \<Longrightarrow> re \<noteq> Re_Close"
proof (induction rs arbitrary: m b)
  case Nil
  then show ?case by (auto split: sum.splits)
next
  case (Cons r rs)
  have "READ_CHUNK \<noteq> 0" by (simp add: READ_CHUNK_def)
  with Cons show ?case by (cases r) (auto simp: Let_def split: sum.splits)
qed

lemma polite_reads:
  assumes "bb_inv b" "mem_plenty m" "polite rs" "read_loop m b rs = (re, m', b')"
    and "length (bb_contents b) + length (recv rs) + READ_CHUNK \<le> BUF_LIMIT"
  shows "re = Re_Wait" "bb_contents b' = bb_contents b @ recv rs" "bb_inv b'" "mem_plenty m'"
proof -
  note R = read_loop_received [OF assms(1,4), unfolded received_def]
  obtain data rest where "recv rs = data @ rest" "bb_contents b' = bb_contents b @ data" using R by blast
  then have "\<not> BUF_LIMIT < length (bb_contents b') + READ_CHUNK" using assms(5) by simp
  then have "re \<noteq> Re_Failed msg" for msg using R assms(2) by blast
  with polite_not_closed [OF assms(3,4)] show re: "re = Re_Wait" by (cases re) auto
  with R assms(2) show "bb_contents b' = bb_contents b @ recv rs" "bb_inv b'" "mem_plenty m'" by auto
qed

section \<open>Arming with an epoll that succeeds\<close>

definition ctl_succeeds :: "world \<Rightarrow> bool" where
  "ctl_succeeds w \<longleftrightarrow> False \<notin> set (w_ctl w)"

lemma arm_events_succeeds: "ctl_succeeds w \<Longrightarrow> \<exists>w' c'. arm_events w c ev = (RC_OK, w', c') \<and> ctl_succeeds w'"
  by (cases "w_ctl w") (auto simp: ctl_succeeds_def arm_events_def epoll_set_def ctl_outcome_def)

lemma finish_read_succeeds:
  assumes "ctl_succeeds w" "\<not> cn_close_after_drain c"
  shows "\<exists>w' c'. finish_read w c = (RC_OK, w', c') \<and> ctl_succeeds w'"
proof -
  have "want_events c \<noteq> 0" using assms(2) EPOLL_masks by (simp add: want_events_cases)
  with assms arm_events_succeeds [OF assms(1), of c "want_events c"] show ?thesis by (simp add: finish_read_def Let_def)
qed

section \<open>Serving\<close>

text \<open>
  The conditions under which a connection makes progress: the bytes it has and the bytes that come
  are the requests \<open>reqs\<close> and an incomplete one, and nothing the server depends on fails.
\<close>

definition can_serve :: "read_result list \<Rightarrow> bytes list list \<Rightarrow> bytes \<Rightarrow> world \<Rightarrow> conn \<Rightarrow> bool" where
  "can_serve reads reqs part w c \<longleftrightarrow>
     \<not> cn_close_after_drain c \<and> polite reads \<and> mem_plenty (w_mem w) \<and> ctl_succeeds w \<and>
     bb_contents (cn_in c) @ recv reads = concat (map encode_request reqs) @ part \<and>
     (\<forall>as\<in>set reqs. request_ok as) \<and> ref_request part = RESP_NEED_MORE \<and>
     length (bb_contents (cn_in c)) + length (recv reads) + READ_CHUNK \<le> BUF_LIMIT \<and>
     replies_fit (ht_abs (w_store w)) reqs (length (bb_contents (cn_out c)))"

lemma handle_read_serves:
  assumes inv: "conn_inv w c" and wait: "waits c" and st: "ht_inv (w_store w)"
    and fit: "fits (ht_abs (w_store w)) (length (bb_contents (cn_in c)) + length (recv reads))"
    and can: "can_serve reads reqs part w c"
  shows "\<exists>w' c' rs. handle_read reads w c = Some (RC_OK, w', c') \<and>
    replies (ht_abs (w_store w)) reqs rs (ht_abs (w_store w')) \<and> length rs = length reqs \<and>
    bb_contents (cn_in c') = part \<and>
    bb_contents (cn_out c') = bb_contents (cn_out c) @ concat (map encode_reply rs) \<and>
    conn_inv w' c' \<and> waits c' \<and> ht_inv (w_store w') \<and> \<not> cn_close_after_drain c' \<and>
    mem_plenty (w_mem w') \<and> ctl_succeeds w'"
proof -
  note C = can [unfolded can_serve_def]
  obtain re m1 in1 where l: "read_loop (w_mem w) (cn_in c) reads = (re, m1, in1)" by (metis prod_cases3)
  have R: "re = Re_Wait" "bb_contents in1 = bb_contents (cn_in c) @ recv reads" "bb_inv in1" "mem_plenty m1"
    using polite_reads [OF _ _ _ l] inv C by (simp_all add: conn_inv_def)
  define x0 where "x0 = \<lparr>c_mem = m1, c_store = w_store w, c_out = cn_out c\<rparr>"
  have "length (bb_contents in1) = length (bb_contents (cn_in c)) + length (recv reads)" by (simp add: R(2))
  then have x0: "ctx_inv x0" "fits (ht_abs (c_store x0)) (length (bb_contents in1) + 0)" "mem_plenty (c_mem x0)"
    using inv st fit R(4) by (simp_all add: x0_def ctx_inv_def conn_inv_def)
  have pipe: "bb_contents in1 = concat (map encode_request reqs) @ part" using R(2) C by simp
  have store: "c_store x0 = w_store w" "ctx_reply x0 = bb_contents (cn_out c)" by (simp_all add: x0_def ctx_reply_def)
  from dispatch_frames_serves [OF x0(1) R(3) x0(2,3) pipe] C obtain e x in2 where
    d: "dispatch_frames x0 in1 = Some (e, x, in2)" "e = De_Fail \<longrightarrow> False"
      "e \<noteq> De_Fail \<longrightarrow> e = De_Wait \<and> bb_contents in2 = part \<and>
         (\<exists>rs. replies (ht_abs (w_store w)) reqs rs (ht_abs (c_store x)) \<and> length rs = length reqs \<and>
             ctx_reply x = bb_contents (cn_out c) @ concat (map encode_reply rs))"
    unfolding store by blast
  then obtain rs where e: "e = De_Wait" and rs: "bb_contents in2 = part" "length rs = length reqs"
    "replies (ht_abs (w_store w)) reqs rs (ht_abs (c_store x))"
    "ctx_reply x = bb_contents (cn_out c) @ concat (map encode_reply rs)" by auto
  define w1 where "w1 = w\<lparr>w_mem := c_mem x, w_store := c_store x\<rparr>"
  define c1 where "c1 = c\<lparr>cn_in := in2, cn_out := c_out x\<rparr>"
  have "ctl_succeeds w1" "\<not> cn_close_after_drain c1" using C by (simp_all add: ctl_succeeds_def w1_def c1_def)
  from finish_read_succeeds [OF this] obtain w' c' where f: "finish_read w1 c1 = (RC_OK, w', c')" "ctl_succeeds w'"
    by blast
  have h: "handle_read reads w c = Some (RC_OK, w', c')"
    using C d(1) e f(1) R(1) by (simp add: handle_read_def l x0_def [symmetric] w1_def c1_def Let_def)
  have "fits (ht_abs (w_store w)) (length (bb_contents (cn_in c)) + length (recv reads) + 0)" using fit by simp
  from handle_read_served [OF inv wait st this] h have "served 0 reads w c RC_OK w' c'" by auto
  then have S: "conn_inv w' c'" "waits c'" "ht_inv (w_store w')" "mem_plenty (w_mem w')"
    using C by (simp_all add: served_def transfers_def)
  have "w_store w' = c_store x \<and> cn_in c' = in2 \<and> cn_out c' = c_out x \<and> \<not> cn_close_after_drain c'"
    using f(1) C by (auto simp: finish_read_def arm_events_def epoll_set_def ctl_outcome_def Let_def w1_def c1_def
        split: if_splits prod.splits rc.splits list.splits)
  with rs h S f(2) show ?thesis by (intro exI [of _ w'] exI [of _ c'] exI [of _ rs]) (simp add: ctx_reply_def)
qed

section \<open>Delivering\<close>

text \<open>A socket that takes \<open>n\<close> bytes, in whatever pieces and with whatever interruptions.\<close>

fun drains :: "nat \<Rightarrow> write_result list \<Rightarrow> bool" where
  "drains n [] = (n = 0)"
| "drains n (r # rs) = (n = 0 \<or> (case r of Wr_Bytes k \<Rightarrow> drains (n - k) rs | Wr_Intr \<Rightarrow> drains n rs | _ \<Rightarrow> False))"

lemma drains_0 [simp]: "drains 0 ws"
  by (cases ws) simp_all

lemma drains_mono: "drains n ws \<Longrightarrow> m \<le> n \<Longrightarrow> drains m ws"
proof (induction ws arbitrary: m n)
  case (Cons r rs)
  show ?case
  proof (cases r)
    case (Wr_Bytes k)
    have "m - k \<le> n - k" using Cons.prems(2) by (rule diff_le_mono)
    with Wr_Bytes Cons.prems Cons.IH [of "n - k" "m - k"] show ?thesis by auto
  next
    case Wr_Intr
    with Cons.prems Cons.IH [of n m] show ?thesis by auto
  qed (use Cons.prems in auto)
qed simp

lemma write_loop_drains:
  "bb_inv b \<Longrightarrow> drains (length (bb_contents b)) ws \<Longrightarrow> \<exists>b'. write_loop b ws = (We_Drained, b', bb_contents b) \<and>
   bb_inv b' \<and> bb_contents b' = []"
proof (induction ws arbitrary: b)
  case Nil
  then show ?case using pending_iff [OF Nil(1)] by auto
next
  case (Cons r rs)
  note len = length_bb_contents [OF Cons.prems(1)]
  show ?case
  proof (cases "bytebuf_len b > 0")
    case False
    with pending_iff [OF Cons.prems(1)] Cons.prems(1) show ?thesis by auto
  next
    case True
    with pending_iff [OF Cons.prems(1)] Cons.prems(2) consider (bytes) k where "r = Wr_Bytes k" "drains (length (bb_contents b) - k) rs"
      | (intr) "r = Wr_Intr" "drains (length (bb_contents b)) rs" by (cases r) auto
    then show ?thesis
    proof cases
      case intr
      with Cons.IH [OF Cons.prems(1)] True show ?thesis by simp
    next
      case bytes
      define n where "n = min k (unat (bytebuf_len b))"
      have le: "n \<le> unat (bytebuf_len b)" by (simp add: n_def)
      then have "n \<le> SIZE_MAX" using unat_size_t_max [of "bytebuf_len b"] by linarith
      then have u: "unat (word_of_nat n :: size_t) = n" by (rule unat_word_of_nat_size)
      note C = bytebuf_consume_props [OF Cons.prems(1), of "word_of_nat n"]
      have c: "bb_contents (bytebuf_consume b (word_of_nat n)) = drop n (bb_contents b)" using C u by simp
      have "drains (length (bb_contents (bytebuf_consume b (word_of_nat n)))) rs"
        unfolding c using bytes(2) by (rule drains_mono) (simp add: n_def len min_def)
      from Cons.IH [OF C(1) this] obtain b' where
        b': "write_loop (bytebuf_consume b (word_of_nat n)) rs = (We_Drained, b', drop n (bb_contents b))"
        "bb_inv b'" "bb_contents b' = []" by (auto simp: c)
      have "take n (input_bytes b) @ drop n (bb_contents b) = bb_contents b"
        using input_bytes_take [OF Cons.prems(1) le] by simp
      then have "write_loop b (r # rs) = (We_Drained, b', bb_contents b)"
        using True bytes(1) b'(1) by (simp add: n_def [symmetric] Let_def)
      with b'(2,3) show ?thesis by blast
    qed
  qed
qed

text \<open>All replies go out, and the connection waits for input again.\<close>

lemma handle_write_drains:
  assumes "conn_inv w c" "drains (length (bb_contents (cn_out c))) ws" "\<not> cn_close_after_drain c" "ctl_succeeds w"
  shows "\<exists>w' c'. handle_write ws w c = (RC_OK, w', c') \<and> w_sent w' = w_sent w @ [(cn_self c, bb_contents (cn_out c))] \<and>
    w_store w' = w_store w \<and> bb_contents (cn_out c') = [] \<and> cn_in c' = cn_in c \<and> cn_events c' = EPOLLIN"
proof -
  have bo: "bb_inv (cn_out c)" using assms(1) by (simp add: conn_inv_def)
  from write_loop_drains [OF this assms(2)] obtain b' where
    l: "write_loop (cn_out c) ws = (We_Drained, b', bb_contents (cn_out c))" "bb_inv b'" "bb_contents b' = []" by blast
  define c1 where "c1 = c\<lparr>cn_out := b'\<rparr>"
  define w1 where "w1 = w\<lparr>w_sent := w_sent w @ [(cn_self c, bb_contents (cn_out c))]\<rparr>"
  have "conn_inv w1 c1" "ctl_succeeds w1" using assms(1,4) l(2) by (simp_all add: conn_inv_def c1_def w1_def ctl_succeeds_def)
  from arm_events_succeeds [OF this(2)] arm_events_props [OF this(1)] obtain w' c' where
    a: "arm_events w1 c1 EPOLLIN = (RC_OK, w', c')" "w_store w' = w_store w1" "cn_in c' = cn_in c1" "cn_out c' = cn_out c1"
    "cn_events c' = EPOLLIN" "w_sent w' = w_sent w1" by metis
  have "handle_write ws w c = (RC_OK, w', c')"
    using assms(3) a(1) by (simp add: handle_write_def l(1) Let_def c1_def w1_def)
  with a l(3) show ?thesis by (auto simp: c1_def w1_def)
qed

end
