(* ===== verification/Net_History.thy ===== *)
theory Net_History
  imports Net_Server
begin

text \<open>
  Many clients at once. The event loop serves the connections in the order of the events, so the
  requests of all clients form one history, executed one after the other on the one store. This
  theory keeps the books of each connection (what it sent, what it was answered, what is still in
  its buffers) beside that history along every run of \<open>net_loop\<close>.
\<close>

section \<open>The history of a server\<close>

text \<open>An executed request: the connection it came from, its arguments and its reply.\<close>

type_synonym entry = "addr \<times> bytes list \<times> reply"

text \<open>
  \<open>history oom mp hs mp'\<close>: executing the requests of \<open>hs\<close> in their order takes the map \<open>mp\<close> to
  \<open>mp'\<close> and gives the replies of \<open>hs\<close>; with \<open>oom\<close> a request may be refused.
\<close>

inductive history :: "bool \<Rightarrow> (bytes \<rightharpoonup> bytes) \<Rightarrow> entry list \<Rightarrow> (bytes \<rightharpoonup> bytes) \<Rightarrow> bool" for oom :: bool where
  h_none: "history oom mp [] mp"
| h_served: "set order = dom mp \<Longrightarrow> distinct order \<Longrightarrow> exec order mp args = (r, mp1) \<Longrightarrow>
    history oom mp1 hs mp2 \<Longrightarrow> history oom mp ((a, args, r) # hs) mp2"
| h_refused: "oom \<Longrightarrow> history oom mp hs mp2 \<Longrightarrow> history oom mp ((a, args, out_of_memory) # hs) mp2"

text \<open>\<open>requests bs qs rest\<close>: the bytes \<open>bs\<close> are the requests \<open>qs\<close> and then \<open>rest\<close>.\<close>

inductive requests :: "bytes \<Rightarrow> bytes list list \<Rightarrow> bytes \<Rightarrow> bool" where
  q_none: "requests bs [] bs"
| q_one: "ref_request bs = RESP_OK (args, n) \<Longrightarrow> requests (drop n bs) qs rest \<Longrightarrow> requests bs (args # qs) rest"

text \<open>The part of one client.\<close>

definition asked :: "addr \<Rightarrow> entry list \<Rightarrow> bytes list list" where
  "asked a hs = map (\<lambda>(b, q, r). q) (filter (\<lambda>(b, q, r). b = a) hs)"

definition answered :: "addr \<Rightarrow> entry list \<Rightarrow> reply list" where
  "answered a hs = map (\<lambda>(b, q, r). r) (filter (\<lambda>(b, q, r). b = a) hs)"

definition entries :: "addr \<Rightarrow> bytes list list \<Rightarrow> reply list \<Rightarrow> entry list" where
  "entries a qs rs = map (\<lambda>(q, r). (a, q, r)) (zip qs rs)"

text \<open>What an event brings from a client, and what the log says was sent to it.\<close>

definition delivered :: "addr \<Rightarrow> event \<Rightarrow> bytes" where
  "delivered a e = (if ev_ptr e = Some a \<and> has_event (ev_mask e) EPOLLIN then recv (ev_reads e) else [])"

definition input_of :: "addr \<Rightarrow> event list \<Rightarrow> bytes" where
  "input_of a es = concat (map (delivered a) es)"

definition sent_to :: "addr \<Rightarrow> (addr \<times> bytes) list \<Rightarrow> bytes" where
  "sent_to a log = concat (map snd (filter (\<lambda>(b, _). b = a) log))"

text \<open>
  The books of a connection. Of the bytes \<open>got\<close> a prefix was taken into the input buffer; it is
  the requests \<open>qs\<close> followed by what the buffer holds. The bytes \<open>sent\<close> and the output buffer are
  the replies \<open>rs\<close>. Only a connection that is being closed has lost input, or has something after
  its replies: the (possibly cut) errors that close it, as \<open>closes_with\<close> says.
\<close>

definition books :: "bool \<Rightarrow> bytes \<Rightarrow> bytes list list \<Rightarrow> reply list \<Rightarrow> bytes \<Rightarrow> conn \<Rightarrow> bool" where
  "books oom got qs rs sent c \<longleftrightarrow> (\<exists>used lost p. got = used @ lost \<and>
     requests used qs (bb_contents (cn_in c)) \<and>
     sent @ bb_contents (cn_out c) = concat (map encode_reply rs) @ p \<and>
     closes_with oom used (bb_contents (cn_in c)) (length (concat (map encode_reply rs)))
       (cn_close_after_drain c) lost p)"

definition client_history :: "bool \<Rightarrow> event list \<Rightarrow> entry list \<Rightarrow> (addr \<times> bytes) list \<Rightarrow> conn \<Rightarrow> bool" where
  "client_history oom es hs log c \<longleftrightarrow>
     books oom (input_of (cn_self c) es) (asked (cn_self c) hs) (answered (cn_self c) hs) (sent_to (cn_self c) log) c"

section \<open>Lemmas on histories\<close>

lemma history_trans: "history oom mp hs mp1 \<Longrightarrow> history oom mp1 hs' mp2 \<Longrightarrow> history oom mp (hs @ hs') mp2"
  by (induction rule: history.induct) (auto intro: history.intros)

lemma history_mono: "history oom mp hs mp' \<Longrightarrow> (oom \<Longrightarrow> oom') \<Longrightarrow> history oom' mp hs mp'"
  by (induction rule: history.induct) (auto intro: history.intros)

lemma requests_trans: "requests bs qs mid \<Longrightarrow> requests mid qs' rest \<Longrightarrow> requests bs (qs @ qs') rest"
  by (induction rule: requests.induct) (auto intro: requests.intros)

lemma requests_more: "requests bs qs rest \<Longrightarrow> requests (bs @ later) qs (rest @ later)"
proof (induction rule: requests.induct)
  case (q_one bs args n qs rest)
  note m = ref_request_more [OF q_one.hyps(1), of later]
  show ?case by (rule requests.q_one [OF m(1)]) (simp only: m(2) q_one.IH)
qed (rule requests.q_none)

lemma requests_chunks:
  "requests bs qs mid \<Longrightarrow> requests (mid @ later) qs' rest \<Longrightarrow> requests (bs @ later) (qs @ qs') rest"
  using requests_trans requests_more by blast

lemma requests_length: "requests bs qs rest \<Longrightarrow> length rest \<le> length bs"
  by (induction rule: requests.induct) auto

text \<open>A session is the requests of its bytes and their history.\<close>

lemma session_history:
  "session oom mp bs rs mp' rest \<Longrightarrow>
   \<exists>qs. length qs = length rs \<and> requests bs qs rest \<and> history oom mp (entries a qs rs) mp'"
proof (induction rule: session.induct)
  case (s_done mp bs)
  show ?case by (rule exI [of _ "[]"]) (simp add: entries_def h_none q_none)
next
  case (s_request bs args n mp order r mp1 rs mp2 rest)
  then obtain qs where "length qs = length rs" "requests (drop n bs) qs rest" "history oom mp1 (entries a qs rs) mp2" by blast
  with s_request.hyps show ?case
    by (intro exI [of _ "args # qs"]) (auto simp: entries_def intro: q_one h_served)
next
  case (s_refused bs args n mp rs mp2 rest)
  then obtain qs where "length qs = length rs" "requests (drop n bs) qs rest" "history oom mp (entries a qs rs) mp2" by blast
  with s_refused.hyps show ?case
    by (intro exI [of _ "args # qs"]) (auto simp: entries_def intro: q_one h_refused)
qed

lemma filter_all: "(\<And>x. x \<in> set xs \<Longrightarrow> P x) \<Longrightarrow> filter P xs = xs"
  by (induction xs) auto

lemma entries_parts [simp]:
  "length qs = length rs \<Longrightarrow> asked a (entries b qs rs) = (if a = b then qs else [])"
  "length qs = length rs \<Longrightarrow> answered a (entries b qs rs) = (if a = b then rs else [])"
  by (induction qs rs rule: list_induct2) (auto simp: entries_def asked_def answered_def)

lemma parts_append [simp]:
  "asked a (hs @ hs') = asked a hs @ asked a hs'" "answered a (hs @ hs') = answered a hs @ answered a hs'"
  "input_of a (es @ es') = input_of a es @ input_of a es'" "sent_to a (l @ l') = sent_to a l @ sent_to a l'"
  by (simp_all add: asked_def answered_def input_of_def sent_to_def)

lemma parts_simps [simp]:
  "asked a [] = []" "answered a [] = []" "input_of a [] = []" "sent_to a [] = []"
  "input_of a (e # es) = delivered a e @ input_of a es"
  "sent_to a ((b, bs) # l) = (if b = a then bs else []) @ sent_to a l"
  by (simp_all add: asked_def answered_def input_of_def sent_to_def)

lemma entries_client: "h \<in> set (entries a qs rs) \<Longrightarrow> fst h = a"
  by (auto simp: entries_def)

section \<open>Keeping the books\<close>

text \<open>A connection that is being closed only loses its input.\<close>

lemma books_closing:
  assumes "books oom got qs rs sent c" "cn_close_after_drain c" "cn_close_after_drain c'" "cn_in c' = cn_in c" "cn_out c' = cn_out c"
  shows "books oom (got @ ignored) qs rs sent c'"
proof -
  from assms(1) obtain used lost p where b: "got = used @ lost" "requests used qs (bb_contents (cn_in c))"
    "sent @ bb_contents (cn_out c) = concat (map encode_reply rs) @ p"
    "closes_with oom used (bb_contents (cn_in c)) (length (concat (map encode_reply rs))) (cn_close_after_drain c) lost p"
    unfolding books_def by blast
  have "closes_with oom used (bb_contents (cn_in c)) (length (concat (map encode_reply rs)))
      (cn_close_after_drain c) (lost @ ignored) p"
    by (rule closes_with_mono [OF b(4)]) (simp_all add: assms(2))
  with b(1-3) assms(2-5) show ?thesis unfolding books_def
    by (intro exI [of _ used] exI [of _ "lost @ ignored"] exI [of _ p]) simp
qed

text \<open>An open one has read all that came, and adds the requests that became complete.\<close>

lemma books_serve:
  assumes b: "books oom got qs0 rs0 sent c" "\<not> cn_close_after_drain c" and oom: "oom' \<Longrightarrow> oom"
    and q: "requests (bb_contents (cn_in c) @ data) qs (bb_contents (cn_in c'))"
      "bb_contents (cn_out c') = bb_contents (cn_out c) @ concat (map encode_reply rs) @ p"
      "closes_with oom' (bb_contents (cn_in c) @ data) (bb_contents (cn_in c'))
         (length (bb_contents (cn_out c) @ concat (map encode_reply rs))) (cn_close_after_drain c') lost p"
  shows "books oom (got @ data @ lost) (qs0 @ qs) (rs0 @ rs) sent c'"
proof -
  from b have g: "requests got qs0 (bb_contents (cn_in c))"
    "sent @ bb_contents (cn_out c) = concat (map encode_reply rs0)" by (auto simp: books_def closes_with_open)
  have "length (bb_contents (cn_out c)) \<le> length (concat (map encode_reply rs0))" by (simp flip: g(2))
  moreover have "length (bb_contents (cn_in c)) \<le> length got" using requests_length [OF g(1)] .
  moreover have "cn_close_after_drain c' \<or> lost = []" using q(3) by (auto simp: closes_with_def)
  ultimately have "closes_with oom (got @ data) (bb_contents (cn_in c'))
      (length (concat (map encode_reply (rs0 @ rs)))) (cn_close_after_drain c') lost p"
    using oom by (intro closes_with_mono [OF q(3)]) simp_all
  moreover have "requests (got @ data) (qs0 @ qs) (bb_contents (cn_in c'))" by (rule requests_chunks [OF g(1) q(1)])
  moreover have "sent @ bb_contents (cn_out c') = concat (map encode_reply (rs0 @ rs)) @ p"
    using g(2) q(2) by (simp flip: append_assoc)
  ultimately show ?thesis unfolding books_def
    by (intro exI [of _ "got @ data"] exI [of _ lost] exI [of _ p]) simp
qed

text \<open>A read adds the requests it completed, in the history and in the books of its connection.\<close>

lemma books_read:
  assumes s: "served j reads w c r w' c'" and oom: "\<not> oom \<longrightarrow> mem_plenty (w_mem w)"
  obtains qs rs where "length qs = length rs"
    "history (\<not> mem_plenty (w_mem w)) (ht_abs (w_store w)) (entries (cn_self c) qs rs) (ht_abs (w_store w'))"
    "\<And>got qs0 rs0 sent. r = RC_OK \<Longrightarrow> books oom got qs0 rs0 sent c \<Longrightarrow>
       books oom (got @ recv reads) (qs0 @ qs) (rs0 @ rs) sent c'"
proof -
  consider (gone) "r \<noteq> RC_OK" | (closing) "r = RC_OK" "cn_close_after_drain c" | (open_) "r = RC_OK" "\<not> cn_close_after_drain c"
    by blast
  then show ?thesis
  proof cases
    case gone
    from s obtain data rs rest where
      "session (\<not> mem_plenty (w_mem w)) (ht_abs (w_store w)) (bb_contents (cn_in c) @ data) rs (ht_abs (w_store w')) rest"
      unfolding served_def by blast
    from session_history [OF this, of "cn_self c"] gone that show ?thesis by blast
  next
    case closing
    with s have "cn_close_after_drain c'" "w_store w' = w_store w" "cn_in c' = cn_in c" "cn_out c' = cn_out c"
      by (simp_all add: served_def)
    with closing show ?thesis by (intro that [of "[]" "[]"]) (auto simp: entries_def h_none intro: books_closing)
  next
    case open_
    with s obtain data lost rs p where d: "recv reads = data @ lost"
      "session (\<not> mem_plenty (w_mem w)) (ht_abs (w_store w)) (bb_contents (cn_in c) @ data) rs
          (ht_abs (w_store w')) (bb_contents (cn_in c'))"
      "bb_contents (cn_out c') = bb_contents (cn_out c) @ concat (map encode_reply rs) @ p"
      "closes_with (\<not> mem_plenty (w_mem w)) (bb_contents (cn_in c) @ data) (bb_contents (cn_in c'))
         (length (bb_contents (cn_out c) @ concat (map encode_reply rs))) (cn_close_after_drain c') lost p"
      unfolding served_def by blast
    from session_history [OF d(2), of "cn_self c"] obtain qs where q: "length qs = length rs"
      "requests (bb_contents (cn_in c) @ data) qs (bb_contents (cn_in c'))"
      "history (\<not> mem_plenty (w_mem w)) (ht_abs (w_store w)) (entries (cn_self c) qs rs) (ht_abs (w_store w'))" by blast
    show ?thesis
      by (rule that [OF q(1,3)]) (simp only: d(1), rule books_serve [OF _ open_(2) _ q(2) d(3,4)], (use oom in blast)+)
  qed
qed

text \<open>A write moves bytes from the buffer to the log.\<close>

lemma books_write:
  assumes "conn_inv w c" "waits c" "handle_write ws w c = (r, w', c')"
  obtains bs where "w_sent w' = w_sent w @ [(cn_self c, bs)]"
    "\<And>got qs rs sent. r = RC_OK \<Longrightarrow> books oom got qs rs sent c \<Longrightarrow> books oom got qs rs (sent @ bs) c'"
proof -
  note H = handle_write_props [OF assms]
  from H(6) obtain bs where b: "w_sent w' = w_sent w @ [(cn_self c, bs)]"
    "bb_contents (cn_out c) = bs @ bb_contents (cn_out c')" by blast
  show ?thesis
    by (rule that [OF b(1)]) (use b(2) H(4,7) in \<open>simp add: books_def\<close>)
qed

text \<open>A fresh connection has empty books.\<close>

lemma books_new: "books oom [] [] [] [] (new_conn a fd ev)"
proof -
  have "ref_request [] = RESP_NEED_MORE" by (simp add: ref_request_def)
  then show ?thesis
    by (auto simp: books_def new_conn_def closes_with_open intro!: q_none)
qed

section \<open>Along the event loop\<close>

text \<open>Every address in the books was given out by the allocator before.\<close>

definition known :: "addr \<Rightarrow> event list \<Rightarrow> entry list \<Rightarrow> (addr \<times> bytes) list \<Rightarrow> bool" where
  "known n es hs log \<longleftrightarrow> (\<forall>e\<in>set es. \<forall>a. ev_ptr e = Some a \<longrightarrow> a < n) \<and> (\<forall>h\<in>set hs. fst h < n) \<and> (\<forall>x\<in>set log. fst x < n)"

text \<open>The history comes in pieces, one for each event: the requests of its client that it completed.\<close>

definition in_order :: "event list \<Rightarrow> entry list list \<Rightarrow> bool" where
  "in_order es hss \<longleftrightarrow> list_all2 (\<lambda>e hs. \<forall>h\<in>set hs. ev_ptr e = Some (fst h)) es hss"

definition told :: "bool \<Rightarrow> (bytes \<rightharpoonup> bytes) \<Rightarrow> event list \<Rightarrow> entry list list \<Rightarrow> world \<Rightarrow> bool" where
  "told oom mp0 es hss w \<longleftrightarrow> in_order es hss \<and>
     history oom mp0 (concat hss) (ht_abs (w_store w)) \<and>
     (\<forall>c\<in>set (w_conns w). client_history oom es (concat hss) (w_sent w) c) \<and>
     known (m_next (w_mem w)) es (concat hss) (w_sent w) \<and> (\<not> oom \<longrightarrow> mem_plenty (w_mem w))"

lemma known_mono: "known n es hs log \<Longrightarrow> n \<le> n' \<Longrightarrow> known n' es hs log"
  by (fastforce simp: known_def)

lemma known_append:
  "known n (es @ es') (hs @ hs') (log @ log') \<longleftrightarrow> known n es hs log \<and> known n es' hs' log'"
  by (auto simp: known_def)

lemma unknown_empty:
  assumes "known n es hs log" "n \<le> a"
  shows "input_of a es = []" "asked a hs = []" "answered a hs = []" "sent_to a log = []"
  using assms by (auto simp: known_def input_of_def delivered_def asked_def answered_def sent_to_def
      filter_empty_conv split: prod.splits)

lemma mfree_next [simp]: "m_next (mfree a m) = m_next m"
  by (simp add: mfree_def)

lemma free_conn_kept [simp]: "m_next (free_conn c m) = m_next m" "mem_plenty (free_conn c m) = mem_plenty m"
  by (simp_all add: free_conn_def bytebuf_free_def mfree_opt_def Let_def split: option.splits)

lemma close_conn_kept:
  "w_sent (close_conn c w) = w_sent w" "m_next (w_mem (close_conn c w)) = m_next (w_mem w)"
  "mem_plenty (w_mem (close_conn c w)) = mem_plenty (w_mem w)"
  by (auto simp: close_conn_def epoll_del_def sys_close_def ctl_outcome_def Let_def split: list.splits)

lemma sys_close_kept [simp]:
  "w_mem (sys_close fd w) = w_mem w" "w_sent (sys_close fd w) = w_sent w" "w_conns (sys_close fd w) = w_conns w"
  by (simp_all add: sys_close_def)

lemma epoll_set_kept:
  assumes "epoll_set fd p ev w = (r, w')"
  shows "w_mem w' = w_mem w" "w_sent w' = w_sent w" "w_conns w' = w_conns w"
proof -
  obtain ok os where "ctl_outcome w = (ok, w\<lparr>w_ctl := os\<rparr>)" by (rule ctl_outcome_cases)
  with assms show "w_mem w' = w_mem w" "w_sent w' = w_sent w" "w_conns w' = w_conns w"
    by (auto simp: epoll_set_def split: if_splits)
qed

text \<open>A connection is accepted with an address that was never used.\<close>

lemma accept_one_fresh:
  "w_sent (accept_one k b w) = w_sent w \<and> m_next (w_mem w) \<le> m_next (w_mem (accept_one k b w)) \<and>
    (mem_plenty (w_mem w) \<longrightarrow> mem_plenty (w_mem (accept_one k b w))) \<and>
    (w_conns (accept_one k b w) = w_conns w \<or>
     (\<exists>fd. w_conns (accept_one k b w) = new_conn (m_next (w_mem w)) fd EPOLLIN # w_conns w))"
proof -
  obtain p m where m: "malloc (w_mem w) = (p, m)" by fastforce
  have grow: "m_next (w_mem w) \<le> m_next m" "p = None \<or> p = Some (m_next (w_mem w))"
    using malloc_Some(1,2) [of "w_mem w" _ m] malloc_None(1) [of "w_mem w" m] m by (cases p; fastforce)+
  have plenty: "mem_plenty (w_mem w) \<longrightarrow> mem_plenty m" using mem_plenty_malloc [OF m] by blast
  obtain cfd where so: "sys_open k w = (cfd, opened cfd w)" by (simp add: sys_open_def opened_def Let_def)
  consider (mode) "\<not> b" | (oom) "b" "p = None" | (ok) "b" "p = Some (m_next (w_mem w))" using grow(2) by blast
  then show ?thesis
  proof cases
    case mode
    then have "accept_one k b w = sys_close cfd (opened cfd w)" by (simp add: accept_one_def so)
    then show ?thesis by (simp add: opened_def)
  next
    case oom
    then have "accept_one k b w = sys_close cfd ((opened cfd w)\<lparr>w_mem := m\<rparr>)"
      using m by (simp add: accept_one_def so opened_def)
    then show ?thesis using grow(1) plenty by (simp add: opened_def)
  next
    case ok
    define c where "c = new_conn (m_next (w_mem w)) cfd 0"
    define w2 where "w2 = (opened cfd w)\<lparr>w_mem := m, w_conns := c # w_conns w\<rparr>"
    obtain r w3 where e: "epoll_set cfd (Some (m_next (w_mem w))) EPOLLIN w2 = (r, w3)" by fastforce
    note K = epoll_set_kept [OF e]
    have ac: "accept_one k b w = (case r of
         RC_ERR \<Rightarrow> sys_close cfd (w3\<lparr>w_conns := tl (w_conns w3), w_mem := free_conn c (w_mem w3)\<rparr>)
       | RC_OK \<Rightarrow> w3\<lparr>w_conns := c\<lparr>cn_events := EPOLLIN\<rparr> # tl (w_conns w3)\<rparr>)"
      using m ok e by (simp add: accept_one_def so w2_def opened_def c_def [symmetric] Let_def)
    have f: "w_mem w2 = m" "w_sent w2 = w_sent w" "w_conns w2 = c # w_conns w" by (simp_all add: w2_def opened_def)
    show ?thesis unfolding ac using K f grow(1) plenty by (cases r) (auto simp: c_def new_conn_events)
  qed
qed

lemma told_accept_one:
  assumes inv: "net_inv fds w" and t: "told oom mp0 es hss w"
  shows "told oom mp0 es hss (accept_one k b w)"
proof -
  have A: "w_sent (accept_one k b w) = w_sent w" "m_next (w_mem w) \<le> m_next (w_mem (accept_one k b w))"
    "mem_plenty (w_mem w) \<longrightarrow> mem_plenty (w_mem (accept_one k b w))"
    "w_conns (accept_one k b w) = w_conns w \<or>
     (\<exists>fd. w_conns (accept_one k b w) = new_conn (m_next (w_mem w)) fd EPOLLIN # w_conns w)"
    using accept_one_fresh by blast+
  have new: "client_history oom es (concat hss) (w_sent w) (new_conn (m_next (w_mem w)) fd EPOLLIN)" for fd
    using books_new unknown_empty [of "m_next (w_mem w)" es "concat hss" "w_sent w" "m_next (w_mem w)"] t
    by (simp add: client_history_def told_def new_conn_def)
  have "w_store (accept_one k b w) = w_store w" using accept_one_inv [OF inv] by blast
  with A t new known_mono [OF _ A(2), of es "concat hss" "w_sent w"] show ?thesis
    unfolding told_def by auto
qed

lemma told_accept:
  "net_inv fds w \<Longrightarrow> told oom mp0 es hss w \<Longrightarrow> told oom mp0 es hss (accept_clients rs w)"
proof (induction rs arbitrary: w)
  case (Cons r rs)
  show ?case
  proof (cases r)
    case (Ac_Conn k b)
    have "net_inv fds (accept_one k b w)" using accept_one_inv [OF Cons.prems(1)] by blast
    from Cons.IH [OF this told_accept_one [OF Cons.prems]] Ac_Conn show ?thesis by simp
  qed (use Cons in auto)
qed simp

text \<open>
  \<open>moves oom e cs1 c cs2 w w'\<close>: what the event \<open>e\<close> on the connection \<open>c\<close> does to the history,
  the log, the allocator and the connections.
\<close>

definition moves :: "bool \<Rightarrow> event \<Rightarrow> conn list \<Rightarrow> conn \<Rightarrow> conn list \<Rightarrow> world \<Rightarrow> world \<Rightarrow> bool" where
  "moves oom e cs1 c cs2 w w' \<longleftrightarrow> (\<exists>qs rs log. length qs = length rs \<and>
     history (\<not> mem_plenty (w_mem w)) (ht_abs (w_store w)) (entries (cn_self c) qs rs) (ht_abs (w_store w')) \<and>
     w_sent w' = w_sent w @ log \<and> (\<forall>x\<in>set log. fst x = cn_self c) \<and>
     m_next (w_mem w) \<le> m_next (w_mem w') \<and> (mem_plenty (w_mem w) \<longrightarrow> mem_plenty (w_mem w')) \<and>
     (w_conns w' = cs1 @ cs2 \<or> (\<exists>d. w_conns w' = cs1 @ d # cs2 \<and> cn_self d = cn_self c \<and>
        (\<forall>got qs0 rs0 sent. books oom got qs0 rs0 sent c \<longrightarrow>
           books oom (got @ delivered (cn_self c) e) (qs0 @ qs) (rs0 @ rs) (sent @ sent_to (cn_self c) log) d))))"

lemma transfers_grows:
  assumes "net_inv fds w" "w_conns w = cs1 @ c # cs2" "transfers w c w' c'"
  shows "m_next (w_mem w) \<le> m_next (w_mem w')"
proof -
  have "owns (w_mem w) (ht_blocks (w_store w) @ conn_blocks c @ concat (map conn_blocks (cs1 @ cs2))) alone"
    using assms(1) server_blocks_split [OF assms(2)] unfolding net_inv_def by (blast intro: owns_perm)
  moreover have "owns (w_mem w') (ht_blocks (w_store w') @ conn_blocks c' @ concat (map conn_blocks (cs1 @ cs2))) F"
    if "owns (w_mem w) (ht_blocks (w_store w) @ conn_blocks c @ concat (map conn_blocks (cs1 @ cs2))) F" for F
    using assms(3) that unfolding transfers_def by blast
  ultimately show ?thesis using owns_grows by blast
qed

lemma sent_to_self: "\<forall>x\<in>set log. fst x = a \<Longrightarrow> b \<noteq> a \<Longrightarrow> sent_to b log = []"
  by (auto simp: sent_to_def filter_empty_conv)

text \<open>The write half of an event, after the read half made \<open>w1\<close> and \<open>c1\<close> of \<open>w\<close> and \<open>c\<close>.\<close>

lemma moves_write:
  assumes inv: "net_inv fds w" and cs: "w_conns w = cs1 @ c # cs2" and t: "transfers w c w1 c1"
    and st: "ht_inv (w_store w1)" and c1: "conn_inv w1 c1" "waits c1" and sent: "w_sent w1 = w_sent w"
    and h: "length qs = length rs"
      "history (\<not> mem_plenty (w_mem w)) (ht_abs (w_store w)) (entries (cn_self c) qs rs) (ht_abs (w_store w1))"
      "\<And>got qs0 rs0 sent. books oom got qs0 rs0 sent c \<Longrightarrow>
         books oom (got @ delivered (cn_self c) e) (qs0 @ qs) (rs0 @ rs) sent c1"
  shows "moves oom e cs1 c cs2 w (write_event e w1 c1)"
proof (cases "has_event (ev_mask e) EPOLLOUT")
  case False
  have "w_conns (update_conn c1 w1) = cs1 @ c1 # cs2" using net_inv_update [OF inv cs t st c1] by blast
  moreover have "cn_self c1 = cn_self c" "mem_plenty (w_mem w) \<longrightarrow> mem_plenty (w_mem w1)"
    using t by (simp_all add: transfers_def)
  ultimately show ?thesis
    using False h sent transfers_grows [OF inv cs t] unfolding moves_def
    by (intro exI [of _ qs] exI [of _ rs] exI [of _ "[]"]) (simp add: write_event_def)
next
  case True
  obtain r w2 c2 where hw: "handle_write (ev_writes e) w1 c1 = (r, w2, c2)" by (metis prod_cases3)
  note H = handle_write_props [OF c1 hw]
  have st2: "ht_inv (w_store w2)" using st H(3) by simp
  note t2 = transfers_trans [OF t H(1)]
  from books_write [OF c1 hw] obtain bs where b: "w_sent w2 = w_sent w1 @ [(cn_self c1, bs)]"
    "\<And>got qs rs sent. r = RC_OK \<Longrightarrow> books oom got qs rs sent c1 \<Longrightarrow> books oom got qs rs (sent @ bs) c2" by blast
  have self: "cn_self c1 = cn_self c" "cn_self c2 = cn_self c" using t t2 by (simp_all add: transfers_def)
  have plenty: "mem_plenty (w_mem w) \<longrightarrow> mem_plenty (w_mem w2)" using t2 by (simp add: transfers_def)
  note grows = transfers_grows [OF inv cs t2]
  let ?log = "[(cn_self c, bs)]"
  show ?thesis
  proof (cases r)
    case RC_ERR
    with True hw have "write_event e w1 c1 = close_conn c2 w2" by (simp add: write_event_def)
    moreover have "w_conns (close_conn c2 w2) = cs1 @ cs2" "w_store (close_conn c2 w2) = w_store w1"
      using net_inv_close [OF inv cs t2 st2] H(3) by simp_all
    ultimately show ?thesis
      using h(1,2) sent b(1) self(1) plenty grows unfolding moves_def
      by (intro exI [of _ qs] exI [of _ rs] exI [of _ ?log]) (simp add: close_conn_kept)
  next
    case RC_OK
    with True hw have "write_event e w1 c1 = update_conn c2 w2" by (simp add: write_event_def)
    moreover have "w_conns (update_conn c2 w2) = cs1 @ c2 # cs2"
      using net_inv_update [OF inv cs t2 st2 H(2) H(5) [OF RC_OK]] by blast
    ultimately show ?thesis
      using h sent b self plenty grows H(3) RC_OK unfolding moves_def
      by (intro exI [of _ qs] exI [of _ rs] exI [of _ ?log]) simp
  qed
qed

lemma moves_close:
  assumes inv: "net_inv fds w" and cs: "w_conns w = cs1 @ c # cs2" and t: "transfers w c w1 c1"
    and st: "ht_inv (w_store w1)" and sent: "w_sent w1 = w_sent w" and h: "length qs = length rs"
      "history (\<not> mem_plenty (w_mem w)) (ht_abs (w_store w)) (entries (cn_self c) qs rs) (ht_abs (w_store w1))"
  shows "moves oom e cs1 c cs2 w (close_conn c1 w1)"
proof -
  have "w_conns (close_conn c1 w1) = cs1 @ cs2" "w_store (close_conn c1 w1) = w_store w1"
    using net_inv_close [OF inv cs t st] by simp_all
  moreover have "mem_plenty (w_mem w) \<longrightarrow> mem_plenty (w_mem w1)" using t by (simp add: transfers_def)
  ultimately show ?thesis
    using h sent transfers_grows [OF inv cs t] unfolding moves_def
    by (intro exI [of _ qs] exI [of _ rs] exI [of _ "[]"]) (simp add: close_conn_kept)
qed

lemma client_event_moves:
  assumes inv: "net_inv fds w" and cs: "w_conns w = cs1 @ c # cs2" and p: "ev_ptr e = Some (cn_self c)"
    and fit: "fits (ht_abs (w_store w)) (pending (w_conns w) + length (recv (ev_reads e)) + j)"
    and ev: "client_event e w c = Some w'" and oom: "\<not> oom \<longrightarrow> mem_plenty (w_mem w)"
  shows "moves oom e cs1 c cs2 w w'"
proof -
  have c: "conn_inv w c" "waits c" "ht_inv (w_store w)" using inv cs by (auto simp: net_inv_def)
  have h0: "history oom mp (entries a [] []) mp" for oom mp a by (simp add: entries_def h_none)
  consider (err) "has_event (ev_mask e) (EPOLLERR OR EPOLLHUP)"
    | (read) "\<not> has_event (ev_mask e) (EPOLLERR OR EPOLLHUP)" "has_event (ev_mask e) EPOLLIN"
    | (none) "\<not> has_event (ev_mask e) (EPOLLERR OR EPOLLHUP)" "\<not> has_event (ev_mask e) EPOLLIN" by blast
  then show ?thesis
  proof cases
    case err
    with ev have "w' = close_conn c w" by (simp add: client_event_def)
    with moves_close [OF inv cs transfers_refl c(3) refl _ h0] show ?thesis by simp
  next
    case none
    with ev have "w' = write_event e w c" by (simp add: client_event_def)
    moreover have "delivered (cn_self c) e = []" using none by (simp add: delivered_def)
    ultimately show ?thesis using moves_write [OF inv cs transfers_refl c(3,1,2) refl _ h0] by simp
  next
    case read
    have "fits (ht_abs (w_store w)) (length (bb_contents (cn_in c)) + length (recv (ev_reads e)) + (pending (cs1 @ cs2) + j))"
      using fit by (simp add: cs pending_split ac_simps)
    from handle_read_served [OF c this] obtain r w1 c1 where
      h: "handle_read (ev_reads e) w c = Some (r, w1, c1)" and s: "served (pending (cs1 @ cs2) + j) (ev_reads e) w c r w1 c1"
      by blast
    have S: "transfers w c w1 c1" "conn_inv w1 c1" "ht_inv (w_store w1)" "r = RC_OK \<longrightarrow> waits c1" "w_sent w1 = w_sent w"
      using s by (simp_all add: served_def)
    obtain qs rs where q: "length qs = length rs"
      "history (\<not> mem_plenty (w_mem w)) (ht_abs (w_store w)) (entries (cn_self c) qs rs) (ht_abs (w_store w1))"
      "\<And>got qs0 rs0 sent. r = RC_OK \<Longrightarrow> books oom got qs0 rs0 sent c \<Longrightarrow>
         books oom (got @ recv (ev_reads e)) (qs0 @ qs) (rs0 @ rs) sent c1" using books_read [OF s oom] by blast
    have d: "delivered (cn_self c) e = recv (ev_reads e)" using read p by (simp add: delivered_def)
    show ?thesis
    proof (cases r)
      case RC_ERR
      with ev h read have "w' = close_conn c1 w1" by (simp add: client_event_def)
      with moves_close [OF inv cs S(1,3,5) q(1,2)] show ?thesis by simp
    next
      case RC_OK
      with ev h read have "w' = write_event e w1 c1" by (simp add: client_event_def)
      with moves_write [OF inv cs S(1,3,2) _ S(5) q(1,2)] S(4) q(3) RC_OK d show ?thesis by simp
    qed
  qed
qed

text \<open>An event extends the history and keeps the books of all connections.\<close>

lemma told_moves:
  assumes inv: "net_inv fds w" and cs: "w_conns w = cs1 @ c # cs2" and p: "ev_ptr e = Some (cn_self c)"
    and t: "told oom mp0 es hss w" and m: "moves oom e cs1 c cs2 w w'"
  shows "\<exists>hs. told oom mp0 (es @ [e]) (hss @ [hs]) w'"
proof -
  from m obtain qs rs log where M: "length qs = length rs"
    "history (\<not> mem_plenty (w_mem w)) (ht_abs (w_store w)) (entries (cn_self c) qs rs) (ht_abs (w_store w'))"
    "w_sent w' = w_sent w @ log" "\<forall>x\<in>set log. fst x = cn_self c"
    "m_next (w_mem w) \<le> m_next (w_mem w')" "mem_plenty (w_mem w) \<longrightarrow> mem_plenty (w_mem w')"
    "w_conns w' = cs1 @ cs2 \<or> (\<exists>d. w_conns w' = cs1 @ d # cs2 \<and> cn_self d = cn_self c \<and>
        (\<forall>got qs0 rs0 sent. books oom got qs0 rs0 sent c \<longrightarrow>
           books oom (got @ delivered (cn_self c) e) (qs0 @ qs) (rs0 @ rs) (sent @ sent_to (cn_self c) log) d))"
    unfolding moves_def by blast
  have T: "history oom mp0 (concat hss) (ht_abs (w_store w))" "\<And>d. d \<in> set (w_conns w) \<Longrightarrow> client_history oom es (concat hss) (w_sent w) d"
    "known (m_next (w_mem w)) es (concat hss) (w_sent w)" "\<not> oom \<longrightarrow> mem_plenty (w_mem w)" "in_order es hss"
    using t by (simp_all add: told_def)
  let ?hs = "entries (cn_self c) qs rs"
  have "history oom mp0 (concat hss @ ?hs) (ht_abs (w_store w'))"
    using history_trans [OF T(1)] history_mono [OF M(2)] T(4) by blast
  moreover have "client_history oom (es @ [e]) (concat hss @ ?hs) (w_sent w') d" if "d \<in> set (w_conns w')" for d
  proof (cases "d \<in> set (cs1 @ cs2)")
    case True
    have "cn_self d \<noteq> cn_self c" using net_inv_selves [OF inv] True unfolding cs by (auto simp: image_iff)
    then show ?thesis using T(2) [of d] True M(1,3) sent_to_self [OF M(4)] p
      by (simp add: cs client_history_def delivered_def)
  next
    case False
    with that M(7) have "cn_self d = cn_self c" "\<And>got qs0 rs0 sent. books oom got qs0 rs0 sent c \<Longrightarrow>
        books oom (got @ delivered (cn_self c) e) (qs0 @ qs) (rs0 @ rs) (sent @ sent_to (cn_self c) log) d" by auto
    then show ?thesis using T(2) [of c] M(1,3) by (simp add: cs client_history_def)
  qed
  moreover have "cn_self c < m_next (w_mem w)"
    using inv cs cn_self_in_blocks [of c] by (auto simp: net_inv_def owns_def server_blocks_def)
  then have "known (m_next (w_mem w')) (es @ [e]) (concat hss @ ?hs) (w_sent w')"
    using known_mono [OF T(3) M(5)] M(3,4,5) p by (auto simp: known_append known_def dest: entries_client)
  moreover have "in_order (es @ [e]) (hss @ [?hs])"
    using T(5) p by (auto simp: in_order_def intro!: list_all2_appendI dest: entries_client)
  ultimately have "told oom mp0 (es @ [e]) (hss @ [?hs]) w'" using T(4) M(6) by (simp add: told_def)
  then show ?thesis by blast
qed

lemma told_listener: "ev_ptr e = None \<Longrightarrow> told oom mp0 es hss w \<Longrightarrow> told oom mp0 (es @ [e]) (hss @ [[]]) w"
  by (auto simp: told_def client_history_def delivered_def known_def in_order_def list_all2_appendI)

lemma told_shutdown: "told oom mp0 es hss (w\<lparr>w_shutdown := b\<rparr>) = told oom mp0 es hss w"
  by (simp add: told_def)

lemma told_signal: "told oom mp0 es hss (on_signal w) = told oom mp0 es hss w"
  by (simp add: on_signal_def told_shutdown)

text \<open>So the history is told along every run.\<close>

interpretation told: server_property fds "\<lambda>es w. \<exists>hss. told oom mp es hss w" for fds oom mp
proof unfold_locales
  show "\<exists>hss. told oom mp (es @ [e]) hss (accept_clients (ev_accepts e) w)"
    if "net_inv fds w" "ev_ptr e = None" "\<exists>hss. told oom mp es hss w" for w e es
    using that told_listener told_accept by blast
  show "\<exists>hss. told oom mp (es @ [e]) hss w'"
    if "net_inv fds w" "w_conns w = cs1 @ c # cs2" "ev_ptr e = Some (cn_self c)"
      "fits (ht_abs (w_store w)) (pending (w_conns w) + length (recv (ev_reads e)) + j)"
      "client_event e w c = Some w'" "\<exists>hss. told oom mp es hss w" for w cs1 c cs2 e j w' es
    using client_event_moves [OF that(1-5)] told_moves [OF that(1-3)] that(6) unfolding told_def by blast
qed (simp add: told_signal)

end
