(* ===== verification/Net_Laws.thy ===== *)
theory Net_Laws
  imports Command_Laws Server_Main Net_Serving Net_History
begin

text \<open>
  The properties of the event loop: what a client gets back for the bytes it sends, however they
  are cut into reads and writes, that every loop of the module returns, and the invariant of the
  server under its events.
\<close>

section \<open>A server with one client\<close>

text \<open>A set-up in which every call succeeds, and the worlds after it and after one client.\<close>

definition setup_ok :: setup_env where
  "setup_ok = \<lparr>se_socket = Some 3, se_setsockopt = True, se_getfl = True, se_setfl = True, se_pton = True,
     se_bind = True, se_listen = True, se_epoll_create = Some 3\<rparr>"

definition listening :: world where
  "listening = snd (net_init setup_ok ht_init (world_start (mem_init []) [0, 1, 2] []))"

definition connected :: world where
  "connected = accept_clients [Ac_Conn 3 True, Ac_Again] listening"

definition client :: conn where
  "client = new_conn 0 5 EPOLLIN"

lemma listening_eq:
  "fst (net_init setup_ok ht_init (world_start (mem_init []) [0, 1, 2] [])) = RC_OK"
  "listening = (world_start (mem_init []) [0, 1, 2] [])\<lparr>w_listen_fd := Some 3, w_epoll_fd := Some 4,
     w_open := [4, 3, 0, 1, 2], w_epoll := [3 \<mapsto> (None, EPOLLIN)]\<rparr>"
  by (simp_all add: listening_def setup_ok_def net_init_def setup_listener_def sys_open_def world_start_def Let_def
      next_free.simps set_nonblock_def epoll_set_def ctl_outcome_def)

lemma listening_inv: "net_inv {0, 1, 2} listening" "w_store listening = ht_init" "w_conns listening = []"
proof -
  let ?w = "world_start (mem_init []) [0, 1, 2] []"
  have b: "ht_blocks ht_init = []" by (simp add: ht_blocks_def ht_entries_def ht_init_def concat_replicate_trivial)
  have e: "net_init setup_ok ht_init ?w = (RC_OK, listening)"
    using listening_eq(1) by (simp add: listening_def prod_eq_iff)
  have w: "w_conns ?w = []" "w_epoll ?w = Map.empty" "distinct (w_open ?w)" "\<not> w_bad_close ?w"
    "w_listen_fd ?w = None" "w_epoll_fd ?w = None" "owns (w_mem ?w) (ht_blocks ht_init) alone"
    by (simp_all add: world_start_def b)
  from net_init_cases [OF w(1-6) ht_init_inv w(7) e]
  show "net_inv {0, 1, 2} listening" "w_store listening = ht_init" "w_conns listening = []"
    by (simp_all add: world_start_def)
qed

lemma connected_eq: "w_conns connected = [client]" "w_store connected = ht_init"
  "w_epoll connected 5 = Some (Some 0, EPOLLIN)" "mem_plenty (w_mem connected)"
  "w_open connected = [5, 4, 3, 0, 1, 2]"
  by (simp_all add: connected_def accept_one_def listening_eq(2) sys_open_def next_free.simps world_start_def
      malloc_def mem_init_def mem_fresh_def epoll_set_def ctl_outcome_def client_def new_conn_def Let_def mem_plenty_def)

lemma connected_inv: "net_inv {0, 1, 2} connected"
  unfolding connected_def using accept_clients_inv [OF listening_inv(1)] by blast

lemma client_ok: "conn_inv connected client" "waits client" "\<not> cn_close_after_drain client"
  "bb_contents (cn_in client) = []" "bb_contents (cn_out client) = []" "ht_inv (w_store connected)"
  using connected_inv connected_eq(1) by (auto simp: net_inv_def client_def new_conn_def)

lemma fits_empty: "n \<le> 1000000 \<Longrightarrow> fits (ht_abs ht_init) n"
  by (simp add: fits_def ht_init_abs MEM_MAX_def)

text \<open>The bytes of a \<open>PING\<close> and the start of a further request, for the examples.\<close>

definition ping :: "bytes list" where "ping = [cstr ''PING'']"
definition ping_bytes :: bytes where "ping_bytes = encode_request ping @ cstr ''*1'' @ crlf"
definition pong :: reply where "pong = RSimple (cstr ''PONG'')"

lemma ping_request: "request_ok ping" "length ping_bytes = 18" "ping_bytes = concat (map encode_request [ping]) @ cstr ''*1'' @ crlf"
  by (simp_all add: ping_bytes_def ping_def request_ok_def encode_request_def encode_bulk_def cstr_def crlf_def
      RESP_MAX_ARGC_def RESP_MAX_BULK_LEN_def dec_digits.simps)

lemma star_waits: "ref_request (cstr ''*1'' @ crlf) = RESP_NEED_MORE"
  by (simp add: cstr_def crlf_def CR_def LF_def ref_request_def ref_multi_bulk_def ref_int_def ref_bulk_def is_digit_def
      DIGIT_GUARD_def INT64_MAX_def RESP_MAX_ARGC_def RESP_MAX_BULK_LEN_def)

lemma pong_length: "length (encode_reply pong) = 7"
  by (simp add: pong_def cstr_def crlf_def)

lemma exec_ping: "exec order mp ping = (pong, mp)"
proof -
  have "map to_upper (cstr ''PING'') = cstr ''PING''" by (simp add: cstr_def to_upper_def)
  then show ?thesis by (simp add: exec_def decode_def decode_named_def ping_def pong_def)
qed

lemma ping_replies: "replies mp [ping] rs mp' \<Longrightarrow> rs = [pong] \<and> mp' = mp"
  by (erule replies.cases; auto simp: exec_ping elim: replies.cases)

lemma ping_fits: "n \<le> 1000 \<Longrightarrow> replies_fit mp [ping] n"
proof -
  assume n: "n \<le> 1000"
  have "rs = [] \<or> rs = [pong]" if "replies mp (take k [ping]) rs mp'" for k rs mp'
    using that by (cases k) (auto dest: ping_replies elim: replies.cases)
  with n show ?thesis by (fastforce simp: replies_fit_def BUF_LIMIT_def pong_length)
qed

lemma ping_recv: "recv [Rd_Bytes ping_bytes, Rd_Again] = ping_bytes"
  using ping_request(2) by (auto simp: READ_CHUNK_def)

lemma client_can_serve: "can_serve [Rd_Bytes ping_bytes, Rd_Again] [ping] (cstr ''*1'' @ crlf) connected client"
proof -
  have "ping_bytes \<noteq> []" using ping_request(2) by auto
  moreover have "w_ctl connected = []"
    by (simp add: connected_def accept_one_def listening_eq(2) sys_open_def next_free.simps world_start_def
        malloc_def mem_init_def mem_fresh_def epoll_set_def ctl_outcome_def Let_def)
  ultimately show ?thesis
    using client_ok connected_eq(4) ping_recv ping_request star_waits ping_fits [of 0]
    by (simp add: can_serve_def ctl_succeeds_def BUF_LIMIT_def READ_CHUNK_def del: recv.simps)
qed

lemma client_pinged:
  obtains w c where "handle_read [Rd_Bytes ping_bytes, Rd_Again] connected client = Some (RC_OK, w, c)"
    "bb_contents (cn_out c) = encode_reply pong" "bb_contents (cn_in c) = cstr ''*1'' @ crlf"
    "ht_abs (w_store w) = Map.empty" "conn_inv w c" "waits c" "\<not> cn_close_after_drain c"
proof -
  have "fits (ht_abs (w_store connected)) (length (bb_contents (cn_in client)) + length (recv [Rd_Bytes ping_bytes, Rd_Again]))"
    using fits_empty [of 18] ping_recv client_ok(4) ping_request(2) by (simp add: connected_eq(2) del: recv.simps)
  from handle_read_serves [OF client_ok(1,2,6) this client_can_serve] obtain w c rs where
    h: "handle_read [Rd_Bytes ping_bytes, Rd_Again] connected client = Some (RC_OK, w, c)"
    "replies (ht_abs (w_store connected)) [ping] rs (ht_abs (w_store w))"
    "bb_contents (cn_in c) = cstr ''*1'' @ crlf"
    "bb_contents (cn_out c) = bb_contents (cn_out client) @ concat (map encode_reply rs)"
    "conn_inv w c" "waits c" "\<not> cn_close_after_drain c" by blast
  with ping_replies [OF h(2)] show ?thesis
    by (intro that [of w c]) (simp_all add: client_ok(5) connected_eq(2) ht_init_abs)
qed

section \<open>One client over many events\<close>

text \<open>
  \<open>client_run w c got sent w' c'\<close>: some reads and writes on the connection \<open>c\<close>, none of which
  ended it, received the bytes \<open>got\<close> and sent the bytes \<open>sent\<close>.
\<close>

inductive client_run :: "world \<Rightarrow> conn \<Rightarrow> bytes \<Rightarrow> bytes \<Rightarrow> world \<Rightarrow> conn \<Rightarrow> bool" for w :: world and c :: conn where
  c_start: "client_run w c [] [] w c"
| c_read: "client_run w c got sent w1 c1 \<Longrightarrow> handle_read reads w1 c1 = Some (RC_OK, w2, c2) \<Longrightarrow>
    client_run w c (got @ recv reads) sent w2 c2"
| c_write: "client_run w c got sent w1 c1 \<Longrightarrow> handle_write writes w1 c1 = (RC_OK, w2, c2) \<Longrightarrow>
    w_sent w2 = w_sent w1 @ [(cn_self c1, bs)] \<Longrightarrow>
    client_run w c got (sent @ bs) w2 c2"

text \<open>
  \<open>streams oom mp got sent mp' c\<close>: the requests at the head of the received bytes took the map \<open>mp\<close> to
  \<open>mp'\<close>, and what was sent with what is pending are their replies, up to what \<open>closes_with\<close> allows.
\<close>

definition streams :: "bool \<Rightarrow> (bytes \<rightharpoonup> bytes) \<Rightarrow> bytes \<Rightarrow> bytes \<Rightarrow> (bytes \<rightharpoonup> bytes) \<Rightarrow> conn \<Rightarrow> bool" where
  "streams oom mp got sent mp' c \<longleftrightarrow> (\<exists>used lost rs p. got = used @ lost \<and>
     session oom mp used rs mp' (bb_contents (cn_in c)) \<and>
     sent @ bb_contents (cn_out c) = concat (map encode_reply rs) @ p \<and>
     closes_with oom used (bb_contents (cn_in c)) (length (concat (map encode_reply rs))) (cn_close_after_drain c) lost p)"

text \<open>What holds along a run, for \<open>j\<close> bytes that later reads may bring.\<close>

definition client_state :: "nat \<Rightarrow> world \<Rightarrow> bytes \<Rightarrow> bytes \<Rightarrow> world \<Rightarrow> conn \<Rightarrow> bool" where
  "client_state j w got sent w' c' \<longleftrightarrow>
     conn_inv w' c' \<and> waits c' \<and> ht_inv (w_store w') \<and>
     (mem_plenty (w_mem w) \<longrightarrow> mem_plenty (w_mem w')) \<and>
     fits (ht_abs (w_store w')) (length (bb_contents (cn_in c')) + j) \<and>
     streams (\<not> mem_plenty (w_mem w)) (ht_abs (w_store w)) got sent (ht_abs (w_store w')) c'"

lemma streams_closing:
  assumes "streams oom mp got sent mp' c" "cn_close_after_drain c" "cn_close_after_drain c'" "cn_in c' = cn_in c" "cn_out c' = cn_out c"
  shows "streams oom mp (got @ ignored) sent mp' c'"
proof -
  from assms(1) obtain used lost rs p where s: "got = used @ lost" "session oom mp used rs mp' (bb_contents (cn_in c))"
    "sent @ bb_contents (cn_out c) = concat (map encode_reply rs) @ p"
    "closes_with oom used (bb_contents (cn_in c)) (length (concat (map encode_reply rs))) (cn_close_after_drain c) lost p"
    unfolding streams_def by blast
  have "closes_with oom used (bb_contents (cn_in c)) (length (concat (map encode_reply rs)))
      (cn_close_after_drain c) (lost @ ignored) p"
    by (rule closes_with_mono [OF s(4)]) (simp_all add: assms(2))
  with s(1-3) assms(2-5) show ?thesis unfolding streams_def
    by (intro exI [of _ used] exI [of _ "lost @ ignored"] exI [of _ rs] exI [of _ p]) simp
qed

lemma session_length: "session oom mp bs rs mp' rest \<Longrightarrow> length rest \<le> length bs"
  by (induction rule: session.induct) auto

lemma streams_serve:
  assumes s: "streams oom mp got sent mp1 c" "\<not> cn_close_after_drain c" and oom: "oom' \<Longrightarrow> oom"
    and q: "session oom' mp1 (bb_contents (cn_in c) @ data) rs2 mp2 (bb_contents (cn_in c'))"
      "bb_contents (cn_out c') = bb_contents (cn_out c) @ concat (map encode_reply rs2) @ p"
      "closes_with oom' (bb_contents (cn_in c) @ data) (bb_contents (cn_in c'))
         (length (bb_contents (cn_out c) @ concat (map encode_reply rs2))) (cn_close_after_drain c') lost p"
  shows "streams oom mp (got @ data @ lost) sent mp2 c'"
proof -
  from s obtain rs where rs: "session oom mp got rs mp1 (bb_contents (cn_in c))"
    "sent @ bb_contents (cn_out c) = concat (map encode_reply rs)"
    by (auto simp: streams_def closes_with_open)
  have "session oom mp (got @ data) (rs @ rs2) mp2 (bb_contents (cn_in c'))"
    using session_oom_mono [OF q(1)] oom by (intro session_chunks [OF rs(1)]) blast
  moreover have "sent @ bb_contents (cn_out c') = concat (map encode_reply (rs @ rs2)) @ p"
    using q(2) rs(2) by (simp flip: append_assoc)
  moreover have "length (bb_contents (cn_out c)) \<le> length (concat (map encode_reply rs))" by (simp flip: rs(2))
  then have "closes_with oom (got @ data) (bb_contents (cn_in c'))
      (length (concat (map encode_reply (rs @ rs2)))) (cn_close_after_drain c') lost p"
    using oom session_length [OF rs(1)] q(3) by (intro closes_with_mono [OF q(3)]) (auto simp: closes_with_def)
  ultimately show ?thesis unfolding streams_def
    by (intro exI [of _ "got @ data"] exI [of _ lost] exI [of _ "rs @ rs2"] exI [of _ p]) simp
qed

lemma client_state_read:
  assumes st: "client_state (length (recv reads) + j) w got sent w1 c1"
    and h: "handle_read reads w1 c1 = Some (RC_OK, w2, c2)"
  shows "client_state j w (got @ recv reads) sent w2 c2"
proof -
  have I: "conn_inv w1 c1" "waits c1" "ht_inv (w_store w1)"
    "fits (ht_abs (w_store w1)) (length (bb_contents (cn_in c1)) + length (recv reads) + j)"
    using st by (simp_all add: client_state_def add.assoc)
  have pl: "mem_plenty (w_mem w) \<Longrightarrow> mem_plenty (w_mem w1)" using st by (simp add: client_state_def)
  from handle_read_served [OF I] h have s: "served j reads w1 c1 RC_OK w2 c2" by auto
  have st1: "streams (\<not> mem_plenty (w_mem w)) (ht_abs (w_store w)) got sent (ht_abs (w_store w1)) c1"
    using st by (simp add: client_state_def)
  have "streams (\<not> mem_plenty (w_mem w)) (ht_abs (w_store w)) (got @ recv reads) sent (ht_abs (w_store w2)) c2"
  proof (cases "cn_close_after_drain c1")
    case True
    with s have "cn_close_after_drain c2" "w_store w2 = w_store w1" "cn_in c2 = cn_in c1" "cn_out c2 = cn_out c1"
      by (simp_all add: served_def)
    with streams_closing [OF st1 True] show ?thesis by simp
  next
    case False
    with s obtain data lost rs2 p where d: "recv reads = data @ lost"
      "session (\<not> mem_plenty (w_mem w1)) (ht_abs (w_store w1)) (bb_contents (cn_in c1) @ data) rs2
         (ht_abs (w_store w2)) (bb_contents (cn_in c2))"
      "bb_contents (cn_out c2) = bb_contents (cn_out c1) @ concat (map encode_reply rs2) @ p"
      "closes_with (\<not> mem_plenty (w_mem w1)) (bb_contents (cn_in c1) @ data) (bb_contents (cn_in c2))
         (length (bb_contents (cn_out c1) @ concat (map encode_reply rs2))) (cn_close_after_drain c2) lost p"
      unfolding served_def by blast
    show ?thesis unfolding d(1) by (rule streams_serve [OF st1 False _ d(2-4)]) (use pl in blast)
  qed
  with s pl show ?thesis by (auto simp: client_state_def served_def transfers_def)
qed

lemma client_state_write:
  assumes st: "client_state j w got sent w1 c1"
    and h: "handle_write writes w1 c1 = (RC_OK, w2, c2)" "w_sent w2 = w_sent w1 @ [(cn_self c1, bs)]"
  shows "client_state j w got (sent @ bs) w2 c2"
proof -
  have I: "conn_inv w1 c1" "waits c1" "ht_inv (w_store w1)" using st by (simp_all add: client_state_def)
  note H = handle_write_props [OF I(1,2) h(1)]
  from H(6) h(2) have "bb_contents (cn_out c1) = bs @ bb_contents (cn_out c2)" by auto
  with st H(1-5,7) show ?thesis by (auto simp: client_state_def transfers_def streams_def)
qed

lemma client_run_state:
  "client_run w c got sent w' c' \<Longrightarrow> client_state j0 w [] [] w c \<Longrightarrow> j0 = length got + j \<Longrightarrow>
   client_state j w got sent w' c'"
proof (induction arbitrary: j rule: client_run.induct)
  case (c_read got sent w1 c1 reads w2 c2)
  have "client_state (length (recv reads) + j) w got sent w1 c1"
    using c_read.prems by (intro c_read.IH) simp_all
  then show ?case using c_read.hyps(2) by (rule client_state_read)
next
  case (c_write got sent w1 c1 writes w2 c2 bs)
  then show ?case using client_state_write by blast
qed simp

section \<open>Properties\<close>

text \<open>A run in which one client connects and sends a \<open>PING\<close> and the start of a further request.\<close>

definition accept_event :: event where
  "accept_event = \<lparr>ev_ptr = None, ev_mask = EPOLLIN, ev_reads = [], ev_writes = [], ev_accepts = [Ac_Conn 3 True, Ac_Again]\<rparr>"

definition ping_read :: event where
  "ping_read = \<lparr>ev_ptr = Some 0, ev_mask = EPOLLIN, ev_reads = [Rd_Bytes ping_bytes, Rd_Again], ev_writes = [], ev_accepts = []\<rparr>"

definition ping_run :: "wait_result list" where
  "ping_run = [Ew_Events False [accept_event], Ew_Events False [ping_read]]"

lemma accept_masks: "has_event EPOLLIN EPOLLIN" "\<not> has_event EPOLLIN (EPOLLERR OR EPOLLHUP)" "\<not> has_event EPOLLIN EPOLLOUT"
  by (simp_all add: has_event_def EPOLLIN_def EPOLLOUT_def EPOLLERR_def EPOLLHUP_def)

lemma ping_run_facts:
  "run_ok ping_run listening" "run_bytes ping_run = 18" "net_batch [accept_event] listening = Some connected"
  "input_of 0 (loop_events ping_run listening) = ping_bytes"
proof -
  have sh: "\<not> w_shutdown listening" "\<not> w_shutdown connected"
    by (simp_all add: connected_def accept_one_def listening_eq(2) sys_open_def next_free.simps world_start_def
        malloc_def mem_init_def mem_fresh_def epoll_set_def ctl_outcome_def Let_def)
  show b: "net_batch [accept_event] listening = Some connected"
    by (simp add: accept_event_def accept_masks connected_def)
  have ok: "batch_ok [accept_event] listening" "batch_ok [ping_read] connected"
    by (simp_all add: batch_ok_def MAX_EVENTS_def accept_event_def ping_read_def registered_def connected_eq)
  show "run_ok ping_run listening" by (simp add: ping_run_def b ok sh del: net_batch.simps split: option.split)
  show "run_bytes ping_run = 18"
    using ping_recv ping_request(2) by (simp add: ping_run_def run_bytes_def event_bytes_def accept_event_def ping_read_def del: recv.simps(2))
  have "handled [accept_event] = [accept_event]" "handled [ping_read] = [ping_read]"
    by (simp_all add: handled_def listener_fails_def accept_event_def ping_read_def accept_masks)
  then have "loop_events ping_run listening = [accept_event, ping_read]"
    by (simp add: ping_run_def b sh del: net_batch.simps split: option.split)
  then show "input_of 0 (loop_events ping_run listening) = ping_bytes"
    using ping_recv by (simp add: delivered_def accept_event_def ping_read_def accept_masks del: recv.simps)
qed

lemma ping_asked:
  assumes "requests ping_bytes qs (cstr ''*1'' @ crlf)"
  shows "qs = [ping]"
  using assms
proof (cases rule: requests.cases)
  case q_none
  then have "length ping_bytes = length (cstr ''*1'' @ crlf)" by simp
  then show ?thesis using ping_request(2) by (simp add: cstr_def)
next
  case (q_one args n qs')
  have "ref_request ping_bytes = RESP_OK (ping, length (encode_request ping))"
    using ref_request_encode [OF ping_request(1)] by (simp add: ping_bytes_def)
  with q_one have q: "args = ping" "requests (cstr ''*1'' @ crlf) qs' (cstr ''*1'' @ crlf)" by (simp_all add: ping_bytes_def)
  from q(2) have "qs' = []" using star_waits by (cases rule: requests.cases) auto
  with q_one q(1) show ?thesis by simp
qed

text \<open>
  C2. Many clients at once: the server is serializable. From a server without connections, take any
  run of the event loop, whatever the kernel reports (within what \<open>run_ok\<close> says \<open>epoll_wait\<close> documents,
  and for data below the address-space bound \<open>fits\<close>) and however the bytes of the clients are cut
  and interleaved. The loop gets to its end or to a wait, and there is one history of executed requests, in the order
  of the events that completed them, that takes the store from its first to its last content with
  the replies of the commands' specification (a request may be refused with the out-of-memory error
  only if an allocation can fail). Then for every connection that still exists: what it sent is the requests the
  history has of it, in their order, then what its input buffer holds, then input that was not taken in; what was sent to it
  and what is still in its output buffer are the replies the history has for it, in that order, and
  after them nothing but the error texts of \<open>closes_with\<close>. A connection that is not being closed has no such errors
  and lost no input, and its buffer holds the beginning of a request. A connection is being closed exactly when its
  input is malformed or a read failed; the errors that follow its replies are then \<open>-ERR Protocol error\<close> for the
  first and the text of the read error for the other, whole if there is memory and room. So no
  connection that still exists was sent a byte that answers another client.
\<close>

theorem server_serializable:
  assumes "net_inv fds w" "w_conns w = []" "w_sent w = []" "fits (ht_abs (w_store w)) (run_bytes rs)" "run_ok rs w"
  shows "\<exists>left w' hss. net_loop rs w = Some (left, w') \<and> in_order (loop_events rs w) hss \<and>
    history (\<not> mem_plenty (w_mem w)) (ht_abs (w_store w)) (concat hss) (ht_abs (w_store w')) \<and>
    (\<forall>c\<in>set (w_conns w'). client_history (\<not> mem_plenty (w_mem w)) (loop_events rs w) (concat hss) (w_sent w') c)"
proof -
  have fit: "fits (ht_abs (w_store w)) (pending (w_conns w) + run_bytes rs)" using assms(2,4) by (simp add: pending_def)
  have "told (\<not> mem_plenty (w_mem w)) (ht_abs (w_store w)) [] [] w"
    using assms(2,3) by (simp add: told_def known_def h_none in_order_def)
  then have "\<exists>hss. told (\<not> mem_plenty (w_mem w)) (ht_abs (w_store w)) [] hss w" by blast
  from told.loop [OF assms(1) fit assms(5) this] show ?thesis by (auto simp: told_def)
qed

theorem server_serializable_witness:
  "\<exists>w c hs. net_loop ping_run listening = Some (False, w) \<and> w_conns w = [c] \<and>
     bb_contents (cn_out c) = encode_reply pong \<and> history False Map.empty hs (ht_abs (w_store w)) \<and> asked 0 hs = [ping]"
proof -
  obtain w c where h: "handle_read [Rd_Bytes ping_bytes, Rd_Again] connected client = Some (RC_OK, w, c)"
    "bb_contents (cn_out c) = encode_reply pong" "bb_contents (cn_in c) = cstr ''*1'' @ crlf" "conn_inv w c"
    "\<not> cn_close_after_drain c" by (rule client_pinged)
  have sh: "\<not> w_shutdown listening" "\<not> w_shutdown connected" "w_sent listening = []" "mem_plenty (w_mem listening)"
    by (simp_all add: connected_def accept_one_def listening_eq(2) sys_open_def next_free.simps world_start_def
        malloc_def mem_init_def mem_fresh_def epoll_set_def ctl_outcome_def Let_def mem_plenty_def)
  have "fits (ht_abs (w_store connected)) (length (bb_contents (cn_in client)) + length (recv [Rd_Bytes ping_bytes, Rd_Again]) + 0)"
    using fits_empty [of 18] ping_recv client_ok(4) ping_request(2) by (simp add: connected_eq(2) del: recv.simps)
  from handle_read_served [OF client_ok(1,2,6) this] h(1) have "served 0 [Rd_Bytes ping_bytes, Rd_Again] connected client RC_OK w c"
    by auto
  then have s: "cn_self c = 0" "w_conns w = [client]" "w_shutdown w = w_shutdown connected"
    by (simp_all add: served_def transfers_def connected_eq client_def new_conn_def)
  have "net_batch [ping_read] connected = Some (update_conn c w)"
    using h(1) by (simp add: ping_read_def connected_eq(1) client_event_def accept_masks write_event_def
        client_def new_conn_def)
  then have l: "net_loop ping_run listening = Some (False, update_conn c w)"
    using sh(1,2) s(3) by (simp add: ping_run_def ping_run_facts(3) del: net_batch.simps)
  have c: "w_conns (update_conn c w) = [c]" using s(1,2) by (simp add: update_conn_def client_def new_conn_def)
  have "fits (ht_abs (w_store listening)) (run_bytes ping_run)" using fits_empty by (simp add: listening_inv(2) ping_run_facts(2))
  from server_serializable [OF listening_inv(1,3) sh(3) this ping_run_facts(1)] l c sh(4) obtain hss where
    hs: "history False Map.empty (concat hss) (ht_abs (w_store (update_conn c w)))"
    "client_history False (loop_events ping_run listening) (concat hss) (w_sent (update_conn c w)) c"
    by (auto simp: listening_inv(2) ht_init_abs)
  from hs(2) h(3,5) have "requests ping_bytes (asked 0 (concat hss)) (cstr ''*1'' @ crlf)"
    by (simp add: client_history_def books_def closes_with_open s(1) ping_run_facts(4))
  with l c h(2) hs(1) show ?thesis by (blast dest: ping_asked)
qed

text \<open>
  C3. A connection is a faithful session, however its bytes are cut. Take a connection with empty
  buffers and any sequence of reads and writes on it that all succeed (the loop closes a connection on the first that
  fails), for data below the address-space bound \<open>fits\<close>. With \<open>got\<close> the bytes received and \<open>sent\<close> the bytes sent, the
  requests at the head of \<open>got\<close> have been executed in their order, and what was sent followed by
  what is still in the output buffer is the concatenation of their replies, one each, in that order.
  As long as the connection has not been asked to close, nothing else was sent, no input was lost, and what is
  left of the input is the beginning of a request. Once it has, its input is malformed or a
  read failed, later input is not taken in, and the replies are followed by the error texts that
  \<open>closes_with\<close> names and by nothing else.
\<close>

theorem client_stream_correct:
  assumes "client_run w c got sent w' c'" "conn_inv w c" "waits c" "ht_inv (w_store w)"
    "bb_contents (cn_in c) = []" "bb_contents (cn_out c) = []" "\<not> cn_close_after_drain c"
    "fits (ht_abs (w_store w)) (length got)"
  shows "\<exists>used lost rs p. got = used @ lost \<and>
    session (\<not> mem_plenty (w_mem w)) (ht_abs (w_store w)) used rs (ht_abs (w_store w')) (bb_contents (cn_in c')) \<and>
    sent @ bb_contents (cn_out c') = concat (map encode_reply rs) @ p \<and>
    closes_with (\<not> mem_plenty (w_mem w)) used (bb_contents (cn_in c')) (length (concat (map encode_reply rs)))
      (cn_close_after_drain c') lost p \<and>
    (\<not> cn_close_after_drain c' \<longrightarrow> lost = [] \<and> p = [] \<and> ref_request (bb_contents (cn_in c')) = RESP_NEED_MORE)"
proof -
  have "ref_request [] = RESP_NEED_MORE" by (simp add: ref_request_def)
  then have "streams (\<not> mem_plenty (w_mem w)) (ht_abs (w_store w)) [] [] (ht_abs (w_store w)) c"
    using assms(5-7) by (auto simp: streams_def closes_with_open intro!: exI [of _ "[]"] session.s_done)
  then have "client_state (length got + 0) w [] [] w c" using assms(2-8) by (simp add: client_state_def)
  from client_run_state [OF assms(1) this refl] have
    "streams (\<not> mem_plenty (w_mem w)) (ht_abs (w_store w)) got sent (ht_abs (w_store w')) c'" by (simp add: client_state_def)
  then show ?thesis unfolding streams_def by (blast dest: closes_with_not_closing)
qed

theorem client_stream_correct_witness:
  "\<exists>w c rs. client_run connected client ping_bytes [] w c \<and>
     session False Map.empty ping_bytes rs Map.empty (cstr ''*1'' @ crlf) \<and>
     encode_reply pong = concat (map encode_reply rs)"
proof -
  obtain w c where h: "handle_read [Rd_Bytes ping_bytes, Rd_Again] connected client = Some (RC_OK, w, c)"
    "bb_contents (cn_out c) = encode_reply pong" "bb_contents (cn_in c) = cstr ''*1'' @ crlf"
    "ht_abs (w_store w) = Map.empty" "conn_inv w c" "waits c" "\<not> cn_close_after_drain c"
    by (rule client_pinged)
  have r: "client_run connected client ping_bytes [] w c" using c_read [OF c_start h(1)] ping_recv by (simp del: recv.simps)
  have "fits (ht_abs (w_store connected)) (length ping_bytes)"
    using fits_empty [of 18] ping_request(2) by (simp add: connected_eq(2))
  from client_stream_correct [OF r client_ok(1,2,6,4,5,3) this] r h(2-4,7) show ?thesis
    by (auto simp: connected_eq(2,4) ht_init_abs)
qed

text \<open>
  C23. The dispatch loop of \<open>handle_read\<close> returns, whatever the input holds: each turn consumes
  at least one byte of it. It stops because it wants more bytes, on a protocol error, or because
  a reply could not be written; in the first case nothing is left to execute.
\<close>

theorem dispatch_frames_terminates:
  assumes "ctx_inv c" "bb_inv b" "fits (ht_abs (c_store c)) (length (bb_contents b))"
  shows "\<exists>e c' b'. dispatch_frames c b = Some (e, c', b') \<and> ctx_inv c' \<and> bb_inv b' \<and>
    length (bb_contents b') \<le> length (bb_contents b) \<and>
    (e = De_Wait \<longrightarrow> ref_request (bb_contents b') = RESP_NEED_MORE) \<and>
    (e = De_Protocol \<longrightarrow> ref_request (bb_contents b') = RESP_PROTOCOL_ERR)"
  using dispatch_frames_returns [OF assms(1,2), of 0] assms(3) by (fastforce simp: dispatched_def)

text \<open>An input buffer that holds a \<open>PING\<close> and the start of a further request.\<close>

definition ping_input :: bytebuf where
  "ping_input = snd (snd (bytebuf_append (mem_init []) bytebuf_init ping_bytes))"

lemma ping_input: "bb_inv ping_input" "bb_contents ping_input = ping_bytes"
proof -
  obtain r m b where a: "bytebuf_append (mem_init []) bytebuf_init ping_bytes = (r, m, b)" by (metis prod_cases3)
  have len: "length ping_bytes \<le> SIZE_MAX" "length ping_bytes \<le> BUF_LIMIT"
    using ping_request(2) by (simp_all add: SIZE_MAX_def BUF_LIMIT_def)
  have r: "r = RC_OK" using bb.append_room [OF bytebuf_init_props(1) _ _ a] len by (simp add: bytebuf_init_props)
  show "bb_inv ping_input" "bb_contents ping_input = ping_bytes"
    using bb.append_inv [OF bytebuf_init_props(1) len(1) a] bb.append_ok [OF bytebuf_init_props(1) len(1)] a r
    by (auto simp: bytebuf_init_props ping_input_def)
qed

lemma ping_input_fits: "fits (ht_abs (c_store fresh_ctx)) (length (bb_contents ping_input))"
  using fits_empty [of 18] ping_request(2) by (simp add: ping_input ht_init_abs)

theorem dispatch_frames_terminates_witness:
  "\<exists>e c' b'. dispatch_frames fresh_ctx ping_input = Some (e, c', b') \<and> bb_inv b' \<and> length (bb_contents b') \<le> 18"
  using dispatch_frames_terminates [OF fresh_ctx_props(1) ping_input(1) ping_input_fits] ping_request(2) ping_input(2)
  by auto

text \<open>
  C10. Pipelining: with memory and the encodings of the requests \<open>reqs\<close> in the input, followed
  by an incomplete request \<open>part\<close>, the dispatch loop executes exactly these requests in their order,
  writes one reply for each, and leaves \<open>part\<close> in the buffer; it fails only if the replies to some
  first requests do not fit in the output buffer.
\<close>

theorem dispatch_frames_pipeline:
  assumes "ctx_inv c" "bb_inv b" "fits (ht_abs (c_store c)) (length (bb_contents b))" "mem_plenty (c_mem c)"
    "bb_contents b = concat (map encode_request reqs) @ part" "\<forall>as\<in>set reqs. request_ok as"
    "ref_request part = RESP_NEED_MORE"
  shows "\<exists>e c' b'. dispatch_frames c b = Some (e, c', b') \<and>
    (e = De_Fail \<longrightarrow> \<not> replies_fit (ht_abs (c_store c)) reqs (length (ctx_reply c))) \<and>
    (e \<noteq> De_Fail \<longrightarrow> e = De_Wait \<and> bb_contents b' = part \<and>
       (\<exists>rs. replies (ht_abs (c_store c)) reqs rs (ht_abs (c_store c')) \<and> length rs = length reqs \<and>
             ctx_reply c' = ctx_reply c @ concat (map encode_reply rs)))"
  using dispatch_frames_serves [OF assms(1,2) _ assms(4-7), of 0] assms(3) by auto

theorem dispatch_frames_pipeline_witness:
  "\<exists>c' b'. dispatch_frames fresh_ctx ping_input = Some (De_Wait, c', b') \<and>
     ctx_reply c' = encode_reply pong \<and> bb_contents b' = cstr ''*1'' @ crlf"
proof -
  have b: "bb_contents ping_input = concat (map encode_request [ping]) @ (cstr ''*1'' @ crlf)" "\<forall>as\<in>set [ping]. request_ok as"
    using ping_request ping_input(2) by simp_all
  have fit: "replies_fit (ht_abs (c_store fresh_ctx)) [ping] (length (ctx_reply fresh_ctx))"
    by (rule ping_fits) simp
  obtain e c' b' where d: "dispatch_frames fresh_ctx ping_input = Some (e, c', b')" "e = De_Wait" "bb_contents b' = cstr ''*1'' @ crlf"
    "\<exists>rs. replies (ht_abs (c_store fresh_ctx)) [ping] rs (ht_abs (c_store c')) \<and>
      ctx_reply c' = ctx_reply fresh_ctx @ concat (map encode_reply rs)"
    using dispatch_frames_pipeline [OF fresh_ctx_props(1) ping_input(1) ping_input_fits fresh_ctx_props(2) b star_waits] fit
    by blast
  with ping_replies show ?thesis by fastforce
qed

text \<open>
  \<open>handle_write\<close> sends from the front: what it handed to the socket followed by what is
  still in the output buffer is what was in the buffer. When it keeps the connection, the
  connection waits for output exactly if some is left, so that no pending reply is forgotten.
\<close>

theorem handle_write_fifo:
  assumes "conn_inv w c" "waits c"
  shows "case handle_write writes w c of (r, w', c') \<Rightarrow>
    (\<exists>sent. w_sent w' = w_sent w @ [(cn_self c, sent)] \<and> bb_contents (cn_out c) = sent @ bb_contents (cn_out c')) \<and>
    w_store w' = w_store w \<and> cn_in c' = cn_in c \<and> conn_inv w' c' \<and>
    (r = RC_OK \<longrightarrow> (has_event (cn_events c') EPOLLOUT \<longleftrightarrow> bb_contents (cn_out c') \<noteq> []))"
proof -
  obtain r w' c' where h: "handle_write writes w c = (r, w', c')" by (metis prod_cases3)
  note H = handle_write_props [OF assms h]
  have "has_event (cn_events c') EPOLLOUT \<longleftrightarrow> bb_contents (cn_out c') \<noteq> []" if "r = RC_OK"
  proof -
    have "bb_inv (cn_out c')" using H(2) by (simp add: conn_inv_def)
    from waits_iff [OF this] H(5) [OF that] show ?thesis
      by (cases "bb_contents (cn_out c') = []"; cases "cn_close_after_drain c'")
         (simp_all add: has_event_def EPOLLIN_def EPOLLOUT_def)
  qed
  with H(2-4,6) show ?thesis by (simp add: h)
qed

theorem handle_write_fifo_witness:
  "case handle_write [Wr_Again] connected client of (r, w', c') \<Rightarrow> w_sent w' = w_sent connected @ [(0, [])]"
  using handle_write_fifo [OF client_ok(1,2), of "[Wr_Again]"] client_ok(5)
  by (auto simp: client_def new_conn_def split: prod.splits)

text \<open>
  C8. A batch of events, whatever the kernel reports in it, keeps the invariant of the server:
  the table is sound, every connection has sound buffers, is registered with its own address and
  waits for what it needs, the open descriptors are the server's, one per connection, and the
  live blocks are exactly those the server owns. Every handler of the batch returns.
\<close>

theorem net_batch_keeps_invariant:
  assumes "net_inv fds w" "batch_ok es w" "fits (ht_abs (w_store w)) (pending (w_conns w) + event_bytes es)"
  shows "\<exists>w'. net_batch es w = Some w' \<and> net_inv fds w'"
  using net_batch_inv [OF assms(1), of es 0] batch_known [OF assms(1,2)] assms(3) by auto

definition ping_event :: event where
  "ping_event = \<lparr>ev_ptr = Some 0, ev_mask = EPOLLIN, ev_reads = [Rd_Bytes (cstr ''PING'' @ crlf)],
     ev_writes = [], ev_accepts = []\<rparr>"

lemma ping_batch: "batch_ok [ping_event] connected" "event_bytes [ping_event] = 6"
  by (simp_all add: batch_ok_def MAX_EVENTS_def ping_event_def registered_def connected_eq event_bytes_def
      cstr_def READ_CHUNK_def)

theorem net_batch_keeps_invariant_witness:
  "\<exists>w'. net_batch [ping_event] connected = Some w' \<and> net_inv {0, 1, 2} w'"
proof (rule net_batch_keeps_invariant [OF connected_inv ping_batch(1)])
  show "fits (ht_abs (w_store connected)) (pending (w_conns connected) + event_bytes [ping_event])"
    using fits_empty [of 6] client_ok(4) by (simp add: connected_eq ping_batch(2) pending_def)
qed

text \<open>
  C18. No lost wakeup: after a batch, every connection with replies to send is registered
  with epoll for output, and every connection that is not being closed for input.
\<close>

theorem net_batch_wakes:
  assumes "net_inv fds w" "batch_ok es w" "fits (ht_abs (w_store w)) (pending (w_conns w) + event_bytes es)"
  shows "\<exists>w'. net_batch es w = Some w' \<and> (\<forall>c\<in>set (w_conns w'). \<exists>m. w_epoll w' (cn_fd c) = Some (Some (cn_self c), m) \<and>
    (has_event m EPOLLOUT \<longleftrightarrow> bb_contents (cn_out c) \<noteq> []) \<and> (has_event m EPOLLIN \<longleftrightarrow> \<not> cn_close_after_drain c))"
proof -
  obtain w' where w': "net_batch es w = Some w'" "net_inv fds w'"
    using net_batch_inv [OF assms(1), of es 0] batch_known [OF assms(1,2)] assms(3) by auto
  show ?thesis
  proof (intro exI [of _ w'] conjI ballI w'(1))
    fix c assume "c \<in> set (w_conns w')"
    with w'(2) have c: "conn_inv w' c" "waits c" by (auto simp: net_inv_def)
    have "bb_inv (cn_out c)" using c(1) by (simp add: conn_inv_def)
    from waits_iff [OF this] c(2)
    have "(has_event (cn_events c) EPOLLOUT \<longleftrightarrow> bb_contents (cn_out c) \<noteq> []) \<and>
        (has_event (cn_events c) EPOLLIN \<longleftrightarrow> \<not> cn_close_after_drain c)"
      by (cases "bb_contents (cn_out c) = []"; cases "cn_close_after_drain c")
         (simp_all add: has_event_def EPOLLIN_def EPOLLOUT_def)
    with c(1) show "\<exists>m. w_epoll w' (cn_fd c) = Some (Some (cn_self c), m) \<and>
        (has_event m EPOLLOUT \<longleftrightarrow> bb_contents (cn_out c) \<noteq> []) \<and> (has_event m EPOLLIN \<longleftrightarrow> \<not> cn_close_after_drain c)"
      by (auto simp: conn_inv_def)
  qed
qed

theorem net_batch_wakes_witness:
  "\<exists>w'. net_batch [ping_event] connected = Some w' \<and>
     (\<forall>c\<in>set (w_conns w'). \<exists>m. w_epoll w' (cn_fd c) = Some (Some (cn_self c), m))"
proof -
  have "fits (ht_abs (w_store connected)) (pending (w_conns connected) + event_bytes [ping_event])"
    using fits_empty [of 6] client_ok(4) by (simp add: connected_eq ping_batch(2) pending_def)
  from net_batch_wakes [OF connected_inv ping_batch(1) this] show ?thesis by blast
qed

text \<open>
  C38. What the server does with a connection that ends: complete requests that arrived just
  before the end of the stream are not executed. The read loop meets the end of the stream before
  anything is dispatched, and the connection is closed with store and output as they were
  (with memory and room in the input buffer, so that both reads happen).
\<close>

theorem requests_before_eof_dropped:
  assumes "conn_inv w c" "\<not> cn_close_after_drain c" "mem_plenty (w_mem w)"
    "bs \<noteq> []" "length bs \<le> READ_CHUNK" "length (bb_contents (cn_in c)) + 2 * READ_CHUNK \<le> unat BYTEBUF_MAX"
  shows "\<exists>w' c'. handle_read [Rd_Bytes bs, Rd_Bytes []] w c = Some (RC_ERR, w', c') \<and>
    w_store w' = w_store w \<and> cn_out c' = cn_out c"
proof -
  have inv: "bb_inv (cn_in c)" using assms(1) by (simp add: conn_inv_def)
  have lim: "length (bb_contents (cn_in c)) + READ_CHUNK \<le> BUF_LIMIT" using assms(6) by simp
  obtain tail m1 b1 where p: "read_prepare (w_mem w) (cn_in c) = Inr (tail, m1, b1)"
    using read_prepare_fail(6) [OF inv] assms(3) lim
    by (cases "read_prepare (w_mem w) (cn_in c)") (auto simp: not_le [symmetric])
  note P = read_prepare_ok [OF inv p]
  have bs: "take READ_CHUNK bs = bs" using assms(5) by simp
  define b2 where "b2 = read_into b1 tail bs"
  have R: "bb_inv b2" "bb_contents b2 = bb_contents (cn_in c) @ bs"
    using read_into_props [OF P(1,6) assms(5)] P(2,5) by (simp_all add: b2_def)
  have "length (bb_contents b2) + READ_CHUNK \<le> BUF_LIMIT" using R(2) assms(5,6) by simp
  then obtain tail2 m2 b3 where p2: "read_prepare m1 b2 = Inr (tail2, m2, b3)"
    using read_prepare_fail(6) [OF R(1)] P(3) assms(3)
    by (cases "read_prepare m1 b2") (auto simp: not_le [symmetric])
  have "read_loop (w_mem w) (cn_in c) [Rd_Bytes bs, Rd_Bytes []] = (Re_Close, m2, b3)"
    using p p2 assms(4) by (simp add: bs b2_def [symmetric])
  then show ?thesis using assms(2) by (simp add: handle_read_def)
qed

theorem requests_before_eof_dropped_witness:
  "\<exists>w' c'. handle_read [Rd_Bytes (cstr ''FLUSHDB'' @ crlf), Rd_Bytes []] connected client = Some (RC_ERR, w', c') \<and>
     w_store w' = ht_init \<and> bb_contents (cn_out c') = []"
proof -
  have "cstr ''FLUSHDB'' @ crlf \<noteq> []" "length (cstr ''FLUSHDB'' @ crlf) \<le> READ_CHUNK"
    by (simp_all add: cstr_def READ_CHUNK_def)
  from requests_before_eof_dropped [OF client_ok(1,3) connected_eq(4) this] client_ok(4,5) connected_eq(2)
  show ?thesis by (auto simp: READ_CHUNK_def BUF_LIMIT_def)
qed

text \<open>
  C5. A client that keeps to the protocol is served. Take a connection whose buffered bytes and
  the bytes that now arrive, in chunks of any size, are the requests \<open>reqs\<close> and the start of a
  further one. If memory, room and \<open>epoll_ctl\<close> do not fail, one call of \<open>handle_read\<close> executes all
  of \<open>reqs\<close> in their order, appends one reply each to the output, keeps the start of the further
  request, and keeps the connection, armed for what it still waits for.
\<close>

theorem pipelined_client_served:
  assumes "conn_inv w c" "waits c" "ht_inv (w_store w)"
    "fits (ht_abs (w_store w)) (length (bb_contents (cn_in c)) + length (recv reads))"
    "can_serve reads reqs part w c"
  shows "\<exists>w' c' rs. handle_read reads w c = Some (RC_OK, w', c') \<and>
    replies (ht_abs (w_store w)) reqs rs (ht_abs (w_store w')) \<and> length rs = length reqs \<and>
    bb_contents (cn_in c') = part \<and>
    bb_contents (cn_out c') = bb_contents (cn_out c) @ concat (map encode_reply rs) \<and>
    conn_inv w' c' \<and> waits c' \<and> \<not> cn_close_after_drain c'"
  using handle_read_serves [OF assms] by blast

theorem pipelined_client_served_witness:
  "\<exists>w' c'. handle_read [Rd_Bytes ping_bytes, Rd_Intr, Rd_Again] connected client = Some (RC_OK, w', c') \<and>
     bb_contents (cn_out c') = encode_reply pong"
proof -
  have "recv [Rd_Bytes ping_bytes, Rd_Intr, Rd_Again] = ping_bytes" using ping_request(2) by (auto simp: READ_CHUNK_def)
  then have "can_serve [Rd_Bytes ping_bytes, Rd_Intr, Rd_Again] [ping] (cstr ''*1'' @ crlf) connected client"
    "fits (ht_abs (w_store connected))
       (length (bb_contents (cn_in client)) + length (recv [Rd_Bytes ping_bytes, Rd_Intr, Rd_Again]))"
    using client_can_serve ping_recv fits_empty [of 18] ping_request(2)
    by (simp_all add: can_serve_def connected_eq(2) client_ok(4) del: recv.simps)
  from pipelined_client_served [OF client_ok(1,2,6) this(2,1)] show ?thesis
    using ping_replies client_ok(5) by fastforce
qed

text \<open>The events of one exchange: the socket of a connection can be read, then written.\<close>

definition readable :: "addr \<Rightarrow> read_result list \<Rightarrow> event" where
  "readable a reads = \<lparr>ev_ptr = Some a, ev_mask = EPOLLIN, ev_reads = reads, ev_writes = [], ev_accepts = []\<rparr>"

definition writable :: "addr \<Rightarrow> write_result list \<Rightarrow> event" where
  "writable a writes = \<lparr>ev_ptr = Some a, ev_mask = EPOLLOUT, ev_reads = [], ev_writes = writes, ev_accepts = []\<rparr>"

lemma out_masks: "has_event EPOLLOUT EPOLLOUT" "\<not> has_event EPOLLOUT (EPOLLERR OR EPOLLHUP)" "\<not> has_event EPOLLOUT EPOLLIN"
  by (simp_all add: has_event_def EPOLLIN_def EPOLLOUT_def EPOLLERR_def EPOLLHUP_def)

lemma find_conn_mid: "cn_self c = a \<Longrightarrow> a \<notin> cn_self ` set cs1 \<Longrightarrow> find_conn a (cs1 @ c # cs2) = Some c"
  by (induction cs1) auto

lemma readable_batch:
  assumes "find_conn a (w_conns w) = Some c" "handle_read reads w c = Some (RC_OK, w1, c1)"
  shows "net_batch [readable a reads] w = Some (update_conn c1 w1)"
  using assms by (simp add: readable_def client_event_def write_event_def accept_masks)

lemma writable_batch:
  assumes "find_conn a (w_conns w) = Some c" "handle_write writes w c = (RC_OK, w1, c1)"
  shows "net_batch [writable a writes] w = Some (update_conn c1 w1)"
  using assms by (simp add: writable_def client_event_def write_event_def out_masks)

text \<open>
  C4. A client that keeps to the protocol gets its answers. Among any number of clients, take one
  that has sent the requests \<open>reqs\<close> and perhaps the start of a further one, in pieces of any size.
  If memory, room and \<open>epoll_ctl\<close> do not fail, the event that its socket is readable and then the
  event that it is writable, with a socket that takes the bytes in pieces of any size, execute \<open>reqs\<close> in
  their order and send what was pending and one reply for each; nothing is left to send,
  and the connection is kept and waits for input.
\<close>

theorem requests_answered:
  assumes inv: "net_inv fds w" and c: "c \<in> set (w_conns w)" and can: "can_serve reads reqs part w c"
    and fit: "fits (ht_abs (w_store w)) (length (bb_contents (cn_in c)) + length (recv reads))"
    and writes: "drains BUF_LIMIT writes"
  shows "\<exists>w1 w2 c2 rs. net_batch [readable (cn_self c) reads] w = Some w1 \<and>
    net_batch [writable (cn_self c) writes] w1 = Some w2 \<and>
    replies (ht_abs (w_store w)) reqs rs (ht_abs (w_store w2)) \<and> length rs = length reqs \<and>
    sent_to (cn_self c) (w_sent w2) =
      sent_to (cn_self c) (w_sent w) @ bb_contents (cn_out c) @ concat (map encode_reply rs) \<and>
    find_conn (cn_self c) (w_conns w2) = Some c2 \<and> bb_contents (cn_in c2) = part \<and> bb_contents (cn_out c2) = [] \<and>
    cn_events c2 = EPOLLIN \<and> net_inv fds w2"
proof -
  obtain cs1 cs2 where cs: "w_conns w = cs1 @ c # cs2" using c by (meson split_list)
  have first: "cn_self c \<notin> cn_self ` set cs1" using net_inv_selves [OF inv] unfolding cs by auto
  have I: "conn_inv w c" "waits c" "ht_inv (w_store w)" using inv c by (auto simp: net_inv_def)
  from handle_read_serves [OF I fit can] obtain w1 c1 rs where
    h: "handle_read reads w c = Some (RC_OK, w1, c1)" "replies (ht_abs (w_store w)) reqs rs (ht_abs (w_store w1))"
    "length rs = length reqs" "bb_contents (cn_in c1) = part"
    "bb_contents (cn_out c1) = bb_contents (cn_out c) @ concat (map encode_reply rs)"
    "\<not> cn_close_after_drain c1" "ctl_succeeds w1" by blast
  from handle_read_served [OF I, of reads 0] fit h(1) have "served 0 reads w c RC_OK w1 c1" by auto
  then have S: "transfers w c w1 c1" "conn_inv w1 c1" "ht_inv (w_store w1)" "waits c1" "w_sent w1 = w_sent w"
    by (simp_all add: served_def)
  have self: "cn_self c1 = cn_self c" using S(1) by (simp add: transfers_def)
  define v1 where "v1 = update_conn c1 w1"
  have U: "net_inv fds v1" "w_conns v1 = cs1 @ c1 # cs2"
    unfolding v1_def using net_inv_update [OF inv cs S(1,3,2,4)] by blast+
  have v1: "w_sent v1 = w_sent w" "w_store v1 = w_store w1" "ctl_succeeds v1" "conn_inv v1 c1"
    using S(5) h(7) U by (simp_all add: v1_def ctl_succeeds_def update_conn_def net_inv_def)
  have "bb_inv (cn_out c1)" using S(2) by (simp add: conn_inv_def)
  then have "drains (length (bb_contents (cn_out c1))) writes"
    using bb_contents_limit by (intro drains_mono [OF writes]) blast
  from handle_write_drains [OF v1(4) this h(6) v1(3)] obtain w2 c2 where
    d: "handle_write writes v1 c1 = (RC_OK, w2, c2)" "w_sent w2 = w_sent v1 @ [(cn_self c1, bb_contents (cn_out c1))]"
    "w_store w2 = w_store v1" "bb_contents (cn_out c2) = []" "cn_in c2 = cn_in c1" "cn_events c2 = EPOLLIN" by blast
  note H = handle_write_props [OF v1(4) S(4) d(1)]
  have "ht_inv (w_store w2)" using S(3) d(3) v1(2) by simp
  note W = net_inv_update [OF U H(1) this H(2) H(5) [OF refl]]
  have self2: "cn_self c2 = cn_self c" using H(1) self by (simp add: transfers_def)
  show ?thesis
  proof (rule exI [of _ v1], rule exI [of _ "update_conn c2 w2"], intro exI [of _ c2] exI [of _ rs] conjI)
    show "net_batch [readable (cn_self c) reads] w = Some v1"
      unfolding v1_def by (rule readable_batch [OF _ h(1)]) (simp add: cs find_conn_mid [OF refl first])
    show "net_batch [writable (cn_self c) writes] v1 = Some (update_conn c2 w2)"
      by (rule writable_batch [OF _ d(1)]) (simp add: U(2) find_conn_mid [OF self first])
    show "find_conn (cn_self c) (w_conns (update_conn c2 w2)) = Some c2"
      using find_conn_mid [OF self2 first] by (simp add: W(2))
  qed (use h d v1 self W(1) in simp_all)
qed

theorem requests_answered_witness:
  "\<exists>w1 w2. net_batch [readable 0 [Rd_Bytes ping_bytes, Rd_Again]] connected = Some w1 \<and>
     net_batch [writable 0 [Wr_Bytes 3, Wr_Intr, Wr_Bytes 2000000000]] w1 = Some w2 \<and>
     sent_to 0 (w_sent w2) = encode_reply pong"
proof -
  have c: "client \<in> set (w_conns connected)" "cn_self client = 0" by (simp_all add: connected_eq client_def new_conn_def)
  have s: "w_sent connected = []"
    by (simp add: connected_def accept_one_def listening_eq(2) sys_open_def next_free.simps world_start_def
        malloc_def mem_init_def mem_fresh_def epoll_set_def ctl_outcome_def Let_def)
  have f: "fits (ht_abs (w_store connected)) (length (bb_contents (cn_in client)) + length (recv [Rd_Bytes ping_bytes, Rd_Again]))"
    using fits_empty [of 18] ping_recv client_ok(4) ping_request(2) by (simp add: connected_eq(2) del: recv.simps)
  have "drains BUF_LIMIT [Wr_Bytes 3, Wr_Intr, Wr_Bytes 2000000000]" by (simp add: BUF_LIMIT_def)
  from requests_answered [OF connected_inv c(1) client_can_serve f this] show ?thesis
    using ping_replies client_ok(5) by (fastforce simp: c(2) s)
qed

end
