(* ===== verification/Program.thy ===== *)
theory Program
  imports Smoke Net_Laws Store_Laws
begin

text \<open>
  The whole of \<open>main\<close>: the self tests leave a sound store under whatever allocation failures, so the
  server that follows them starts from its invariant.
\<close>

section \<open>The self tests keep the store sound\<close>

text \<open>\<open>sound n m ht\<close>: a table that owns the live blocks and leaves room for \<open>n\<close> bytes of requests.\<close>

definition sound :: "nat \<Rightarrow> mem \<Rightarrow> hashtable \<Rightarrow> bool" where
  "sound n m ht \<longleftrightarrow> ht_inv ht \<and> owns m (ht_blocks ht) alone \<and> fits (ht_abs ht) n"

lemma sound_init: "fits Map.empty n \<Longrightarrow> sound n (mem_init os) ht_init"
  using table_run_sound [OF t_init] by (simp add: sound_def ht_init_inv ht_init_abs)

lemma sound_set:
  assumes "sound (16 + j) m ht" "ht_set m ht k v = (r, m', ht')" "length k \<le> 16" "length v \<le> 16"
  shows "sound j m' ht'"
proof -
  have S: "ht_inv ht" "owns m (ht_blocks ht) alone" "fits (ht_abs ht) (16 + j)" using assms(1) by (simp_all add: sound_def)
  have "length v + j \<le> MEM_MAX" using S(3) assms(4) by (simp add: fits_def)
  then have "fits ((ht_abs ht)(k \<mapsto> v)) j"
    using fits_update [OF S(3) _ assms(3)] ht_dom_finite [OF S(1)] by simp
  then have "fits (ht_abs ht') j"
    using kv.put_atomic [OF S(1) assms(2)] fits_mono [OF S(3), of j] by auto
  with kv.put_inv [OF S(1) assms(2)] ht_set_owns [OF S(1) assms(2) S(2)] show ?thesis by (simp add: sound_def)
qed

lemma sound_del:
  assumes "sound j m ht" "ht_del m ht k = (b, m', ht')"
  shows "sound j m' ht'"
proof -
  have S: "ht_inv ht" "owns m (ht_blocks ht) alone" "fits (ht_abs ht) j" using assms(1) by (simp_all add: sound_def)
  have "ht_abs ht' \<subseteq>\<^sub>m ht_abs ht" using kv.rem_abs [OF S(1) assms(2)] by (auto simp: map_le_def)
  with fits_subset [OF S(3) _ ht_dom_finite [OF S(1)]] kv.rem_inv [OF S(1) assms(2)]
    ht_del_owns [OF S(1) assms(2) S(2)] show ?thesis by (simp add: sound_def)
qed

lemma sound_mono: "sound n m ht \<Longrightarrow> k \<le> n \<Longrightarrow> sound k m ht"
  using fits_mono by (auto simp: sound_def)

lemma smoke_reads_sound:
  assumes "sound (16 + j) m ht"
  shows "case smoke_reads m ht of (m', ht', obs) \<Rightarrow> sound j m' ht'"
proof -
  obtain r m1 ht1 where s: "ht_set m ht (cstr ''hello'') (cstr ''WORLD!'') = (r, m1, ht1)" by (metis prod_cases3)
  obtain b m2 ht2 where d: "ht_del m1 ht1 (cstr ''name'') = (b, m2, ht2)" by (metis prod_cases3)
  have "sound j m1 ht1" by (rule sound_set [OF assms s]) (simp_all add: cstr_def)
  then have "sound j m2 ht2" by (rule sound_del [OF _ d])
  then show ?thesis by (simp add: smoke_reads_def s d)
qed

lemma smoke_test_sound:
  assumes "sound (64 + j) m ht"
  shows "case smoke_test m ht of (m', ht', obs) \<Rightarrow> sound j m' ht'"
proof -
  have len: "length (cstr ''hello'') \<le> 16" "length (cstr ''world'') \<le> 16" "length (cstr ''name'') \<le> 16"
    "length (cstr ''redis-in-c'') \<le> 16" "length bin_key \<le> 16" "length bin_val \<le> 16"
    by (simp_all add: cstr_def bin_key_def bin_val_def)
  obtain r1 m1 ht1 where s1: "ht_set m ht (cstr ''hello'') (cstr ''world'') = (r1, m1, ht1)" by (metis prod_cases3)
  obtain r2 m2 ht2 where s2: "ht_set m1 ht1 (cstr ''name'') (cstr ''redis-in-c'') = (r2, m2, ht2)" by (metis prod_cases3)
  obtain r3 m3 ht3 where s3: "ht_set m2 ht2 bin_key bin_val = (r3, m3, ht3)" by (metis prod_cases3)
  have S1: "sound (48 + j) m1 ht1" using sound_set [OF _ s1 len(1,2), of "48 + j"] assms by simp
  have S2: "sound (32 + j) m2 ht2" using sound_set [OF _ s2 len(3,4), of "32 + j"] S1 by simp
  have S3: "sound (16 + j) m3 ht3" using sound_set [OF _ s3 len(5,6), of "16 + j"] S2 by simp
  have "sound j m1 ht1" "sound j m2 ht2" "sound j m3 ht3"
    using sound_mono [OF S1, of j] sound_mono [OF S2, of j] sound_mono [OF S3, of j] by simp_all
  then show ?thesis
    using smoke_reads_sound [OF S3] by (simp add: smoke_test_def s1 s2 s3 split: rc.split)
qed

definition ctx_sound :: "nat \<Rightarrow> command_ctx \<Rightarrow> bool" where
  "ctx_sound n c \<longleftrightarrow> ctx_inv c \<and> owns (c_mem c) (ctx_blocks c) alone \<and> fits (ht_abs (c_store c)) n"

lemma command_execute_sound:
  assumes "ctx_sound (20 + j) c" "\<forall>a\<in>set args. length a \<le> 20" "length args \<le> RESP_MAX_ARGC"
    "command_execute c args = (rc, c')"
  shows "ctx_sound j c'"
proof -
  have S: "ctx_inv c" "owns (c_mem c) (ctx_blocks c) alone" "fits (ht_abs (c_store c)) (20 + j)"
    using assms(1) by (simp_all add: ctx_sound_def)
  have m: "in_memory (ht_abs (c_store c)) args"
    by (rule fits_in_memory [OF S(3)]) (use assms(2,3) in auto)
  have fin: "finite (dom (ht_abs (c_store c)))" using S(1) ht_dom_finite by (simp add: ctx_inv_def)
  note A = command_execute_answers [OF S(1) m, unfolded answers_def assms(4) prod.case]
  have "owns (c_mem c) (ctx_blocks c @ [] @ []) alone" using S(2) by simp
  then have "owns (c_mem c') (ctx_blocks c' @ []) alone" using A by blast
  moreover have "fits (ht_abs (c_store c')) j"
    using A exec_fits [OF S(3) _ fin assms(2), of "ht_keys (c_store c)"] fits_mono [OF S(3), of j] by auto
  ultimately show ?thesis using A by (simp add: ctx_sound_def)
qed

definition small_case :: "cmd_case \<Rightarrow> bool" where
  "small_case cs \<longleftrightarrow> list_all (\<lambda>a. length a \<le> 20) (fst cs) \<and> length (fst cs) \<le> RESP_MAX_ARGC"

lemma cmd_check_sound:
  assumes "ctx_sound (20 + j) c" "small_case cs" "cmd_check cs c = (ok, c')"
  shows "ctx_sound j c'"
proof -
  obtain rc c1 where e: "command_execute c (fst cs) = (rc, c1)" by fastforce
  have "ctx_sound j c1"
    using assms(2) by (intro command_execute_sound [OF assms(1) _ _ e]) (auto simp: small_case_def list_all_iff)
  moreover have "c' = c1\<lparr>c_out := bytebuf_reset (c_out c1)\<rparr>" using assms(3) by (simp add: cmd_check_def e)
  ultimately show ?thesis
    using bytebuf_reset_props(1) [of "c_out c1"]
    by (auto simp: ctx_sound_def ctx_inv_def ctx_blocks_def bb_blocks_def bytebuf_reset_def)
qed

lemma cmd_checks_sound:
  "ctx_sound (20 * length css + j) c \<Longrightarrow> list_all small_case css \<Longrightarrow>
   cmd_checks css c p n = (p', n', c') \<Longrightarrow> ctx_sound j c'"
proof (induction css arbitrary: c p n)
  case (Cons cs css)
  obtain ok c1 where k: "cmd_check cs c = (ok, c1)" by fastforce
  have "ctx_sound (20 + (20 * length css + j)) c" using Cons.prems(1) by (simp add: add.assoc)
  then have "ctx_sound (20 * length css + j) c1"
    by (rule cmd_check_sound [OF _ _ k]) (use Cons.prems(2) in simp)
  with Cons.IH [of c1] Cons.prems(2,3) show ?case by (simp add: k split: if_splits)
qed simp

lemma command_cases_small: "list_all small_case command_cases" "length command_cases = 41"
  by (simp_all add: command_cases_def basic_cases_def arithmetic_cases_def string_cases_def keyspace_cases_def
      atomic_cases_def small_case_def on_def cstr_def RESP_MAX_ARGC_def)

lemma command_smoke_test_sound:
  assumes "sound (820 + j) m st"
  shows "case command_smoke_test m st of (counts, m', st') \<Rightarrow> sound j m' st'"
proof -
  let ?c = "\<lparr>c_mem = m, c_store = st, c_out = bytebuf_init\<rparr>"
  obtain p n c' where k: "cmd_checks command_cases ?c 0 0 = (p, n, c')" by (metis prod_cases3)
  have "ctx_sound (20 * length command_cases + j) ?c"
    using assms by (simp add: command_cases_small ctx_sound_def sound_def ctx_inv_def ctx_blocks_def)
  from cmd_checks_sound [OF this command_cases_small(1) k]
  have S: "ctx_inv c'" "owns (c_mem c') (ht_blocks (c_store c') @ bb_blocks (c_out c')) alone" "fits (ht_abs (c_store c')) j"
    by (simp_all add: ctx_sound_def ctx_blocks_def)
  have "owns (c_mem c') (bb_blocks (c_out c') @ ht_blocks (c_store c')) alone"
    using S(2) by (rule owns_perm) simp
  with bytebuf_free_owns [of "c_mem c'" "c_out c'"]
  have "owns (fst (bytebuf_free (c_mem c') (c_out c'))) (ht_blocks (c_store c')) alone" by (metis prod.collapse)
  with S show ?thesis by (simp add: command_smoke_test_def k sound_def ctx_inv_def)
qed

lemma main_store_sound:
  assumes "fits Map.empty (1000 + j)" "main_store (mem_init os) = (m, st)"
  shows "sound j m st"
proof -
  obtain m1 st1 obs where s: "smoke_test (mem_init os) ht_init = (m1, st1, obs)" by (metis prod_cases3)
  obtain k m2 st2 where c: "command_smoke_test m1 st1 = (k, m2, st2)" by (metis prod_cases3)
  have "sound (64 + (820 + j)) (mem_init os) ht_init" by (rule sound_mono [OF sound_init [OF assms(1)]]) simp
  from smoke_test_sound [OF this] s have "sound (820 + j) m1 st1" by simp
  from command_smoke_test_sound [OF this] c assms(2) s show ?thesis by (simp add: main_store_def)
qed

lemma main_program_cases:
  assumes "distinct fds" "fits Map.empty (1000 + run_bytes rs)" "main_store (mem_init os) = (m, st)"
    "\<And>w. net_init se st (world_start m fds ctl) = (RC_OK, w) \<Longrightarrow> run_ok rs w"
  shows "main_program se rs (mem_init os) fds ctl = None \<and> \<not> run_stops rs \<or>
    (\<exists>code w'. main_program se rs (mem_init os) fds ctl = Some (code, w') \<and> all_returned (set fds) w' \<and>
       (code = 0 \<longleftrightarrow> fst (net_init se st (world_start m fds ctl)) = RC_OK))"
proof -
  have "sound (run_bytes rs) m st" by (rule main_store_sound [OF assms(2,3)])
  then have S: "ht_inv st" "owns m (ht_blocks st) alone" "fits (ht_abs st) (run_bytes rs)" by (simp_all add: sound_def)
  have eq: "main_program se rs (mem_init os) fds ctl = main_serve se rs st (world_start m fds ctl)"
    by (simp add: main_program_def assms(3))
  show ?thesis
  proof (rule main_serve_cases [OF S(1,2) assms(1), of se ctl rs])
    show "fits (ht_abs st) (run_bytes rs) \<and> run_ok rs w"
      if "net_init se st (world_start m fds ctl) = (RC_OK, w)" for w
      using that assms(4) S(3) by simp
  qed (auto simp: eq)
qed

end
