(* ===== verification/Net_Heap.thy ===== *)
theory Net_Heap
  imports Command_Heap Net_Server
begin

text \<open>
  The event loop of \<open>networking.c\<close> on the table of \<open>Ht_Heap\<close>: the dispatch loop executes its requests
  with the handlers of \<open>Command_Heap\<close>, so every lookup goes through pointers into a store that all
  clients share. The theory shows that no batch of events and no run of the loop makes a handler
  touch memory that is not there, and that the loop does what \<open>Networking\<close> says.
\<close>

section \<open>The server on the store\<close>

text \<open>
  The globals of \<open>networking.c\<close> beside the blocks and the table of the store. \<open>g_store\<close> is
  \<open>ps_table\<close>; the field \<open>w_store\<close> of the world is not used.
\<close>

record pserver =
  ps_net :: world
  ps_at :: "addr \<rightharpoonup> block"
  ps_table :: ptable

text \<open>A step that does not touch the store.\<close>

definition ps_lift :: "pserver \<Rightarrow> rc \<times> world \<times> conn \<Rightarrow> rc \<times> pserver \<times> conn" where
  "ps_lift s res = (case res of (r, w, c) \<Rightarrow> (r, s\<lparr>ps_net := w\<rparr>, c))"

partial_function (option) p_dispatch_frames ::
  "heap_ctx \<Rightarrow> bytebuf \<Rightarrow> (dispatch_end \<times> heap_ctx \<times> bytebuf) option" where
  "p_dispatch_frames x b =
     (case resp_parse_request (input_bytes b) (unat (bytebuf_len b)) of
        RESP_NEED_MORE \<Rightarrow> Some (De_Wait, x, b)
      | RESP_PROTOCOL_ERR \<Rightarrow> Some (De_Protocol, snd (p_reply_error (cstr ''ERR Protocol error'') x), b)
      | RESP_OK req \<Rightarrow> do {
          (rc, x') \<leftarrow> p_command_execute x (map (slice_bytes (input_bytes b)) (rq_args req));
          (case rc of
             RC_ERR \<Rightarrow> Some (De_Fail, x', b)
           | RC_OK \<Rightarrow> p_dispatch_frames x' (bytebuf_consume b (word_of_nat (rq_consumed req)))) })"

definition p_handle_read :: "read_result list \<Rightarrow> pserver \<Rightarrow> conn \<Rightarrow> (rc \<times> pserver \<times> conn) option" where
  "p_handle_read reads s c =
     (if cn_close_after_drain c then
        (if bytebuf_len (cn_out c) = 0 then Some (RC_ERR, s, c)
         else Some (ps_lift s (arm_events (ps_net s) c EPOLLOUT)))
      else
        (case read_loop (w_mem (ps_net s)) (cn_in c) reads of (re, m1, in1) \<Rightarrow>
           if re = Re_Close then Some (RC_ERR, s\<lparr>ps_net := (ps_net s)\<lparr>w_mem := m1\<rparr>\<rparr>, c\<lparr>cn_in := in1\<rparr>)
           else do {
             (de, x, in2) \<leftarrow> p_dispatch_frames
               \<lparr>x_heap = \<lparr>hp_mem = m1, hp_at = ps_at s\<rparr>, x_table = ps_table s, x_out = cn_out c\<rparr> in1;
             let c1 = c\<lparr>cn_in := in2, cn_out := x_out x\<rparr>;
             let s1 = \<lparr>ps_net = (ps_net s)\<lparr>w_mem := hp_mem (x_heap x)\<rparr>, ps_at = hp_at (x_heap x), ps_table = x_table x\<rparr>;
             (if de = De_Fail then Some (RC_ERR, s1, c1)
              else
                let c2 = (if de = De_Protocol then c1\<lparr>cn_close_after_drain := True\<rparr> else c1) in
                (case re of
                   Re_Failed msg \<Rightarrow>
                     (case resp_reply_error (w_mem (ps_net s1)) (cn_out c2) msg of
                        (_, m3, out3) \<Rightarrow>
                          Some (ps_lift s1 (finish_read ((ps_net s1)\<lparr>w_mem := m3\<rparr>)
                            (c2\<lparr>cn_out := out3, cn_close_after_drain := True\<rparr>))))
                 | _ \<Rightarrow> Some (ps_lift s1 (finish_read (ps_net s1) c2))))
           }))"

definition p_client_event :: "event \<Rightarrow> pserver \<Rightarrow> conn \<Rightarrow> pserver option" where
  "p_client_event e s c =
     (if has_event (ev_mask e) (EPOLLERR OR EPOLLHUP) then Some (s\<lparr>ps_net := close_conn c (ps_net s)\<rparr>)
      else if has_event (ev_mask e) EPOLLIN
      then do {
        (r, s', c') \<leftarrow> p_handle_read (ev_reads e) s c;
        Some (s'\<lparr>ps_net := (if r = RC_ERR then close_conn c' (ps_net s') else write_event e (ps_net s') c')\<rparr>)
      }
      else Some (s\<lparr>ps_net := write_event e (ps_net s) c\<rparr>))"

fun p_net_batch :: "event list \<Rightarrow> pserver \<Rightarrow> pserver option" where
  "p_net_batch [] s = Some s"
| "p_net_batch (e # es) s =
     (case ev_ptr e of
        None \<Rightarrow>
          (if has_event (ev_mask e) (EPOLLERR OR EPOLLHUP) then Some (s\<lparr>ps_net := (ps_net s)\<lparr>w_shutdown := True\<rparr>\<rparr>)
           else p_net_batch es (s\<lparr>ps_net := accept_clients (ev_accepts e) (ps_net s)\<rparr>))
      | Some a \<Rightarrow>
          (case find_conn a (w_conns (ps_net s)) of
             None \<Rightarrow> None
           | Some c \<Rightarrow> p_client_event e s c \<bind> p_net_batch es))"

fun p_net_wait :: "wait_result list \<Rightarrow> pserver \<Rightarrow> (bool \<times> pserver) option" where
  "p_net_wait [] s = Some (False, s)"
| "p_net_wait (r # rs) s =
     (let again = (\<lambda>s. if w_shutdown (ps_net s) then Some (True, s) else p_net_wait rs s) in
      case r of
        Ew_Early \<Rightarrow> p_net_wait rs (s\<lparr>ps_net := on_signal (ps_net s)\<rparr>)
      | Ew_Intr sig \<Rightarrow> again (if sig then s\<lparr>ps_net := on_signal (ps_net s)\<rparr> else s)
      | Ew_Fatal \<Rightarrow> Some (True, s)
      | Ew_Events sig es \<Rightarrow> do {
          s' \<leftarrow> p_net_batch es s;
          again (if sig then s'\<lparr>ps_net := on_signal (ps_net s')\<rparr> else s')
        })"

definition p_net_loop :: "wait_result list \<Rightarrow> pserver \<Rightarrow> (bool \<times> pserver) option" where
  "p_net_loop rs s = (if w_shutdown (ps_net s) then Some (True, s) else p_net_wait rs s)"

lemma p_net_wait_turn:
  "p_net_wait (r # rs) s =
     (case r of
        Ew_Early \<Rightarrow> p_net_wait rs (s\<lparr>ps_net := on_signal (ps_net s)\<rparr>)
      | Ew_Intr sig \<Rightarrow> p_net_loop rs (if sig then s\<lparr>ps_net := on_signal (ps_net s)\<rparr> else s)
      | Ew_Fatal \<Rightarrow> Some (True, s)
      | Ew_Events sig es \<Rightarrow> p_net_batch es s \<bind>
          (\<lambda>s'. p_net_loop rs (if sig then s'\<lparr>ps_net := on_signal (ps_net s')\<rparr> else s')))"
  by (simp only: p_net_wait.simps p_net_loop_def Let_def)

lemma p_net_loop_turn [simp]:
  "w_shutdown (ps_net s) \<Longrightarrow> p_net_loop rs s = Some (True, s)"
  "\<not> w_shutdown (ps_net s) \<Longrightarrow> p_net_loop rs s = p_net_wait rs s"
  by (simp_all add: p_net_loop_def)

lemmas p_net_wait_simps [simp] = p_net_wait.simps(1) p_net_wait_turn

declare p_net_wait.simps(2) [simp del]

text \<open>A run that is still waiting is \<open>Some None\<close>: only a fault, or a loop that does not end, is \<open>None\<close>.\<close>

definition p_net_run :: "wait_result list \<Rightarrow> pserver \<Rightarrow> (rc \<times> pserver) option option" where
  "p_net_run rs s = do {
     (left, s') \<leftarrow> p_net_loop rs s;
     Some (if left then Some (RC_OK, s'\<lparr>ps_net := net_teardown (ps_net s')\<rparr>) else None)
   }"

section \<open>The two levels\<close>

text \<open>What the steps on the world do does not depend on the store, and they keep it.\<close>

definition with_store :: "hashtable \<Rightarrow> world \<Rightarrow> world" where
  "with_store st w = w\<lparr>w_store := st\<rparr>"

lemma with_store_simps [simp]:
  "w_mem (with_store st w) = w_mem w" "w_conns (with_store st w) = w_conns w"
  "w_listen_fd (with_store st w) = w_listen_fd w" "w_epoll_fd (with_store st w) = w_epoll_fd w"
  "w_shutdown (with_store st w) = w_shutdown w" "w_ctl (with_store st w) = w_ctl w"
  "w_epoll (with_store st w) = w_epoll w" "w_open (with_store st w) = w_open w"
  "w_bad_close (with_store st w) = w_bad_close w" "w_sent (with_store st w) = w_sent w"
  "w_store (with_store st w) = st" "with_store (w_store w) w = w" "with_store st (with_store st' w) = with_store st w"
  by (simp_all add: with_store_def)

named_theorems storeless

lemma with_store_fields [storeless]:
  "(with_store st w)\<lparr>w_mem := m\<rparr> = with_store st (w\<lparr>w_mem := m\<rparr>)"
  "(with_store st w)\<lparr>w_conns := cs\<rparr> = with_store st (w\<lparr>w_conns := cs\<rparr>)"
  "(with_store st w)\<lparr>w_shutdown := b\<rparr> = with_store st (w\<lparr>w_shutdown := b\<rparr>)"
  "(with_store st w)\<lparr>w_ctl := os\<rparr> = with_store st (w\<lparr>w_ctl := os\<rparr>)"
  "(with_store st w)\<lparr>w_epoll := ep\<rparr> = with_store st (w\<lparr>w_epoll := ep\<rparr>)"
  "(with_store st w)\<lparr>w_open := fds\<rparr> = with_store st (w\<lparr>w_open := fds\<rparr>)"
  "(with_store st w)\<lparr>w_bad_close := b\<rparr> = with_store st (w\<lparr>w_bad_close := b\<rparr>)"
  "(with_store st w)\<lparr>w_sent := l\<rparr> = with_store st (w\<lparr>w_sent := l\<rparr>)"
  "(with_store st w)\<lparr>w_listen_fd := fd\<rparr> = with_store st (w\<lparr>w_listen_fd := fd\<rparr>)"
  "(with_store st w)\<lparr>w_epoll_fd := fd\<rparr> = with_store st (w\<lparr>w_epoll_fd := fd\<rparr>)"
  by (cases w; simp add: with_store_def)+

lemma sys_open_storeless [storeless]:
  "sys_open k (with_store st w) = (case sys_open k w of (fd, w') \<Rightarrow> (fd, with_store st w'))"
  by (simp add: sys_open_def Let_def storeless)

lemma sys_close_storeless [storeless]: "sys_close fd (with_store st w) = with_store st (sys_close fd w)"
  by (simp add: sys_close_def storeless)

lemma ctl_outcome_storeless [storeless]:
  "ctl_outcome (with_store st w) = (case ctl_outcome w of (ok, w') \<Rightarrow> (ok, with_store st w'))"
  by (simp add: ctl_outcome_def storeless split: list.split)

lemma epoll_set_storeless [storeless]:
  "epoll_set fd p ev (with_store st w) = (case epoll_set fd p ev w of (r, w') \<Rightarrow> (r, with_store st w'))"
  by (simp add: epoll_set_def storeless split: prod.split)

lemma epoll_del_storeless [storeless]: "epoll_del fd (with_store st w) = with_store st (epoll_del fd w)"
  by (simp add: epoll_del_def storeless split: prod.split)

lemma arm_events_storeless [storeless]:
  "arm_events (with_store st w) c ev = (case arm_events w c ev of (r, w', c') \<Rightarrow> (r, with_store st w', c'))"
  by (simp add: arm_events_def storeless split: prod.split rc.split)

lemma finish_read_storeless [storeless]:
  "finish_read (with_store st w) c = (case finish_read w c of (r, w', c') \<Rightarrow> (r, with_store st w', c'))"
  by (simp add: finish_read_def storeless Let_def)

lemma handle_write_storeless [storeless]:
  "handle_write ws (with_store st w) c = (case handle_write ws w c of (r, w', c') \<Rightarrow> (r, with_store st w', c'))"
  by (simp add: handle_write_def storeless Let_def split: prod.split write_end.split)

lemma close_conn_storeless [storeless]: "close_conn c (with_store st w) = with_store st (close_conn c w)"
  by (simp add: close_conn_def storeless Let_def)

lemma update_conn_storeless [storeless]: "update_conn c (with_store st w) = with_store st (update_conn c w)"
  by (simp add: update_conn_def storeless)

lemma write_event_storeless [storeless]: "write_event e (with_store st w) c = with_store st (write_event e w c)"
  by (simp add: write_event_def storeless split: prod.split rc.split)

lemma accept_one_storeless [storeless]: "accept_one k nb (with_store st w) = with_store st (accept_one k nb w)"
proof -
  obtain cfd w1 where o: "sys_open k w = (cfd, w1)" by fastforce
  obtain p m' where m: "malloc (w_mem w1) = (p, m')" by fastforce
  show ?thesis
  proof (cases p)
    case None
    with o m show ?thesis by (simp add: accept_one_def storeless)
  next
    case (Some a)
    define w2 where "w2 = w1\<lparr>w_mem := m', w_conns := new_conn a cfd 0 # w_conns w1\<rparr>"
    obtain r w3 where e: "epoll_set cfd (Some a) EPOLLIN w2 = (r, w3)" by fastforce
    have "(with_store st w1)\<lparr>w_mem := m', w_conns := new_conn a cfd 0 # w_conns w1\<rparr> = with_store st w2"
      by (simp add: w2_def storeless)
    with o m Some e show ?thesis
      by (cases r) (simp_all add: accept_one_def epoll_set_storeless w2_def [symmetric] Let_def storeless)
  qed
qed

lemma accept_clients_storeless [storeless]:
  "accept_clients rs (with_store st w) = with_store st (accept_clients rs w)"
  by (induction rs arbitrary: w) (simp_all add: storeless split: accept_result.split)

lemma on_signal_storeless [storeless]: "on_signal (with_store st w) = with_store st (on_signal w)"
  by (simp add: on_signal_def storeless)

lemma teardown_conns_storeless [storeless]: "teardown_conns cs (with_store st w) = with_store st (teardown_conns cs w)"
  by (induction cs arbitrary: w) (simp_all add: storeless Let_def)

lemma net_teardown_storeless [storeless]: "net_teardown (with_store st w) = with_store st (net_teardown w)"
  by (simp add: net_teardown_def storeless Let_def split: option.split)

lemma storeless_keeps: "(\<And>st w. f (with_store st w) = with_store st (f w)) \<Longrightarrow> w_store (f w) = w_store w"
  by (metis with_store_simps(11,12))

lemma storeless_keeps_rc:
  assumes "\<And>st w. f (with_store st w) = (case f w of (r, w', c') \<Rightarrow> (r, with_store st w', c'))" "f w = (r, w', c')"
  shows "w_store w' = w_store w"
proof -
  have "f w = (r, with_store (w_store w) w', c')" using assms(1) [of "w_store w" w] assms(2) by simp
  with assms(2) have "w' = with_store (w_store w) w'" by simp
  then show ?thesis by (metis with_store_simps(11))
qed

text \<open>
  The server on the store stands for the world of \<open>Networking\<close>: the same but for the store, which its
  table and blocks represent.
\<close>

definition backs :: "pserver \<Rightarrow> world \<Rightarrow> bool" where
  "backs s w \<longleftrightarrow> ps_net s = with_store ht_init w \<and>
     represents \<lparr>hp_mem = w_mem w, hp_at = ps_at s\<rparr> (ps_table s) (w_store w)"

lemma backs_step: "backs s w \<Longrightarrow> w_store w' = w_store w \<Longrightarrow> backs (s\<lparr>ps_net := with_store ht_init w'\<rparr>) w'"
  using represents_at [of "\<lparr>hp_mem = w_mem w', hp_at = ps_at s\<rparr>" "\<lparr>hp_mem = w_mem w, hp_at = ps_at s\<rparr>"]
  by (simp add: backs_def)

lemma backs_apply:
  "backs s w \<Longrightarrow> (\<And>st w. f (with_store st w) = with_store st (f w)) \<Longrightarrow> backs (s\<lparr>ps_net := f (ps_net s)\<rparr>) (f w)"
  using backs_step [OF _ storeless_keeps] by (simp add: backs_def)

lemma backs_lift:
  assumes "backs s w" "\<And>st w. f (with_store st w) = (case f w of (r, w', c') \<Rightarrow> (r, with_store st w', c'))"
    "f w = (r, w', c')"
  shows "\<exists>s'. ps_lift s (f (ps_net s)) = (r, s', c') \<and> backs s' w'"
  using backs_step [OF assms(1) storeless_keeps_rc [OF assms(2,3)]] assms by (simp add: backs_def ps_lift_def)

section \<open>Dispatching agrees\<close>

lemma p_dispatch_frames_sim:
  "mirrors x c \<Longrightarrow> ctx_inv c \<Longrightarrow> owns (c_mem c) (ctx_blocks c @ xs) F \<Longrightarrow> bb_inv b \<Longrightarrow>
   fits (ht_abs (c_store c)) (length (bb_contents b) + j) \<Longrightarrow> dispatch_frames c b = Some (e, c', b') \<Longrightarrow>
   \<exists>x'. p_dispatch_frames x b = Some (e, x', b') \<and> mirrors x' c'"
proof (induction "length (bb_contents b)" arbitrary: x c b rule: less_induct)
  case less
  show ?case
  proof (cases "resp_parse_request (input_bytes b) (unat (bytebuf_len b))")
    case RESP_NEED_MORE
    with less.prems(1,6) show ?thesis by (subst p_dispatch_frames.simps) (simp add: dispatch_frames.simps [of c b])
  next
    case RESP_PROTOCOL_ERR
    with less.prems(6) same_replies(2) [OF less.prems(1), of "cstr ''ERR Protocol error''"] show ?thesis
      by (subst p_dispatch_frames.simps) (auto simp: dispatch_frames.simps [of c b] same_def split: prod.splits)
  next
    case (RESP_OK req)
    let ?args = "map (slice_bytes (input_bytes b)) (rq_args req)"
    let ?b1 = "bytebuf_consume b (word_of_nat (rq_consumed req))"
    obtain rc c1 where ex: "command_execute c ?args = (rc, c1)" by fastforce
    obtain r where "executed j c b rc c1 ?b1 r" by (rule request_executed [OF less.prems(2,4,5) RESP_OK ex])
    note X = this [unfolded executed_def]
    note R = request_step [OF less.prems(4) RESP_OK]
    have "length a \<le> SIZE_MAX" if "a \<in> set ?args" for a
      using that R(2,5) bb_contents_limit [OF less.prems(4)] by (intro BUF_LIMIT_SIZE_MAX) fastforce
    then have "same (p_command_execute x ?args) (command_execute c ?args)"
      using R(3) sound_stands [OF less.prems(1,2) less.prems(3) [unfolded owns_append, THEN conjunct1]]
      by (intro execute_agree) auto
    then obtain x1 where x1: "p_command_execute x ?args = Some (rc, x1)" "mirrors x1 c1"
      by (auto simp: same_def ex)
    show ?thesis
    proof (cases rc)
      case RC_ERR
      with ex x1 RESP_OK less.prems(6) show ?thesis
        by (subst p_dispatch_frames.simps) (auto simp: dispatch_frames.simps [of c b])
    next
      case RC_OK
      with ex RESP_OK less.prems(6) have "dispatch_frames c1 ?b1 = Some (e, c', b')"
        by (simp add: dispatch_frames.simps [of c b])
      then obtain x' where "p_dispatch_frames x1 ?b1 = Some (e, x', b')" "mirrors x' c'"
        using less.hyps [of ?b1 x1 c1] X x1(2) less.prems(3) by blast
      with RC_OK x1(1) RESP_OK show ?thesis by (subst p_dispatch_frames.simps) simp
    qed
  qed
qed

section \<open>Events agree\<close>

lemma backs_dispatched:
  assumes "backs s w" "mirrors x c"
  shows "backs \<lparr>ps_net = (ps_net s)\<lparr>w_mem := hp_mem (x_heap x)\<rparr>, ps_at = hp_at (x_heap x), ps_table = x_table x\<rparr>
    (w\<lparr>w_mem := c_mem c, w_store := c_store c\<rparr>)"
proof -
  have "with_store ht_init (w\<lparr>w_mem := c_mem c\<rparr>) = with_store ht_init (w\<lparr>w_mem := c_mem c, w_store := c_store c\<rparr>)"
    by (simp add: with_store_def)
  moreover have "represents \<lparr>hp_mem = c_mem c, hp_at = hp_at (x_heap x)\<rparr> (x_table x) (c_store c)"
    using assms(2) represents_at [of "\<lparr>hp_mem = c_mem c, hp_at = hp_at (x_heap x)\<rparr>" "x_heap x"] by (simp add: mirrors_def)
  ultimately show ?thesis using assms by (simp add: backs_def mirrors_def storeless)
qed

lemma p_handle_read_sim:
  assumes s: "backs s w" and inv: "conn_inv w c" and st: "ht_inv (w_store w)"
    and fit: "fits (ht_abs (w_store w)) (length (bb_contents (cn_in c)) + length (recv reads) + j)"
    and own: "owns (w_mem w) (ht_blocks (w_store w) @ conn_blocks c @ xs) F"
    and h: "handle_read reads w c = Some (r, w', c')"
  shows "\<exists>s'. p_handle_read reads s c = Some (r, s', c') \<and> backs s' w'"
proof (cases "cn_close_after_drain c")
  case True
  show ?thesis
  proof (cases "bytebuf_len (cn_out c) = 0")
    case True
    with \<open>cn_close_after_drain c\<close> h s show ?thesis by (simp add: handle_read_def p_handle_read_def)
  next
    case False
    with \<open>cn_close_after_drain c\<close> h have "arm_events w c EPOLLOUT = (r, w', c')" by (simp add: handle_read_def)
    with backs_lift [OF s, of "\<lambda>w. arm_events w c EPOLLOUT", OF arm_events_storeless] False \<open>cn_close_after_drain c\<close> show ?thesis
      by (simp add: p_handle_read_def)
  qed
next
  case open_: False
  obtain re m1 in1 where l: "read_loop (w_mem w) (cn_in c) reads = (re, m1, in1)" by (metis prod_cases3)
  then have l': "read_loop (w_mem (ps_net s)) (cn_in c) reads = (re, m1, in1)" using s by (simp add: backs_def)
  define x0 where "x0 = \<lparr>x_heap = \<lparr>hp_mem = m1, hp_at = ps_at s\<rparr>, x_table = ps_table s, x_out = cn_out c\<rparr>"
  define c0 where "c0 = \<lparr>c_mem = m1, c_store = w_store w, c_out = cn_out c\<rparr>"
  show ?thesis
  proof (cases "re = Re_Close")
    case True
    with h l open_ have "r = RC_ERR" "w' = w\<lparr>w_mem := m1\<rparr>" "c' = c\<lparr>cn_in := in1\<rparr>" by (simp_all add: handle_read_def)
    with True l' open_ backs_step [OF s, of "w\<lparr>w_mem := m1\<rparr>"] s show ?thesis
      by (simp add: p_handle_read_def backs_def storeless)
  next
    case False
    from read_then_dispatch [OF inv st fit l, folded c0_def] obtain de c1 in2 where
      d: "dispatch_frames c0 in1 = Some (de, c1, in2)" by blast
    have R: "received (w_mem w) (cn_in c) reads re m1 in1"
      using inv by (intro read_loop_received l) (simp add: conn_inv_def)
    have in1: "bb_inv in1" using R by (simp add: received_def)
    have m0: "mirrors x0 c0"
      using s represents_at [of "\<lparr>hp_mem = m1, hp_at = ps_at s\<rparr>" "\<lparr>hp_mem = w_mem w, hp_at = ps_at s\<rparr>"]
      by (simp add: mirrors_def x0_def c0_def backs_def)
    have c0: "ctx_inv c0" using inv st by (simp add: c0_def ctx_inv_def conn_inv_def)
    have "owns m1 (ht_blocks (w_store w) @ conn_blocks (c\<lparr>cn_in := in1\<rparr>) @ xs) F"
      using transfers_received [OF inv l] own by (simp add: transfers_def)
    then have o0: "owns (c_mem c0) (ctx_blocks c0 @ cn_self c # bb_blocks in1 @ xs) F"
      unfolding c0_def command_ctx.simps by (rule owns_perm) (simp add: ctx_blocks_def conn_blocks_def)
    have f0: "fits (ht_abs (c_store c0)) (length (bb_contents in1) + 0)"
      using R fits_mono [OF fit, of "length (bb_contents in1)"] by (auto simp: received_def c0_def)
    then obtain x1 where x1: "p_dispatch_frames x0 in1 = Some (de, x1, in2)" "mirrors x1 c1"
      using p_dispatch_frames_sim [OF m0 c0 o0 in1 f0 d] by blast
    define s1 where "s1 = \<lparr>ps_net = (ps_net s)\<lparr>w_mem := hp_mem (x_heap x1)\<rparr>, ps_at = hp_at (x_heap x1), ps_table = x_table x1\<rparr>"
    define w1 where "w1 = w\<lparr>w_mem := c_mem c1, w_store := c_store c1\<rparr>"
    have s1: "backs s1 w1" using backs_dispatched [OF s x1(2)] by (simp add: s1_def w1_def)
    have out: "x_out x1 = c_out c1" using x1(2) by (simp add: mirrors_def)
    define c2 where "c2 = c\<lparr>cn_in := in2, cn_out := c_out c1, cn_close_after_drain := (de = De_Protocol)\<rparr>"
    have c2: "(if de = De_Protocol then c\<lparr>cn_in := in2, cn_out := c_out c1, cn_close_after_drain := True\<rparr>
        else c\<lparr>cn_in := in2, cn_out := c_out c1\<rparr>) = c2"
      using open_ by (cases c) (simp add: c2_def)
    note hr = handle_read_def [of reads w c] l d [unfolded c0_def] open_ False Let_def c2
    note phr = p_handle_read_def [of reads s c] l' x1(1) [unfolded x0_def] open_ False Let_def out c2
    show ?thesis
    proof (cases "de = De_Fail")
      case True
      with h s1 show ?thesis by (auto simp: hr phr s1_def w1_def)
    next
      case ok: False
      show ?thesis
      proof (cases re)
        case (Re_Failed msg)
        obtain rc m3 out3 where e: "resp_reply_error (w_mem w1) (cn_out c2) msg = (rc, m3, out3)" by (metis prod_cases3)
        let ?c3 = "c2\<lparr>cn_out := out3, cn_close_after_drain := True\<rparr>"
        have s3: "backs (s1\<lparr>ps_net := (ps_net s1)\<lparr>w_mem := m3\<rparr>\<rparr>) (w1\<lparr>w_mem := m3\<rparr>)"
          by (rule backs_apply [OF s1, of "\<lambda>w. w\<lparr>w_mem := m3\<rparr>"]) (simp add: storeless)
        have e': "resp_reply_error (w_mem (ps_net s1)) (cn_out c2) msg = (rc, m3, out3)" using e s1 by (simp add: backs_def)
        have "finish_read (w1\<lparr>w_mem := m3\<rparr>) ?c3 = (r, w', c')" using h Re_Failed ok e by (simp add: hr w1_def)
        from backs_lift [OF s3, of "\<lambda>w. finish_read w ?c3", OF finish_read_storeless this] Re_Failed ok e'
        show ?thesis by (simp add: phr s1_def c2_def ps_lift_def split: prod.splits)
      next
        case Re_Wait
        with h ok have "finish_read w1 c2 = (r, w', c')" by (simp add: hr w1_def)
        from backs_lift [OF s1, of "\<lambda>w. finish_read w c2", OF finish_read_storeless this] Re_Wait ok c2
        show ?thesis by (cases "de = De_Protocol") (simp_all add: phr s1_def)
      qed (use False in simp)
    qed
  qed
qed

lemma p_client_event_sim:
  assumes s: "backs s w" and inv: "net_inv fds w" and cs: "w_conns w = cs1 @ c # cs2"
    and fit: "fits (ht_abs (w_store w)) (pending (w_conns w) + length (recv (ev_reads e)) + j)"
    and h: "client_event e w c = Some w'"
  shows "\<exists>s'. p_client_event e s c = Some s' \<and> backs s' w'"
proof -
  have c: "conn_inv w c" "ht_inv (w_store w)" using inv cs by (auto simp: net_inv_def)
  have fit': "fits (ht_abs (w_store w)) (length (bb_contents (cn_in c)) + length (recv (ev_reads e)) + j)"
    using fit by (rule fits_mono) (simp add: cs pending_split)
  have own: "owns (w_mem w) (ht_blocks (w_store w) @ conn_blocks c @ concat (map conn_blocks (cs1 @ cs2))) alone"
    using inv server_blocks_split [OF cs] unfolding net_inv_def by (blast intro: owns_perm)
  have close: "backs (s1\<lparr>ps_net := close_conn d (ps_net s1)\<rparr>) (close_conn d w1)"
    and wr: "backs (s1\<lparr>ps_net := write_event e (ps_net s1) d\<rparr>) (write_event e w1 d)" if "backs s1 w1" for s1 w1 d
    using backs_apply [OF that, of "close_conn d"] backs_apply [OF that, of "\<lambda>w. write_event e w d"]
    by (simp_all add: storeless)
  show ?thesis
  proof (cases "\<not> has_event (ev_mask e) (EPOLLERR OR EPOLLHUP) \<and> has_event (ev_mask e) EPOLLIN")
    case True
    with h obtain r w1 c1 where r: "handle_read (ev_reads e) w c = Some (r, w1, c1)"
      "w' = (if r = RC_ERR then close_conn c1 w1 else write_event e w1 c1)"
      by (auto simp: client_event_def bind_eq_Some_conv)
    from p_handle_read_sim [OF s c fit' own r(1)] obtain s1 where "p_handle_read (ev_reads e) s c = Some (r, s1, c1)"
      "backs s1 w1" by blast
    with True r(2) close wr show ?thesis by (simp add: p_client_event_def)
  next
    case False
    with h close [OF s] wr [OF s] show ?thesis by (auto simp: client_event_def p_client_event_def split: if_splits)
  qed
qed

section \<open>Batches and runs agree\<close>

lemma backs_signal: "backs s w \<Longrightarrow> backs (s\<lparr>ps_net := on_signal (ps_net s)\<rparr>) (on_signal w)"
  by (rule backs_apply [where f = on_signal]) (simp_all add: storeless)

lemma p_net_batch_sim:
  "backs s w \<Longrightarrow> net_inv fds w \<Longrightarrow> fits (ht_abs (w_store w)) (pending (w_conns w) + event_bytes es + j) \<Longrightarrow>
   all_known es w \<Longrightarrow> net_batch es w = Some w' \<Longrightarrow> \<exists>s'. p_net_batch es s = Some s' \<and> backs s' w'"
proof (induction es arbitrary: s w)
  case (Cons e es)
  have eb: "event_bytes (e # es) = length (recv (ev_reads e)) + event_bytes es" by (simp add: event_bytes_def)
  show ?case
  proof (cases "ev_ptr e")
    case None
    show ?thesis
    proof (cases "has_event (ev_mask e) (EPOLLERR OR EPOLLHUP)")
      case True
      with None Cons.prems(5) backs_signal [OF Cons.prems(1)] show ?thesis by (simp add: on_signal_def)
    next
      case False
      note A = accept_clients_inv [OF Cons.prems(2), of "ev_accepts e"]
      let ?w1 = "accept_clients (ev_accepts e) w"
      have "fits (ht_abs (w_store ?w1)) (pending (w_conns ?w1) + event_bytes es + j)"
        using fits_mono [OF Cons.prems(3), of "pending (w_conns w) + event_bytes es + j"] A by (simp add: eb)
      moreover have "all_known es ?w1" by (rule all_known_tl [OF Cons.prems(4) subsetD]) (simp_all add: A)
      moreover have "backs (s\<lparr>ps_net := accept_clients (ev_accepts e) (ps_net s)\<rparr>) ?w1"
        by (rule backs_apply [OF Cons.prems(1), of "accept_clients (ev_accepts e)"]) (rule accept_clients_storeless)
      ultimately show ?thesis using Cons.IH [of _ ?w1] A Cons.prems(5) None False by simp
    qed
  next
    case (Some a)
    then have "a \<in> cn_self ` set (w_conns w)" using Cons.prems(4) by (simp add: all_known_def)
    then obtain c where f: "find_conn a (w_conns w) = Some c" using find_conn_None by fastforce
    from find_conn_split [OF f] obtain cs1 cs2 where cs: "w_conns w = cs1 @ c # cs2" "cn_self c = a" by blast
    have fit: "fits (ht_abs (w_store w)) (pending (w_conns w) + length (recv (ev_reads e)) + (event_bytes es + j))"
      using Cons.prems(3) by (simp add: eb ac_simps)
    from client_event_inv [OF Cons.prems(2) cs(1) this] obtain w1 where
      w1: "client_event e w c = Some w1" "net_inv fds w1"
      "fits (ht_abs (w_store w1)) (pending (w_conns w1) + (event_bytes es + j))"
      "cn_self ` set (w_conns w) - {cn_self c} \<subseteq> cn_self ` set (w_conns w1)" by blast
    have "all_known es w1" by (rule all_known_tl [OF Cons.prems(4) subsetD [OF w1(4)]]) (simp add: Some cs(2))
    moreover obtain s1 where s1: "p_client_event e s c = Some s1" "backs s1 w1"
      using p_client_event_sim [OF Cons.prems(1,2) cs(1) fit w1(1)] by blast
    moreover have "find_conn a (w_conns (ps_net s)) = Some c" using f Cons.prems(1) by (simp add: backs_def)
    moreover have "net_batch es w1 = Some w'" using Cons.prems(5) Some f w1(1) by simp
    ultimately show ?thesis
      using Cons.IH [OF s1(2) w1(2)] w1(3) Some by (simp add: add.assoc)
  qed
qed simp

lemma p_net_wait_sim:
  "backs s w \<Longrightarrow> net_inv fds w \<Longrightarrow> fits (ht_abs (w_store w)) (pending (w_conns w) + run_bytes rs) \<Longrightarrow> wait_ok rs w \<Longrightarrow>
   net_wait rs w = Some (left, w') \<Longrightarrow> \<exists>s'. p_net_wait rs s = Some (left, s') \<and> backs s' w'"
proof (induction rs arbitrary: s w)
  case Nil
  then show ?case by auto
next
  case (Cons r rs)
  have fit: "fits (ht_abs (w_store w)) (pending (w_conns w) + run_bytes rs)"
    using fits_mono [OF Cons.prems(3)] by (simp add: run_bytes_def)
  have step: "\<exists>s'. p_net_loop rs s1 = Some (left, s') \<and> backs s' w'"
    if "backs s1 w1" "net_inv fds w1" "fits (ht_abs (w_store w1)) (pending (w_conns w1) + run_bytes rs)"
      "run_ok rs w1" "net_loop rs w1 = Some (left, w')" for s1 w1
  proof -
    have "w_shutdown (ps_net s1) = w_shutdown w1" using that(1) by (simp add: backs_def)
    then show ?thesis using Cons.IH [OF that(1-3)] that by (cases "w_shutdown w1") auto
  qed
  have sig: "backs (s1\<lparr>ps_net := on_signal (ps_net s1)\<rparr>) (on_signal w1)" "net_inv fds (on_signal w1)"
    if "backs s1 w1" "net_inv fds w1" for s1 w1
    using that backs_signal [of s1 w1] net_inv_on_signal by simp_all
  have turn: "\<exists>s'. p_net_loop rs (if b then s1\<lparr>ps_net := on_signal (ps_net s1)\<rparr> else s1) = Some (left, s') \<and> backs s' w'"
    if t: "backs s1 w1" "net_inv fds w1" "fits (ht_abs (w_store w1)) (pending (w_conns w1) + run_bytes rs)"
      "run_ok rs (if b then on_signal w1 else w1)" "net_loop rs (if b then on_signal w1 else w1) = Some (left, w')" for s1 w1 b
    using step [OF t(1,2,3)] step [OF sig [OF t(1,2)]] t(3-5) by (cases b) simp_all
  show ?case
  proof (cases r)
    case Ew_Early
    with Cons.IH [of "s\<lparr>ps_net := on_signal (ps_net s)\<rparr>" "on_signal w"] sig [OF Cons.prems(1,2)] fit Cons.prems(4,5)
    show ?thesis by simp
  next
    case (Ew_Intr b)
    with turn [OF Cons.prems(1,2) fit, of b] Cons.prems(4,5) show ?thesis by simp
  next
    case (Ew_Events b es)
    with Cons.prems(4) have ok: "batch_ok es w"
      "\<And>w'. net_batch es w = Some w' \<Longrightarrow> run_ok rs (if b then on_signal w' else w')" by auto
    have f: "fits (ht_abs (w_store w)) (pending (w_conns w) + event_bytes es + run_bytes rs)"
      using Cons.prems(3) by (simp add: run_bytes_def Ew_Events add.assoc)
    note known = batch_known [OF Cons.prems(2) ok(1)]
    from net_batch_inv [OF Cons.prems(2) f known] obtain w1 where
      w1: "net_batch es w = Some w1" "net_inv fds w1" "fits (ht_abs (w_store w1)) (pending (w_conns w1) + run_bytes rs)"
      by blast
    from p_net_batch_sim [OF Cons.prems(1,2) f known w1(1)] obtain s1 where
      s1: "p_net_batch es s = Some s1" "backs s1 w1" by blast
    from turn [OF s1(2) w1(2,3) ok(2) [OF w1(1)]] w1(1) s1(1) Cons.prems(5) Ew_Events show ?thesis by simp
  qed (use Cons.prems in auto)
qed

lemma p_net_loop_sim:
  assumes "backs s w" "net_inv fds w" "fits (ht_abs (w_store w)) (pending (w_conns w) + run_bytes rs)" "run_ok rs w"
    "net_loop rs w = Some (left, w')"
  shows "\<exists>s'. p_net_loop rs s = Some (left, s') \<and> backs s' w'"
proof -
  have "w_shutdown (ps_net s) = w_shutdown w" using assms(1) by (simp add: backs_def)
  then show ?thesis using p_net_wait_sim [OF assms(1-3)] assms by (cases "w_shutdown w") auto
qed

text \<open>
  A run of the server: no handler faults on the store, and the server goes through the same states.
\<close>

lemma p_net_run_sim:
  assumes "backs s w" "net_inv fds w" "fits (ht_abs (w_store w)) (pending (w_conns w) + run_bytes rs)" "run_ok rs w"
  shows "case net_run rs w of None \<Rightarrow> p_net_run rs s = Some None
    | Some (r, w') \<Rightarrow> \<exists>s'. p_net_run rs s = Some (Some (r, s')) \<and> backs s' w'"
proof -
  from net_loop_inv [OF assms(2-4)] obtain left w1 where l: "net_loop rs w = Some (left, w1)" by blast
  from p_net_loop_sim [OF assms l] obtain s1 where "p_net_loop rs s = Some (left, s1)" "backs s1 w1" by blast
  with l backs_apply [of s1 w1 net_teardown] show ?thesis
    by (cases left) (simp_all add: net_run_def p_net_run_def storeless)
qed

end
