(* ===== verification/Program_Heap.thy ===== *)
theory Program_Heap
  imports Net_Heap Program
begin

text \<open>
  The whole of \<open>main\<close> on the table of \<open>Ht_Heap\<close>: the self tests, the server and the final
  \<open>ht_destroy\<close> work on one store of nodes and byte blocks. No run of the program touches memory of the
  table that is not there, and it ends as \<open>main_program\<close> does.
\<close>

section \<open>The program on the store\<close>

definition p_smoke_reads :: "heap \<Rightarrow> ptable \<Rightarrow> (heap \<times> ptable \<times> observed list) option" where
  "p_smoke_reads h t = do {
     v1 \<leftarrow> p_lookup h t (cstr ''hello'');
     v2 \<leftarrow> p_lookup h t (cstr ''name'');
     v3 \<leftarrow> p_lookup h t bin_key;
     (r, h1, t1) \<leftarrow> p_set h t (cstr ''hello'') (cstr ''WORLD!'');
     v4 \<leftarrow> (if r = RC_OK then p_lookup h1 t1 (cstr ''hello'') else Some None);
     (deleted, h2, t2) \<leftarrow> p_del h1 t1 (cstr ''name'');
     hit \<leftarrow> p_get h2 t2 (cstr ''name'');
     Some (h2, t2, [look (cstr ''hello'') v1, look (cstr ''name'') v2, look bin_label v3] @ look_again r v4 @
       [Ob_Del deleted, Ob_Hit (hit \<noteq> None), Ob_Count (pt_count t2)]) }"

definition p_smoke_test :: "heap \<Rightarrow> ptable \<Rightarrow> (heap \<times> ptable \<times> observed list) option" where
  "p_smoke_test h t = do {
     (r1, h1, t1) \<leftarrow> p_set h t (cstr ''hello'') (cstr ''world'');
     if r1 = RC_ERR then Some (h1, t1, [Ob_Failed (cstr ''hello'')])
     else do {
       (r2, h2, t2) \<leftarrow> p_set h1 t1 (cstr ''name'') (cstr ''redis-in-c'');
       if r2 = RC_ERR then Some (h2, t2, [Ob_Failed (cstr ''name'')])
       else do {
         (r3, h3, t3) \<leftarrow> p_set h2 t2 bin_key bin_val;
         if r3 = RC_ERR then Some (h3, t3, [Ob_Failed (cstr ''binary'')])
         else p_smoke_reads h3 t3 } } }"

definition p_cmd_check :: "cmd_case \<Rightarrow> heap_ctx \<Rightarrow> (bool \<times> heap_ctx) option" where
  "p_cmd_check cs x = do {
     (rc, x') \<leftarrow> p_command_execute x (fst cs);
     Some (rc = RC_OK \<and> meets (snd cs) (x_out x'), x'\<lparr>x_out := bytebuf_reset (x_out x')\<rparr>) }"

fun p_cmd_checks :: "cmd_case list \<Rightarrow> heap_ctx \<Rightarrow> nat \<Rightarrow> nat \<Rightarrow> (nat \<times> nat \<times> heap_ctx) option" where
  "p_cmd_checks [] x pass cases_run = Some (pass, cases_run, x)"
| "p_cmd_checks (cs # rest) x pass cases_run = do {
     (ok, x') \<leftarrow> p_cmd_check cs x;
     p_cmd_checks rest x' (if ok then Suc pass else pass) (Suc cases_run) }"

definition p_command_smoke_test :: "heap \<Rightarrow> ptable \<Rightarrow> ((nat \<times> nat) \<times> heap \<times> ptable) option" where
  "p_command_smoke_test h t = do {
     (pass, cases_run, x) \<leftarrow> p_cmd_checks command_cases \<lparr>x_heap = h, x_table = t, x_out = bytebuf_init\<rparr> 0 0;
     Some ((pass, cases_run), (x_heap x)\<lparr>hp_mem := fst (bytebuf_free (hp_mem (x_heap x)) (x_out x))\<rparr>, x_table x) }"

definition p_main_store :: "heap \<Rightarrow> (heap \<times> ptable) option" where
  "p_main_store h = do {
     (h1, t1, obs) \<leftarrow> p_smoke_test h pt_init;
     (counts, h2, t2) \<leftarrow> p_command_smoke_test h1 t1;
     Some (h2, t2) }"

text \<open>\<open>ht_destroy\<close> on the store of the server.\<close>

definition ps_destroy :: "pserver \<Rightarrow> pserver option" where
  "ps_destroy s = do {
     (h, t) \<leftarrow> p_destroy \<lparr>hp_mem = w_mem (ps_net s), hp_at = ps_at s\<rparr> (ps_table s);
     Some \<lparr>ps_net = (ps_net s)\<lparr>w_mem := hp_mem h\<rparr>, ps_at = hp_at h, ps_table = t\<rparr> }"

definition p_main_serve ::
  "setup_env \<Rightarrow> wait_result list \<Rightarrow> heap \<Rightarrow> ptable \<Rightarrow> world \<Rightarrow> (int \<times> pserver) option option" where
  "p_main_serve se rs h t w =
     (case net_init se ht_init w of
        (RC_ERR, w1) \<Rightarrow> do { s \<leftarrow> ps_destroy \<lparr>ps_net = w1, ps_at = hp_at h, ps_table = t\<rparr>; Some (Some (1, s)) }
      | (RC_OK, w1) \<Rightarrow> do {
          res \<leftarrow> p_net_run rs \<lparr>ps_net = w1, ps_at = hp_at h, ps_table = t\<rparr>;
          (case res of
             None \<Rightarrow> Some None
           | Some (rc, s1) \<Rightarrow> do { s \<leftarrow> ps_destroy s1; Some (Some (if rc = RC_OK then 0 else 1, s)) }) })"

definition p_main_program ::
  "setup_env \<Rightarrow> wait_result list \<Rightarrow> heap \<Rightarrow> nat list \<Rightarrow> bool list \<Rightarrow> (int \<times> pserver) option option" where
  "p_main_program se rs h fds ctl = do {
     (h', t) \<leftarrow> p_main_store h;
     p_main_serve se rs h' t (world_start (hp_mem h') fds ctl) }"

section \<open>The hash table test\<close>

text \<open>The table in the store stands for the table of \<open>Hashtable\<close>, which is sound as in \<open>Program\<close>.\<close>

definition holds_table :: "nat \<Rightarrow> heap \<Rightarrow> ptable \<Rightarrow> mem \<Rightarrow> hashtable \<Rightarrow> bool" where
  "holds_table n h t m ht \<longleftrightarrow> hp_mem h = m \<and> represents h t ht \<and> sound n m ht"

lemma holds_table_mono: "holds_table n h t m ht \<Longrightarrow> k \<le> n \<Longrightarrow> holds_table k h t m ht"
  by (auto simp: holds_table_def intro: sound_mono)

lemma holds_table_set:
  assumes "holds_table (16 + j) h t m ht" "ht_set m ht k v = (r, m', ht')" "length k \<le> 16" "length v \<le> 16"
  obtains h' t' where "p_set h t k v = Some (r, h', t')" "holds_table j h' t' m' ht'"
proof -
  have H: "hp_mem h = m" "represents h t ht" "sound (16 + j) m ht" using assms(1) by (simp_all add: holds_table_def)
  have "owns (hp_mem h) (ht_blocks ht) alone" using H(1,3) by (simp add: sound_def)
  from p_set_simulates [OF H(2) this, of k v] assms(2-4) H(1) obtain h' t' where
    "p_set h t k v = Some (r, h', t')" "hp_mem h' = m'" "represents h' t' ht'"
    by (auto simp: simulates_def SIZE_MAX_def)
  with sound_set [OF H(3) assms(2-4)] that show thesis by (simp add: holds_table_def)
qed

lemma holds_table_del:
  assumes "holds_table j h t m ht" "ht_del m ht k = (b, m', ht')" "length k \<le> 16"
  obtains h' t' where "p_del h t k = Some (b, h', t')" "holds_table j h' t' m' ht'"
proof -
  have H: "hp_mem h = m" "represents h t ht" "sound j m ht" using assms(1) by (simp_all add: holds_table_def)
  have "owns (hp_mem h) (ht_blocks ht) alone" using H(1,3) by (simp add: sound_def)
  from p_del_simulates [OF H(2) this, of k] assms(2,3) H(1) obtain h' t' where
    "p_del h t k = Some (b, h', t')" "hp_mem h' = m'" "represents h' t' ht'"
    by (auto simp: simulates_def SIZE_MAX_def)
  with sound_del [OF H(3) assms(2)] that show thesis by (simp add: holds_table_def)
qed

lemma holds_table_reads:
  assumes "holds_table j h t m ht" "length k \<le> 16"
  shows "p_lookup h t k = Some (ht_get ht k)" "\<exists>q. p_get h t k = Some q \<and> (q \<noteq> None \<longleftrightarrow> ht_get ht k \<noteq> None)"
    "pt_count t = ht_count ht"
proof -
  have k: "length k \<le> SIZE_MAX" using assms(2) by (simp add: SIZE_MAX_def)
  have rep: "represents h t ht" using assms(1) by (simp add: holds_table_def)
  show "p_lookup h t k = Some (ht_get ht k)" by (rule p_lookup_entry [OF rep k])
  show "pt_count t = ht_count ht" by (rule represents_count [OF rep])
  show "\<exists>q. p_get h t k = Some q \<and> (q \<noteq> None \<longleftrightarrow> ht_get ht k \<noteq> None)"
    using p_get_entry [OF rep k] by (cases "entry_of ht k") (simp_all add: ht_get_entry)
qed

lemma smoke_lengths:
  "length (cstr ''hello'') \<le> 16" "length (cstr ''world'') \<le> 16" "length (cstr ''name'') \<le> 16"
  "length (cstr ''redis-in-c'') \<le> 16" "length (cstr ''WORLD!'') \<le> 16" "length bin_key \<le> 16" "length bin_val \<le> 16"
  by (simp_all add: cstr_def bin_key_def bin_val_def)

lemma p_smoke_reads_sim:
  assumes H: "holds_table (16 + j) h t m ht" and r: "smoke_reads m ht = (m', ht', obs)"
  shows "\<exists>h' t'. p_smoke_reads h t = Some (h', t', obs) \<and> holds_table j h' t' m' ht'"
proof -
  obtain r1 m1 ht1 where s: "ht_set m ht (cstr ''hello'') (cstr ''WORLD!'') = (r1, m1, ht1)" by (metis prod_cases3)
  obtain b m2 ht2 where d: "ht_del m1 ht1 (cstr ''name'') = (b, m2, ht2)" by (metis prod_cases3)
  from holds_table_set [OF H s smoke_lengths(1,5)] obtain h1 t1 where
    h1: "p_set h t (cstr ''hello'') (cstr ''WORLD!'') = Some (r1, h1, t1)" "holds_table j h1 t1 m1 ht1" .
  from holds_table_del [OF h1(2) d smoke_lengths(3)] obtain h2 t2 where
    h2: "p_del h1 t1 (cstr ''name'') = Some (b, h2, t2)" "holds_table j h2 t2 m2 ht2" .
  obtain q where q: "p_get h2 t2 (cstr ''name'') = Some q" "q \<noteq> None \<longleftrightarrow> ht_get ht2 (cstr ''name'') \<noteq> None"
    using holds_table_reads(2) [OF h2(2) smoke_lengths(3)] by blast
  have "p_smoke_reads h t = Some (h2, t2, obs)"
    using r s d h1(1) h2(1) q holds_table_reads(1) [OF H] holds_table_reads(1) [OF h1(2)]
      holds_table_reads(3) [OF h2(2) smoke_lengths(1)] smoke_lengths
    by (cases r1) (auto simp: p_smoke_reads_def smoke_reads_def look_again_def split: option.splits)
  moreover have "m' = m2" "ht' = ht2" using r s d by (simp_all add: smoke_reads_def)
  ultimately show ?thesis using h2(2) by blast
qed

lemma p_smoke_test_sim:
  assumes H: "holds_table (64 + j) h t m ht" and r: "smoke_test m ht = (m', ht', obs)"
  shows "\<exists>h' t'. p_smoke_test h t = Some (h', t', obs) \<and> holds_table j h' t' m' ht'"
proof -
  obtain r1 m1 ht1 where s1: "ht_set m ht (cstr ''hello'') (cstr ''world'') = (r1, m1, ht1)" by (metis prod_cases3)
  obtain r2 m2 ht2 where s2: "ht_set m1 ht1 (cstr ''name'') (cstr ''redis-in-c'') = (r2, m2, ht2)" by (metis prod_cases3)
  obtain r3 m3 ht3 where s3: "ht_set m2 ht2 bin_key bin_val = (r3, m3, ht3)" by (metis prod_cases3)
  have "holds_table (16 + (48 + j)) h t m ht" using H by simp
  from holds_table_set [OF this s1 smoke_lengths(1,2)] obtain h1 t1 where
    h1: "p_set h t (cstr ''hello'') (cstr ''world'') = Some (r1, h1, t1)" "holds_table (16 + (32 + j)) h1 t1 m1 ht1" by auto
  from holds_table_set [OF h1(2) s2 smoke_lengths(3,4)] obtain h2 t2 where
    h2: "p_set h1 t1 (cstr ''name'') (cstr ''redis-in-c'') = Some (r2, h2, t2)" "holds_table (16 + (16 + j)) h2 t2 m2 ht2" by auto
  from holds_table_set [OF h2(2) s3 smoke_lengths(6,7)] obtain h3 t3 where
    h3: "p_set h2 t2 bin_key bin_val = Some (r3, h3, t3)" "holds_table (16 + j) h3 t3 m3 ht3" .
  note H' = holds_table_mono [OF h1(2), of j] holds_table_mono [OF h2(2), of j] holds_table_mono [OF h3(2), of j]
  show ?thesis
    using r s1 s2 s3 h1(1) h2(1) h3(1) H' p_smoke_reads_sim [OF h3(2)]
    by (cases r1; cases r2; cases r3) (auto simp: smoke_test_def p_smoke_test_def)
qed

section \<open>The dispatcher test\<close>

lemma p_cmd_check_sim:
  assumes m: "mirrors x c" and s: "ctx_sound (20 + j) c" and cs: "small_case cs" and k: "cmd_check cs c = (ok, c')"
  shows "\<exists>x'. p_cmd_check cs x = Some (ok, x') \<and> mirrors x' c'"
proof -
  obtain rc c1 where e: "command_execute c (fst cs) = (rc, c1)" by fastforce
  have "\<forall>a\<in>set (fst cs). length a \<le> SIZE_MAX" "length (fst cs) \<le> RESP_MAX_ARGC"
    using cs by (fastforce simp: small_case_def list_all_iff SIZE_MAX_def)+
  with execute_agree [OF sound_stands [OF m], of alone "fst cs"] s e
  obtain x1 where "p_command_execute x (fst cs) = Some (rc, x1)" "mirrors x1 c1"
    by (auto simp: ctx_sound_def same_def)
  with k e show ?thesis by (auto simp: cmd_check_def p_cmd_check_def mirrors_def)
qed

lemma p_cmd_checks_sim:
  "mirrors x c \<Longrightarrow> ctx_sound (20 * length css + j) c \<Longrightarrow> list_all small_case css \<Longrightarrow>
   cmd_checks css c p n = (p', n', c') \<Longrightarrow> \<exists>x'. p_cmd_checks css x p n = Some (p', n', x') \<and> mirrors x' c'"
proof (induction css arbitrary: x c p n)
  case (Cons cs css)
  obtain ok c1 where k: "cmd_check cs c = (ok, c1)" by fastforce
  have s: "ctx_sound (20 + (20 * length css + j)) c" using Cons.prems(2) by (simp add: add.assoc)
  have s1: "ctx_sound (20 * length css + j) c1" by (rule cmd_check_sound [OF s _ k]) (use Cons.prems(3) in simp)
  from p_cmd_check_sim [OF Cons.prems(1) s _ k] Cons.prems(3) obtain x1 where
    x1: "p_cmd_check cs x = Some (ok, x1)" "mirrors x1 c1" by auto
  from Cons.IH [OF x1(2) s1] Cons.prems(3,4) x1(1) k show ?case by (simp split: if_splits)
qed simp

lemma p_command_smoke_test_sim:
  assumes H: "holds_table (820 + j) h t m st" and r: "command_smoke_test m st = (counts, m', st')"
  shows "\<exists>h' t'. p_command_smoke_test h t = Some (counts, h', t') \<and> holds_table j h' t' m' st'"
proof -
  let ?c = "\<lparr>c_mem = m, c_store = st, c_out = bytebuf_init\<rparr>"
  let ?x = "\<lparr>x_heap = h, x_table = t, x_out = bytebuf_init\<rparr>"
  have S: "sound (820 + j) m st" and m: "mirrors ?x ?c" using H by (simp_all add: holds_table_def mirrors_def)
  obtain p n c' where k: "cmd_checks command_cases ?c 0 0 = (p, n, c')" by (metis prod_cases3)
  have "ctx_sound (20 * length command_cases + j) ?c"
    using S by (simp add: command_cases_small ctx_sound_def sound_def ctx_inv_def ctx_blocks_def)
  from p_cmd_checks_sim [OF m this command_cases_small(1) k] obtain x' where
    "p_cmd_checks command_cases ?x 0 0 = Some (p, n, x')" "mirrors x' c'" by blast
  with k r command_smoke_test_sound [OF S] show ?thesis
    by (auto simp: command_smoke_test_def p_command_smoke_test_def mirrors_def holds_table_def)
qed

lemma p_main_store_sim:
  assumes "fits Map.empty (1000 + j)" "main_store (mem_init os) = (m, st)"
  shows "\<exists>h t. p_main_store (heap_init os) = Some (h, t) \<and> holds_table j h t m st"
proof -
  obtain m1 st1 obs where s: "smoke_test (mem_init os) ht_init = (m1, st1, obs)" by (metis prod_cases3)
  obtain k m2 st2 where c: "command_smoke_test m1 st1 = (k, m2, st2)" by (metis prod_cases3)
  have "sound (64 + (820 + j)) (mem_init os) ht_init" by (rule sound_mono [OF sound_init [OF assms(1)]]) simp
  then have "holds_table (64 + (820 + j)) (heap_init os) pt_init (mem_init os) ht_init"
    by (simp add: holds_table_def heap_init_def represents_init)
  from p_smoke_test_sim [OF this s] obtain h1 t1 where
    h1: "p_smoke_test (heap_init os) pt_init = Some (h1, t1, obs)" "holds_table (820 + j) h1 t1 m1 st1" by blast
  from p_command_smoke_test_sim [OF h1(2) c] obtain h2 t2 where
    "p_command_smoke_test h1 t1 = Some (k, h2, t2)" "holds_table j h2 t2 m2 st2" by blast
  with h1(1) s c assms(2) show ?thesis by (simp add: main_store_def p_main_store_def)
qed

section \<open>The server and the end\<close>

lemma setup_listener_storeless [storeless]:
  "setup_listener se (with_store st w) = (case setup_listener se w of (r, w') \<Rightarrow> (r, with_store st w'))"
  by (simp add: setup_listener_def storeless Let_def split: option.split prod.split)

lemma net_init_with_store:
  assumes "net_init se st w = (r, w')"
  shows "net_init se ht_init w = (r, with_store ht_init w')" "w_store w' = st"
proof -
  have eq: "net_init se st2 w = (case net_init se st1 w of (r, w') \<Rightarrow> (r, with_store st2 w'))" for st1 st2
  proof -
    define v where "v = w\<lparr>w_store := st1\<rparr>"
    have v: "w\<lparr>w_store := st1\<rparr> = v" "w\<lparr>w_store := st2\<rparr> = with_store st2 v" by (simp_all add: v_def with_store_def)
    obtain l v1 where l: "setup_listener se v = (l, v1)" by fastforce
    show ?thesis
    proof (cases "l = None \<or> se_epoll_create se = None")
      case True
      then show ?thesis unfolding net_init_def v by (cases l) (auto simp: l storeless)
    next
      case False
      then obtain fd k where fd: "l = Some fd" "se_epoll_create se = Some k" by auto
      obtain efd v2 where o: "sys_open k v1 = (efd, v2)" by fastforce
      define v3 where "v3 = v2\<lparr>w_listen_fd := Some fd, w_epoll_fd := Some efd\<rparr>"
      have v3: "(with_store st v2)\<lparr>w_listen_fd := Some fd, w_epoll_fd := Some efd\<rparr> = with_store st v3" for st
        by (simp add: v3_def storeless)
      obtain r v4 where "epoll_set fd None EPOLLIN v3 = (r, v4)" by fastforce
      then show ?thesis
        unfolding net_init_def v
        by (cases r) (simp_all add: l fd o setup_listener_storeless sys_open_storeless v3 v3_def [symmetric]
            epoll_set_storeless Let_def storeless)
    qed
  qed
  show "net_init se ht_init w = (r, with_store ht_init w')" using eq [of ht_init st] assms by simp
  have "w' = with_store st w'" using eq [of st st] assms by simp
  then show "w_store w' = st" by (metis with_store_simps(11))
qed

lemma ps_destroy_sim:
  assumes "backs s w" "owns (w_mem w) (ht_blocks (w_store w)) alone" "ht_destroy (w_mem w) (w_store w) = (m', st')"
  shows "\<exists>s'. ps_destroy s = Some s' \<and> backs s' (w\<lparr>w_mem := m', w_store := st'\<rparr>)"
proof -
  let ?h = "\<lparr>hp_mem = w_mem w, hp_at = ps_at s\<rparr>"
  have B: "ps_net s = with_store ht_init w" "represents ?h (ps_table s) (w_store w)" using assms(1) by (simp_all add: backs_def)
  from p_destroy_simulates [OF B(2), of alone] assms(2,3) obtain h' t' where
    h': "p_destroy ?h (ps_table s) = Some (h', t')" "hp_mem h' = m'" "represents h' t' st'"
    by (auto simp: simulates_def)
  have "represents \<lparr>hp_mem = m', hp_at = hp_at h'\<rparr> t' st'"
    using h'(3) represents_at [of "\<lparr>hp_mem = m', hp_at = hp_at h'\<rparr>" h'] by simp
  moreover have "with_store ht_init (w\<lparr>w_mem := m'\<rparr>) = with_store ht_init (w\<lparr>w_mem := m', w_store := st'\<rparr>)"
    by (simp add: with_store_def)
  ultimately show ?thesis using h'(1,2) B(1) by (simp add: ps_destroy_def backs_def storeless)
qed

lemma p_main_serve_sim:
  assumes H: "holds_table (run_bytes rs) h t m st" and fds: "distinct fds"
    and run: "\<And>w. net_init se st (world_start m fds ctl) = (RC_OK, w) \<Longrightarrow> run_ok rs w"
  shows "case main_serve se rs st (world_start m fds ctl) of
      None \<Rightarrow> p_main_serve se rs h t (world_start m fds ctl) = Some None
    | Some (code, w') \<Rightarrow> \<exists>s'. p_main_serve se rs h t (world_start m fds ctl) = Some (Some (code, s')) \<and> backs s' w'"
proof -
  have S: "ht_inv st" "owns m (ht_blocks st) alone" "fits (ht_abs st) (run_bytes rs)" "represents h t st"
    using H by (simp_all add: holds_table_def sound_def)
  let ?w = "world_start m fds ctl"
  obtain r w1 where i: "net_init se st ?w = (r, w1)" by fastforce
  note I0 = net_init_with_store [OF i]
  have I: "(if r = RC_OK then net_inv else stopped) (set fds) w1" "w_conns w1 = []"
    using net_init_cases [OF _ _ _ _ _ _ S(1) _ i] S(2) fds by (simp_all add: world_start_def)
  define s1 where "s1 = \<lparr>ps_net = with_store ht_init w1, ps_at = hp_at h, ps_table = t\<rparr>"
  have b1: "backs s1 w1"
    using S(4) I0(2) represents_at [of "\<lparr>hp_mem = w_mem w1, hp_at = hp_at h\<rparr>" h] by (simp add: s1_def backs_def)
  show ?thesis
  proof (cases r)
    case RC_ERR
    obtain m' st' where d: "ht_destroy (w_mem w1) (w_store w1) = (m', st')" by fastforce
    have "owns (w_mem w1) (ht_blocks (w_store w1)) alone" using I(1) RC_ERR by (simp add: stopped_def)
    from ps_destroy_sim [OF b1 this d] RC_ERR i I0(1) d show ?thesis
      by (auto simp: main_serve_def p_main_serve_def s1_def)
  next
    case RC_OK
    have f: "fits (ht_abs (w_store w1)) (pending (w_conns w1) + run_bytes rs)" "run_ok rs w1" and inv: "net_inv (set fds) w1"
      using S(3) I0(2) I run RC_OK i by (simp_all add: pending_def)
    note R = p_net_run_sim [OF b1 inv f]
    show ?thesis
    proof (cases "net_run rs w1")
      case None
      with R RC_OK i I0(1) show ?thesis by (simp add: main_serve_def p_main_serve_def s1_def)
    next
      case (Some res)
      then obtain rc w2 where n: "net_run rs w1 = Some (rc, w2)" by (cases res) simp
      from inv f n have "stopped (set fds) w2" by (cases rule: net_run_cases) simp_all
      then have own: "owns (w_mem w2) (ht_blocks (w_store w2)) alone" by (simp add: stopped_def)
      obtain s2 where s2: "p_net_run rs s1 = Some (Some (rc, s2))" "backs s2 w2" using R n by auto
      obtain m' st' where d: "ht_destroy (w_mem w2) (w_store w2) = (m', st')" by fastforce
      from ps_destroy_sim [OF s2(2) own d] s2(1) RC_OK i I0(1) n d show ?thesis
        by (auto simp: main_serve_def p_main_serve_def s1_def)
    qed
  qed
qed

lemma p_main_program_sim:
  assumes "distinct fds" "fits Map.empty (1000 + run_bytes rs)" "main_store (mem_init os) = (m, st)"
    "\<And>w. net_init se st (world_start m fds ctl) = (RC_OK, w) \<Longrightarrow> run_ok rs w"
  shows "case main_program se rs (mem_init os) fds ctl of
      None \<Rightarrow> p_main_program se rs (heap_init os) fds ctl = Some None
    | Some (code, w') \<Rightarrow> \<exists>s'. p_main_program se rs (heap_init os) fds ctl = Some (Some (code, s')) \<and> backs s' w'"
proof -
  from p_main_store_sim [OF assms(2,3)] obtain h t where
    h: "p_main_store (heap_init os) = Some (h, t)" "holds_table (run_bytes rs) h t m st" by blast
  have "hp_mem h = m" using h(2) by (simp add: holds_table_def)
  then have eq: "p_main_program se rs (heap_init os) fds ctl = p_main_serve se rs h t (world_start m fds ctl)"
    "main_program se rs (mem_init os) fds ctl = main_serve se rs st (world_start m fds ctl)"
    using h(1) assms(3) by (simp_all add: main_program_def p_main_program_def)
  show ?thesis unfolding eq by (rule p_main_serve_sim [OF h(2) assms(1)]) (rule assms(4))
qed

section \<open>Memory safety of the program\<close>

text \<open>
  C7. The program is memory safe on its store: \<open>main\<close> with the self tests, the server and the final
  \<open>ht_destroy\<close> on linked nodes and byte blocks always has a result, whatever allocations fail and whatever the kernel
  reports. No request of any client makes a handler follow a pointer into memory that was freed, and the run
  stands where the run with values stands: still waiting, or returned with the same exit code and the
  same sockets, its store representing that one, and every block freed.
\<close>

theorem program_memory_safe:
  assumes "distinct fds" "fits Map.empty (1000 + run_bytes rs)"
    "\<And>w. net_init se (snd (main_store (mem_init os))) (world_start (fst (main_store (mem_init os))) fds ctl) = (RC_OK, w) \<Longrightarrow> run_ok rs w"
  shows "case main_program se rs (mem_init os) fds ctl of
      None \<Rightarrow> p_main_program se rs (heap_init os) fds ctl = Some None
    | Some (code, w') \<Rightarrow> \<exists>s'. p_main_program se rs (heap_init os) fds ctl = Some (Some (code, s')) \<and>
        ps_net s' = w'\<lparr>w_store := ht_init\<rparr> \<and>
        represents \<lparr>hp_mem = w_mem w', hp_at = ps_at s'\<rparr> (ps_table s') (w_store w') \<and>
        m_live (w_mem (ps_net s')) = {} \<and> \<not> m_bad (w_mem (ps_net s'))"
proof -
  obtain m st where m: "main_store (mem_init os) = (m, st)" by fastforce
  note run = assms(3) [unfolded m fst_conv snd_conv]
  have "main_program se rs (mem_init os) fds ctl = None \<and> \<not> run_stops rs \<or>
    (\<exists>code w'. main_program se rs (mem_init os) fds ctl = Some (code, w') \<and> all_returned (set fds) w' \<and>
       (code = 0 \<longleftrightarrow> fst (net_init se st (world_start m fds ctl)) = RC_OK))"
    by (rule main_program_cases [OF assms(1,2) m]) (rule run)
  moreover have "case main_program se rs (mem_init os) fds ctl of
      None \<Rightarrow> p_main_program se rs (heap_init os) fds ctl = Some None
    | Some (code, w') \<Rightarrow> \<exists>s'. p_main_program se rs (heap_init os) fds ctl = Some (Some (code, s')) \<and> backs s' w'"
    by (rule p_main_program_sim [OF assms(1,2) m]) (rule run)
  ultimately show ?thesis by (auto simp: backs_def all_returned_def with_store_def)
qed

definition accept_then_stop :: "wait_result list" where
  "accept_then_stop =
    [Ew_Events False [\<lparr>ev_ptr = None, ev_mask = EPOLLIN, ev_reads = [], ev_writes = [], ev_accepts = [Ac_Conn 5 True]\<rparr>],
     Ew_Intr True]"

theorem program_memory_safe_witness:
  "\<exists>code s'. p_main_program setup_ok accept_then_stop (heap_init [True, False]) [0, 1, 2] [] = Some (Some (code, s')) \<and>
     m_live (w_mem (ps_net s')) = {}"
proof -
  have ok: "run_ok accept_then_stop w" for w
    by (simp add: accept_then_stop_def batch_ok_def MAX_EVENTS_def run_ok_def split: option.split)
  have f: "fits Map.empty (1000 + run_bytes accept_then_stop)"
    using fits_empty [of 1000] by (simp add: run_bytes_def ht_init_abs accept_then_stop_def event_bytes_def)
  obtain m st where m: "main_store (mem_init [True, False]) = (m, st)" by fastforce
  have "main_program setup_ok accept_then_stop (mem_init [True, False]) [0, 1, 2] [] \<noteq> None"
    using main_program_cases [OF _ f m ok, of "[0, 1, 2]" setup_ok "[]"] by (auto simp: accept_then_stop_def)
  moreover have "case main_program setup_ok accept_then_stop (mem_init [True, False]) [0, 1, 2] [] of
      None \<Rightarrow> p_main_program setup_ok accept_then_stop (heap_init [True, False]) [0, 1, 2] [] = Some None
    | Some (code, w') \<Rightarrow> \<exists>s'. p_main_program setup_ok accept_then_stop (heap_init [True, False]) [0, 1, 2] [] = Some (Some (code, s')) \<and>
        ps_net s' = w'\<lparr>w_store := ht_init\<rparr> \<and>
        represents \<lparr>hp_mem = w_mem w', hp_at = ps_at s'\<rparr> (ps_table s') (w_store w') \<and>
        m_live (w_mem (ps_net s')) = {} \<and> \<not> m_bad (w_mem (ps_net s'))"
    by (rule program_memory_safe [OF _ f ok]) simp
  ultimately show ?thesis by auto
qed

end
