(* ===== verification/Smoke_Commands.thy ===== *)
theory Smoke_Commands
  imports Smoke
begin

text \<open>
  The forty-one dispatcher cases of the self test pass, from the store the hash table test leaves
  and when no allocation fails. Each case is settled on the specification of the commands; the
  refinement of \<open>command_execute\<close> carries it to the code.
\<close>

section \<open>A case on the specification\<close>

fun meets_bytes :: "expected \<Rightarrow> bytes \<Rightarrow> bool" where
  "meets_bytes (Exactly e) bs = (bs = e \<and> length e \<le> 1000)"
| "meets_bytes (Starting e n) bs = (take (length e) bs = e \<and> length bs = unat n \<and> length e \<le> 1000)"

definition case_ok :: "(bytes \<rightharpoonup> bytes) \<Rightarrow> cmd_case \<Rightarrow> (bytes \<rightharpoonup> bytes) \<Rightarrow> bool" where
  "case_ok mp cs mp' \<longleftrightarrow>
     (\<forall>order. set order = dom mp \<longrightarrow> distinct order \<longrightarrow>
        (case exec order mp (fst cs) of (r, mp1) \<Rightarrow>
           mp1 = mp' \<and> meets_bytes (snd cs) (encode_reply r) \<and> length (encode_reply r) \<le> 1000))"

text \<open>A small store, given as a list of pairs.\<close>

definition small :: "(bytes \<times> bytes) list \<Rightarrow> bool" where
  "small al \<longleftrightarrow> length al \<le> 1000 \<and> (\<forall>(k, v)\<in>set al. length k \<le> 1000 \<and> length v \<le> 1000)"

definition small_args :: "bytes list \<Rightarrow> bool" where
  "small_args args \<longleftrightarrow> length args \<le> 32 \<and> (\<forall>a\<in>set args. length a \<le> 1000)"

lemma small_in_memory: "small al \<Longrightarrow> small_args args \<Longrightarrow> in_memory (map_of al) args"
proof -
  assume s: "small al" and a: "small_args args"
  have "length k \<le> MEM_MAX \<and> length v \<le> MEM_MAX" if "map_of al k = Some v" for k v
    using s map_of_SomeD [OF that] by (fastforce simp: small_def MEM_MAX_def)
  moreover have "card (dom (map_of al)) \<le> length al"
    by (metis card_length dom_map_of_conv_image_fst length_map list.set_map)
  ultimately show ?thesis
    using s a by (fastforce simp: in_memory_def small_def small_args_def MEM_MAX_def RESP_MAX_ARGC_def)
qed

lemma meets_iff:
  assumes "bb_inv out" "meets_bytes e (bb_contents out)"
  shows "meets e out"
proof (cases e)
  case (Exactly bs)
  then show ?thesis using assms by (simp add: bytebuf_eq_iff SIZE_MAX_def)
next
  case (Starting bs n)
  then show ?thesis
    using assms length_bb_contents [OF assms(1)]
    by (simp add: bytebuf_starts_with_iff SIZE_MAX_def word_unat_eq_iff)
qed

lemma cmd_check_passes:
  assumes inv: "ctx_inv c" "mem_plenty (c_mem c)" "ctx_reply c = []"
    and mp: "ht_abs (c_store c) = map_of al" "small al" "small_args (fst cs)" "case_ok (map_of al) cs mp'"
  shows "\<exists>c'. cmd_check cs c = (True, c') \<and> ctx_inv c' \<and> mem_plenty (c_mem c') \<and> ctx_reply c' = [] \<and>
    ht_abs (c_store c') = mp'"
proof -
  have hinv: "ht_inv (c_store c)" using inv by (simp add: ctx_inv_def)
  have mem: "in_memory (ht_abs (c_store c)) (fst cs)" using small_in_memory [OF mp(2,3)] mp(1) by simp
  obtain rc c1 where ex: "command_execute c (fst cs) = (rc, c1)" by fastforce
  obtain r mp1 where sp: "exec (ht_keys (c_store c)) (ht_abs (c_store c)) (fst cs) = (r, mp1)" by fastforce
  have ok: "mp1 = mp'" "meets_bytes (snd cs) (encode_reply r)" "length (encode_reply r) \<le> 1000"
    using mp(4) [unfolded case_ok_def, rule_format, of "ht_keys (c_store c)"]
      sp ht_keys_dom [OF hinv] kv.keys_distinct [OF hinv] by (simp_all add: mp(1))
  from command_execute_answers [OF inv(1) mem] have a: "answers [] c (r, mp1) (rc, c1)" by (simp add: ex sp)
  then have w: "written c r rc c1" "ctx_inv c1" "ht_abs (c_store c1) = mp1"
    using inv(2) by (auto simp: answers_def)
  then have rc: "rc = RC_OK" and p: "mem_plenty (c_mem c1)" and rep: "ctx_reply c1 = encode_reply r"
    using inv(2,3) ok(3) by (auto simp: written_def BUF_LIMIT_def)
  have out: "bb_inv (c_out c1)" using w(2) by (simp add: ctx_inv_def)
  have "meets (snd cs) (c_out c1)"
    using ok(2) rep by (intro meets_iff [OF out]) (simp add: ctx_reply_def)
  then have "cmd_check cs c = (True, c1\<lparr>c_out := bytebuf_reset (c_out c1)\<rparr>)"
    by (simp add: cmd_check_def ex rc)
  with w p ok(1) bytebuf_reset_props show ?thesis
    by (simp add: ctx_inv_def ctx_reply_def)
qed

text \<open>A sequence of cases, with the store after each.\<close>

fun cases_ok :: "(bytes \<times> bytes) list \<Rightarrow> (cmd_case \<times> (bytes \<times> bytes) list) list \<Rightarrow> bool" where
  "cases_ok al [] = True"
| "cases_ok al ((cs, al') # rest) =
     (small al \<and> small_args (fst cs) \<and> case_ok (map_of al) cs (map_of al') \<and> cases_ok al' rest)"

definition last_store :: "(bytes \<times> bytes) list \<Rightarrow> (cmd_case \<times> (bytes \<times> bytes) list) list \<Rightarrow> (bytes \<times> bytes) list" where
  "last_store al steps = (if steps = [] then al else snd (last steps))"

lemma cmd_checks_pass:
  "cases_ok al steps \<Longrightarrow> ctx_inv c \<Longrightarrow> mem_plenty (c_mem c) \<Longrightarrow> ctx_reply c = [] \<Longrightarrow>
   ht_abs (c_store c) = map_of al \<Longrightarrow>
   \<exists>c'. cmd_checks (map fst steps) c p t = (p + length steps, t + length steps, c') \<and>
     ctx_inv c' \<and> mem_plenty (c_mem c') \<and> ctx_reply c' = [] \<and>
     ht_abs (c_store c') = map_of (last_store al steps)"
proof (induction steps arbitrary: al c p t)
  case Nil
  then show ?case by (simp add: last_store_def)
next
  case (Cons s steps)
  obtain cs al' where s: "s = (cs, al')" by fastforce
  with Cons.prems cmd_check_passes [of c al cs "map_of al'"] obtain c1 where
    c1: "cmd_check cs c = (True, c1)" "ctx_inv c1" "mem_plenty (c_mem c1)" "ctx_reply c1 = []"
    "ht_abs (c_store c1) = map_of al'" by auto
  have "cases_ok al' steps" using Cons.prems(1) s by simp
  from Cons.IH [OF this c1(2-5), of "Suc p" "Suc t"] c1(1) s show ?case
    by (auto simp: last_store_def)
qed

lemma cases_ok_append:
  "cases_ok al (s1 @ s2) \<longleftrightarrow> cases_ok al s1 \<and> cases_ok (last_store al s1) s2"
proof (induction s1 arbitrary: al)
  case (Cons s s1)
  then show ?case by (cases s) (auto simp: last_store_def)
qed (simp add: last_store_def)

section \<open>Evaluating a case\<close>

lemma of_char_byte: "(of_char c :: byte) = of_char d \<longleftrightarrow> c = d"
proof
  assume "(of_char c :: byte) = of_char d"
  then have "(word_of_nat (of_char c) :: byte) = word_of_nat (of_char d)" by (simp only: of_nat_of_char)
  then have "(of_char c :: nat) mod 256 = of_char d mod 256" by (simp add: word_of_nat_eq_iff take_bit_eq_mod)
  moreover have "(of_char c :: nat) < 256" "(of_char d :: nat) < 256" using nat_of_char_less_256 by auto
  ultimately show "c = d" by simp
qed simp

lemma cstr_eq_iff: "cstr s = cstr t \<longleftrightarrow> s = t"
proof -
  have "inj (of_char :: char \<Rightarrow> byte)" by (simp add: inj_def of_char_byte)
  then show ?thesis by (simp add: cstr_def inj_map_eq_map)
qed

lemma decode_names:
  "decode_named (cstr ''PING'') as = Some (case as of [] \<Rightarrow> Inr Ping | [x] \<Rightarrow> Inr (Echo x) | _ \<Rightarrow> wrong_args (cstr ''PING''))"
  "decode_named (cstr ''GET'') as = Some (case as of [k] \<Rightarrow> Inr (Get k) | _ \<Rightarrow> wrong_args (cstr ''GET''))"
  "decode_named (cstr ''SET'') as = Some (case as of [k, v] \<Rightarrow> Inr (Set k v) | _ \<Rightarrow> wrong_args (cstr ''SET''))"
  "decode_named (cstr ''DEL'') as = Some (case as of [] \<Rightarrow> wrong_args (cstr ''DEL'') | _ \<Rightarrow> Inr (Del as))"
  "decode_named (cstr ''EXISTS'') as = Some (case as of [] \<Rightarrow> wrong_args (cstr ''EXISTS'') | _ \<Rightarrow> Inr (Exists as))"
  "decode_named (cstr ''COMMAND'') as = Some (Inr Command_Docs)"
  "decode_named (cstr ''INCR'') as = Some (case as of [k] \<Rightarrow> Inr (Incr k (Some 1)) | _ \<Rightarrow> wrong_args (cstr ''INCR''))"
  "decode_named (cstr ''DECR'') as = Some (case as of [k] \<Rightarrow> Inr (Incr k (Some (- 1))) | _ \<Rightarrow> wrong_args (cstr ''DECR''))"
  "decode_named (cstr ''INCRBY'') as =
     Some (case as of [k, d] \<Rightarrow> Inr (Incr k (int64_arg d)) | _ \<Rightarrow> wrong_args (cstr ''INCRBY''))"
  "decode_named (cstr ''DECRBY'') as =
     Some (case as of [k, d] \<Rightarrow> Inr (Incr k (map_option uminus (int64_arg d))) | _ \<Rightarrow> wrong_args (cstr ''DECRBY''))"
  "decode_named (cstr ''STRLEN'') as = Some (case as of [k] \<Rightarrow> Inr (Strlen k) | _ \<Rightarrow> wrong_args (cstr ''STRLEN''))"
  "decode_named (cstr ''APPEND'') as = Some (case as of [k, v] \<Rightarrow> Inr (Append k v) | _ \<Rightarrow> wrong_args (cstr ''APPEND''))"
  "decode_named (cstr ''KEYS'') as = Some (case as of [p] \<Rightarrow> Inr (Keys p) | _ \<Rightarrow> wrong_args (cstr ''KEYS''))"
  "decode_named (cstr ''DBSIZE'') as = Some (case as of [] \<Rightarrow> Inr Dbsize | _ \<Rightarrow> wrong_args (cstr ''DBSIZE''))"
  "decode_named (cstr ''FLUSHDB'') as = Some (case as of [] \<Rightarrow> Inr Flushdb | _ \<Rightarrow> wrong_args (cstr ''FLUSHDB''))"
  "decode_named (cstr ''SETNX'') as = Some (case as of [k, v] \<Rightarrow> Inr (Setnx k v) | _ \<Rightarrow> wrong_args (cstr ''SETNX''))"
  "decode_named (cstr ''GETSET'') as = Some (case as of [k, v] \<Rightarrow> Inr (Getset k v) | _ \<Rightarrow> wrong_args (cstr ''GETSET''))"
  "decode_named (cstr ''XYZ'') as = None"
  by (simp_all add: decode_named_def cstr_eq_iff)

lemma upper_names:
  "s \<in> {''PING'', ''GET'', ''SET'', ''DEL'', ''EXISTS'', ''COMMAND'', ''INCR'', ''DECR'', ''INCRBY'', ''DECRBY'',
     ''STRLEN'', ''APPEND'', ''KEYS'', ''DBSIZE'', ''FLUSHDB'', ''SETNX'', ''GETSET'', ''XYZ''} \<Longrightarrow>
   map to_upper (cstr s) = cstr s"
  by (elim insertE emptyE) (simp_all add: cstr_def to_upper_def)

lemma exec_named:
  "decode_named (cstr s) as = Some (Inr c) \<Longrightarrow> map to_upper (cstr s) = cstr s \<Longrightarrow>
   exec order mp (cstr s # as) = run order mp c"
  by (simp add: exec_def decode_def)


lemmas digits_eval = fmt_d64_def fmt_zu_def dec_digits.simps int64_arg_def digits_within_def dec_value_def
  is_digit_def PARSE_MAX_def int64_range_def INT64_MAX_def INT64_MIN_def
lemmas exec_eval = exec_named decode_names upper_names cstr_eq_iff

lemma length_line: "length (line s) = length s + 2" "length (bulk3 h b) = length h + length b + 4"
  by (simp_all add: bulk3_def line_def cstr_def crlf_def)

lemma int_replies:
  "encode_reply (RInt 0) = line '':0''" "encode_reply (RInt 1) = line '':1''" "encode_reply (RInt 2) = line '':2''"
  "encode_reply (RInt 3) = line '':3''" "encode_reply (RInt 5) = line '':5''" "encode_reply (RInt 6) = line '':6''"
  "encode_reply (RInt 7) = line '':7''" "encode_reply (RInt 11) = line '':11''" "encode_reply (RInt 12) = line '':12''"
  by (simp_all add: line_def cstr_def digits_eval)

lemmas int_lines = int_replies [unfolded encode_reply.simps]

lemma bulk_replies:
  "bulk_bytes (cstr ''hello'') = bulk3 ''$5'' ''hello''" "bulk_bytes (cstr ''bar'') = bulk3 ''$3'' ''bar''"
  "bulk_bytes (cstr ''Hello World'') = bulk3 ''$11'' ''Hello World''"
  "bulk_bytes (cstr ''first'') = bulk3 ''$5'' ''first''" "bulk_bytes (cstr ''v1'') = bulk3 ''$2'' ''v1''"
  "bulk_bytes (cstr ''v2'') = bulk3 ''$2'' ''v2''" "bulk_bytes (cstr ''k1'') = bulk3 ''$2'' ''k1''"
  "fmt_zu 0 = cstr ''0''" "fmt_zu 1 = cstr ''1''" "fmt_zu 3 = cstr ''3''"
  by (simp_all add: bulk_bytes_def bulk3_def line_def cstr_def digits_eval size_of_def)

lemma int_arguments:
  "int64_arg (cstr ''10'') = Some 10" "int64_arg (cstr ''5'') = Some 5" "int64_arg (cstr ''hello'') = None"
  "int64_arg (cstr ''1'') = Some 1" "int64_arg (cstr ''2'') = Some 2" "int64_arg (cstr ''12'') = Some 12"
  "int64_arg (cstr ''7'') = Some 7"
  "int64_arg (cstr ''6'') = Some 6"
  by (simp_all add: cstr_def digits_eval)

lemma int_formats:
  "fmt_d64 1 = cstr ''1''" "fmt_d64 2 = cstr ''2''" "fmt_d64 12 = cstr ''12''" "fmt_d64 7 = cstr ''7''"
  "fmt_d64 6 = cstr ''6''"
  by (simp_all add: cstr_def digits_eval)

text \<open>The rule for a case: the specification runs the command, and the reply is the expected one.\<close>

lemma case_okI:
  assumes "\<And>order. set order = dom mp \<Longrightarrow> distinct order \<Longrightarrow> exec order mp (map cstr args) = (r, mp')"
    and "encode_reply r = e" "length e \<le> 1000"
  shows "case_ok mp (on args e) mp'"
  using assms by (simp add: case_ok_def on_def)

lemmas case_eval = exec_eval int_arguments int_formats int64_range_def INT64_MIN_def INT64_MAX_def
  not_integer_def wrong_args_def quoted_def
lemmas reply_eval = int_replies bulk_replies length_line

definition key :: "string \<Rightarrow> string \<Rightarrow> bytes \<times> bytes" where
  "key k v = (cstr k, cstr v)"

lemma ok_ping: "case_ok mp (on [''PING''] (line ''+PONG'')) mp"
  by (rule case_okI) (simp_all add: case_eval length_line, simp add: line_def cstr_def)

lemma ok_set: "case_ok (map_of al) (on [''SET'', k, v] (line ''+OK'')) (map_of (key k v # al))"
  by (rule case_okI) (simp_all add: case_eval length_line key_def, simp add: line_def cstr_def)

lemma ok_get: "mp (cstr k) = Some w \<Longrightarrow> bulk_bytes w = bulk3 h b \<Longrightarrow> length h + length b \<le> 900 \<Longrightarrow>
    case_ok mp (on [''GET'', k] (bulk3 h b)) mp"
  by (rule case_okI [where r = "RBulk w"]) (simp_all add: case_eval length_line)

lemma ok_get_missing: "mp (cstr k) = None \<Longrightarrow> case_ok mp (on [''GET'', k] (line ''$-1'')) mp"
  by (rule case_okI) (simp_all add: case_eval length_line, simp add: line_def)

lemma ok_flush: "case_ok mp (on [''FLUSHDB''] (line ''+OK'')) (map_of [])"
  by (rule case_okI) (simp_all add: case_eval length_line, simp add: line_def cstr_def)

lemma ok_incr:
  assumes "mp (cstr k) = v" "(case v of None \<Rightarrow> Some 0 | Some w \<Rightarrow> int64_arg w) = Some n"
    and "int64_range (n + 1)" "fmt_d64 (n + 1) = cstr t" "encode_reply (RInt (n + 1)) = line r" "length r \<le> 900"
  shows "case_ok mp (on [''INCR'', k] (line r)) (mp(cstr k \<mapsto> cstr t))"
  by (rule case_okI [where r = "RInt (n + 1)"]) (use assms in \<open>simp_all add: exec_eval length_line\<close>)

lemma ok_incr_text: "mp (cstr k) = Some w \<Longrightarrow> int64_arg w = None \<Longrightarrow>
    case_ok mp (on [''INCR'', k] (line ''-ERR value is not an integer or out of range'')) mp"
  by (rule case_okI [where r = not_integer]) (simp_all add: exec_eval length_line, simp add: not_integer_def line_def cstr_def)

lemma ok_append:
  assumes "(case mp (cstr k) of None \<Rightarrow> [] | Some w \<Rightarrow> w) = cstr t"
    and "encode_reply (RInt (int (length (t @ v)))) = line r" "length r \<le> 900"
  shows "case_ok mp (on [''APPEND'', k, v] (line r)) (mp(cstr k \<mapsto> cstr (t @ v)))"
proof (rule case_okI)
  have c: "cstr t @ cstr v = cstr (t @ v)" "length (cstr s) = length s" for s by (simp_all add: cstr_def)
  show "exec order mp (map cstr [''APPEND'', k, v]) = (RInt (int (length (t @ v))), mp(cstr k \<mapsto> cstr (t @ v)))" for order
    using assms(1) c by (auto simp: exec_eval split: option.splits)
qed (use assms in \<open>simp_all add: length_line\<close>)

lemma ok_dbsize:
  assumes "encode_reply (RInt (int (card (dom mp)))) = line r" "length r \<le> 900"
  shows "case_ok mp (on [''DBSIZE''] (line r)) mp"
  by (rule case_okI [where r = "RInt (int (card (dom mp)))"]) (use assms in \<open>simp_all add: exec_eval length_line\<close>)

section \<open>The basic commands\<close>

definition al0 :: "(bytes \<times> bytes) list" where
  "al0 = [(cstr ''hello'', cstr ''WORLD!''), (bin_key, bin_val)]"

lemma bin_key_names: "bin_key \<noteq> cstr ''smoke_foo''" "bin_key \<noteq> cstr ''smoke_nope''" "bin_key \<noteq> cstr ''hello''"
  by (simp_all add: bin_key_def cstr_def)

lemmas al0_eval = al0_def key_def cstr_eq_iff bin_key_names bin_key_names [symmetric]

definition basic_steps :: "(cmd_case \<times> (bytes \<times> bytes) list) list" where
  "basic_steps = zip basic_cases
     (let al1 = key ''smoke_foo'' ''bar'' # al0 in [al0, al0, al1, al1, al1, al1, al0, al0, al0, al0, al0])"

lemma basic_3_to_8:
  defines "mp0 \<equiv> map_of al0" and "mp1 \<equiv> map_of (key ''smoke_foo'' ''bar'' # al0)"
  shows "case_ok mp1 (on [''GET'', ''smoke_foo''] (bulk3 ''$3'' ''bar'')) mp1"
    "case_ok mp1 (on [''GET'', ''smoke_nope''] (line ''$-1'')) mp1"
    "case_ok mp1 (on [''EXISTS'', ''smoke_foo'', ''smoke_nope'', ''smoke_foo''] (line '':2'')) mp1"
    "case_ok mp1 (on [''DEL'', ''smoke_foo''] (line '':1'')) mp0"
    "case_ok mp0 (on [''GET'', ''smoke_foo''] (line ''$-1'')) mp0"
proof -
  have m: "mp1 (cstr ''smoke_foo'') = Some (cstr ''bar'')" "mp1 (cstr ''smoke_nope'') = None"
    "mp0 (cstr ''smoke_foo'') = None" "mp1 = mp0(cstr ''smoke_foo'' \<mapsto> cstr ''bar'')"
    by (simp_all add: mp0_def mp1_def al0_eval)
  show "case_ok mp1 (on [''GET'', ''smoke_foo''] (bulk3 ''$3'' ''bar'')) mp1"
    by (rule ok_get, rule m(1)) (simp_all add: bulk_replies)
  show "case_ok mp1 (on [''GET'', ''smoke_nope''] (line ''$-1'')) mp1" by (rule ok_get_missing, rule m(2))
  show "case_ok mp0 (on [''GET'', ''smoke_foo''] (line ''$-1'')) mp0" by (rule ok_get_missing, rule m(3))
  have d: "cstr ''smoke_foo'' \<in> dom mp1" "cstr ''smoke_nope'' \<notin> dom mp1" using m(1,2) by (simp_all add: domIff)
  show "case_ok mp1 (on [''EXISTS'', ''smoke_foo'', ''smoke_nope'', ''smoke_foo''] (line '':2'')) mp1"
    by (rule case_okI [where r = "RInt 2"]) (simp_all add: exec_eval d int_lines length_line)
  have "mp1 |` (- {cstr ''smoke_foo''}) = mp0" using m(3,4) by (auto simp: restrict_map_def)
  then show "case_ok mp1 (on [''DEL'', ''smoke_foo''] (line '':1'')) mp0"
    by (intro case_okI [where r = "RInt 1"]) (simp_all add: exec_eval d int_lines length_line)
qed

lemma basic_replies:
  "case_ok mp (on [''PING'', ''hello''] (bulk3 ''$5'' ''hello'')) mp"
  "case_ok mp (on [''COMMAND''] (line ''*0'')) mp"
  "case_ok mp (on [''XYZ''] (cstr ''-ERR unknown command '' @ [39] @ cstr ''XYZ'' @ [39] @ crlf)) mp"
  "case_ok mp (on [''SET'', ''only_key'']
     (cstr ''-ERR wrong number of arguments for '' @ [39] @ cstr ''SET'' @ [39] @ crlf)) mp"
proof -
  show "case_ok mp (on [''PING'', ''hello''] (bulk3 ''$5'' ''hello'')) mp"
    by (rule case_okI [where r = "RBulk (cstr ''hello'')"]) (simp_all add: exec_eval bulk_replies length_line)
  show "case_ok mp (on [''COMMAND''] (line ''*0'')) mp"
    by (rule case_okI [where r = "RArray []"]) (simp_all add: exec_eval length_line, simp add: line_def bulk_replies, simp add: cstr_def)
  show "case_ok mp (on [''XYZ''] (cstr ''-ERR unknown command '' @ [39] @ cstr ''XYZ'' @ [39] @ crlf)) mp"
    by (rule case_okI [where r = "RError (quoted ''ERR unknown command '' (cstr ''XYZ''))"])
       (simp add: exec_def decode_def upper_names decode_names, simp_all add: quoted_def cstr_def crlf_def CR_def LF_def)
  show "case_ok mp (on [''SET'', ''only_key'']
     (cstr ''-ERR wrong number of arguments for '' @ [39] @ cstr ''SET'' @ [39] @ crlf)) mp"
    by (rule case_okI [where r = "RError (quoted ''ERR wrong number of arguments for '' (cstr ''SET''))"])
       (simp add: exec_def decode_def upper_names decode_names wrong_args_def, simp_all add: quoted_def cstr_def crlf_def CR_def LF_def)
qed

text \<open>The sizes of the steps, and then the steps one by one.\<close>

lemmas sizes = small_def small_args_def al0_def key_def bin_key_def bin_val_def on_def cstr_def

definition sized :: "(bytes \<times> bytes) list \<Rightarrow> (cmd_case \<times> (bytes \<times> bytes) list) list \<Rightarrow> bool" where
  "sized al steps \<longleftrightarrow> small al \<and> list_all (\<lambda>(cs, al'). small_args (fst cs) \<and> small al') steps"

fun chained :: "(bytes \<times> bytes) list \<Rightarrow> (cmd_case \<times> (bytes \<times> bytes) list) list \<Rightarrow> bool" where
  "chained al [] = True"
| "chained al ((cs, al') # rest) = (case_ok (map_of al) cs (map_of al') \<and> chained al' rest)"

lemma cases_okI: "sized al steps \<Longrightarrow> chained al steps \<Longrightarrow> cases_ok al steps"
  by (induction steps arbitrary: al) (auto simp: sized_def)

lemma basic_ok: "cases_ok al0 basic_steps"
proof (rule cases_okI)
  show "sized al0 basic_steps"
    by (simp add: sized_def basic_steps_def basic_cases_def Let_def, simp add: sizes)
  have "case_ok (map_of al0) (on [''SET'', ''smoke_foo'', ''bar''] (line ''+OK'')) (map_of (key ''smoke_foo'' ''bar'' # al0))"
    by (rule ok_set)
  with basic_3_to_8 basic_replies ok_ping show "chained al0 basic_steps"
    by (simp add: basic_steps_def basic_cases_def Let_def del: map_of.simps)
qed

section \<open>Integers and strings\<close>

definition counted :: "string \<Rightarrow> (bytes \<times> bytes) list" where
  "counted n = [key ''counter'' n]"

definition arithmetic_steps :: "(cmd_case \<times> (bytes \<times> bytes) list) list" where
  "arithmetic_steps = zip arithmetic_cases
     (let al1 = key ''not_int'' ''hello'' # counted ''6''
      in [[], counted ''1'', counted ''2'', counted ''12'', counted ''7'', counted ''6'', al1, al1])"

lemma ok_incr_counter:
  "case_ok (map_of []) (on [''INCR'', ''counter''] (line '':1'')) (map_of (counted ''1''))"
  "case_ok (map_of (counted ''1'')) (on [''INCR'', ''counter''] (line '':2'')) (map_of (counted ''2''))"
  "case_ok (map_of (counted ''2'')) (on [''INCRBY'', ''counter'', ''10''] (line '':12'')) (map_of (counted ''12''))"
  "case_ok (map_of (counted ''12'')) (on [''DECRBY'', ''counter'', ''5''] (line '':7'')) (map_of (counted ''7''))"
  "case_ok (map_of (counted ''7'')) (on [''DECR'', ''counter''] (line '':6'')) (map_of (counted ''6''))"
proof -
  note E = case_eval counted_def key_def
  show "case_ok (map_of []) (on [''INCR'', ''counter''] (line '':1'')) (map_of (counted ''1''))"
    by (rule case_okI [where r = "RInt 1"]) (simp add: E, rule int_replies, simp add: length_line)
  show "case_ok (map_of (counted ''1'')) (on [''INCR'', ''counter''] (line '':2'')) (map_of (counted ''2''))"
    by (rule case_okI [where r = "RInt 2"]) (simp add: E, rule int_replies, simp add: length_line)
  show "case_ok (map_of (counted ''2'')) (on [''INCRBY'', ''counter'', ''10''] (line '':12'')) (map_of (counted ''12''))"
    by (rule case_okI [where r = "RInt 12"]) (simp add: E, rule int_replies, simp add: length_line)
  show "case_ok (map_of (counted ''12'')) (on [''DECRBY'', ''counter'', ''5''] (line '':7'')) (map_of (counted ''7''))"
    by (rule case_okI [where r = "RInt 7"]) (simp add: E, rule int_replies, simp add: length_line)
  show "case_ok (map_of (counted ''7'')) (on [''DECR'', ''counter''] (line '':6'')) (map_of (counted ''6''))"
    by (rule case_okI [where r = "RInt 6"]) (simp add: E, rule int_replies, simp add: length_line)
qed

lemma arithmetic_ok: "cases_ok al0 arithmetic_steps"
proof (rule cases_okI)
  let ?al = "key ''not_int'' ''hello'' # counted ''6''"
  show "sized al0 arithmetic_steps"
    by (simp add: sized_def arithmetic_steps_def arithmetic_cases_def Let_def, simp add: counted_def sizes)
  have "case_ok (map_of al0) (on [''FLUSHDB''] (line ''+OK'')) (map_of [])" by (rule ok_flush)
  moreover have "case_ok (map_of (counted ''6'')) (on [''SET'', ''not_int'', ''hello''] (line ''+OK'')) (map_of ?al)"
    by (rule ok_set)
  moreover have "case_ok (map_of ?al)
      (on [''INCR'', ''not_int''] (line ''-ERR value is not an integer or out of range'')) (map_of ?al)"
    by (rule ok_incr_text [where w = "cstr ''hello''"]) (simp_all add: key_def int_arguments)
  ultimately show "chained al0 arithmetic_steps"
    using ok_incr_counter by (simp add: arithmetic_steps_def arithmetic_cases_def Let_def del: map_of.simps)
qed

definition string_steps :: "(cmd_case \<times> (bytes \<times> bytes) list) list" where
  "string_steps = zip string_cases
     (let al1 = key ''not_int'' ''hello'' # counted ''6'';
          al2 = key ''greeting'' ''Hello World'' # key ''greeting'' ''Hello'' # al1
      in [al1, al1, key ''greeting'' ''Hello'' # al1, al2, al2])"

lemma ok_strlen:
  assumes "(case mp (cstr k) of None \<Rightarrow> 0 | Some w \<Rightarrow> int (length w)) = n"
    and "encode_reply (RInt n) = line r" "length r \<le> 900"
  shows "case_ok mp (on [''STRLEN'', k] (line r)) mp"
  by (rule case_okI [where r = "RInt n"])
     (use assms in \<open>auto simp: exec_eval length_line simp del: encode_reply.simps split: option.splits\<close>)

lemma string_ok: "cases_ok (key ''not_int'' ''hello'' # counted ''6'') string_steps"
proof (rule cases_okI)
  let ?al = "key ''not_int'' ''hello'' # counted ''6''"
  let ?al1 = "key ''greeting'' ''Hello'' # ?al"
  let ?al2 = "key ''greeting'' ''Hello World'' # ?al1"
  note E = key_def counted_def cstr_eq_iff
  show "sized ?al string_steps"
    by (simp add: sized_def string_steps_def string_cases_def Let_def, simp add: counted_def sizes)
  have "case_ok (map_of ?al) (on [''STRLEN'', ''counter''] (line '':1'')) (map_of ?al)"
    by (rule ok_strlen [where n = 1]) (simp add: E cstr_def, rule int_replies, simp)
  moreover have "case_ok (map_of ?al) (on [''STRLEN'', ''missing''] (line '':0'')) (map_of ?al)"
    by (rule ok_strlen [where n = 0]) (simp add: E, rule int_replies, simp)
  moreover have "case_ok (map_of ?al) (on [''APPEND'', ''greeting'', ''Hello''] (line '':5'')) (map_of ?al1)"
    using ok_append [of "map_of ?al" "''greeting''" "[]" "''Hello''" "'':5''"] int_replies(5)
    by (simp add: E cstr_def [of "[]"] del: encode_reply.simps)
  moreover have "case_ok (map_of ?al1) (on [''APPEND'', ''greeting'', '' World''] (line '':11'')) (map_of ?al2)"
    using ok_append [of "map_of ?al1" "''greeting''" "''Hello''" "'' World''" "'':11''"] int_replies(8)
    by (simp add: E del: encode_reply.simps)
  moreover have "case_ok (map_of ?al2) (on [''GET'', ''greeting''] (bulk3 ''$11'' ''Hello World'')) (map_of ?al2)"
    by (rule ok_get [where w = "cstr ''Hello World''"]) (simp_all add: E bulk_replies)
  ultimately show "chained ?al string_steps"
    by (simp add: string_steps_def string_cases_def Let_def del: map_of.simps)
qed

section \<open>The keyspace\<close>

definition keyspace_steps :: "(cmd_case \<times> (bytes \<times> bytes) list) list" where
  "keyspace_steps = zip keyspace_cases
     (let k1 = [key ''k1'' ''v1'']; k2 = key ''k2'' ''v2'' # k1; k3 = key ''k3'' ''v3'' # k2
      in [[], [], k1, k2, k3, k3, k3, k3, k3, [], []])"

definition three_keys :: "bytes \<rightharpoonup> bytes" where
  "three_keys = map_of [key ''k3'' ''v3'', key ''k2'' ''v2'', key ''k1'' ''v1'']"

lemma dom_three_keys: "dom three_keys = {cstr ''k1'', cstr ''k2'', cstr ''k3''}"
  by (auto simp: three_keys_def key_def)

lemma card_three_keys: "card (dom three_keys) = 3"
  by (simp add: dom_three_keys cstr_eq_iff)

lemma three_in_order:
  assumes "set order = dom three_keys" "distinct order"
  shows "length order = 3" "filter (\<lambda>k. k = cstr ''k1'') order = [cstr ''k1'']"
proof -
  show "length order = 3" using assms card_three_keys by (metis distinct_card)
  have "cstr ''k1'' \<in> set order" using assms(1) by (simp add: dom_three_keys)
  then obtain us vs where o: "order = us @ cstr ''k1'' # vs" by (meson split_list)
  with assms(2) have "filter (\<lambda>k. k = cstr ''k1'') us = []" "filter (\<lambda>k. k = cstr ''k1'') vs = []"
    by (auto simp: filter_empty_conv)
  then show "filter (\<lambda>k. k = cstr ''k1'') order = [cstr ''k1'']" by (simp add: o)
qed

lemma matches_plain_name: "\<forall>c\<in>set pat. plain_char c \<Longrightarrow> matches (compile pat) s \<longleftrightarrow> s = pat"
  by (simp add: compile_plain matches_map_Lit)

lemma keys_k1: "case_ok three_keys (on [''KEYS'', ''k1''] (line ''*1'' @ bulk3 ''$2'' ''k1'')) three_keys"
proof (rule case_okI)
  have "\<forall>c\<in>set (cstr ''k1''). plain_char c" by (simp add: cstr_def plain_char_def glob_chars)
  then have p: "matches (compile (cstr ''k1'')) = (\<lambda>k. k = cstr ''k1'')" by (auto simp: matches_plain_name)
  show "exec order three_keys (map cstr [''KEYS'', ''k1'']) = (RArray [cstr ''k1''], three_keys)"
    if "set order = dom three_keys" "distinct order" for order
    using three_in_order [OF that] by (simp add: exec_eval p)
  show "encode_reply (RArray [cstr ''k1'']) = line ''*1'' @ bulk3 ''$2'' ''k1''"
    by (simp add: bulk_replies line_def, simp add: cstr_def)
qed (simp add: length_line)

lemma keys_nope: "case_ok three_keys (on [''KEYS'', ''nope*''] (line ''*0'')) three_keys"
proof (rule case_okI)
  have c: "compile (cstr ''nope*'') = [Lit 110, Lit 111, Lit 112, Lit 101, Star]"
    by (simp add: cstr_def glob_chars)
  have "\<not> matches (compile (cstr ''nope*'')) k" if "k \<in> dom three_keys" for k
    using that unfolding c dom_three_keys by (elim insertE emptyE) (simp_all add: cstr_def matches_Lit)
  then show "exec order three_keys (map cstr [''KEYS'', ''nope*'']) = (RArray [], three_keys)"
    if "set order = dom three_keys" for order
    using that by (simp add: exec_eval filter_empty_conv)
  show "encode_reply (RArray []) = line ''*0''"
    by (simp add: bulk_replies line_def, simp add: cstr_def)
qed (simp add: length_line)

text \<open>\<open>KEYS *\<close> lists the three keys in some order; the case checks the header and the length.\<close>

lemma keys_star: "case_ok three_keys (map cstr [''KEYS'', ''*''], Starting (line ''*3'') 28) three_keys"
proof -
  have m: "matches (compile (cstr ''*'')) s" for s
    by (simp add: cstr_def CH_STAR_def matches_Star_drop matches_Nil) (rule exI [of _ "length s"], simp)
  have "encode_reply (RArray order) = line ''*3'' @ concat (map bulk_bytes order) \<and>
      length (concat (map bulk_bytes order)) = 24"
    if "set order = dom three_keys" "distinct order" for order
  proof -
    have "length (bulk_bytes k) = 8" if "k \<in> dom three_keys" for k
      using that unfolding dom_three_keys
      by (elim insertE emptyE) (simp_all add: bulk_bytes_def cstr_def digits_eval size_of_def crlf_def)
    then have "map (\<lambda>k. length (bulk_bytes k)) order = map (\<lambda>_. 8) order" using that(1) by (intro map_cong) auto
    then have "map (\<lambda>k. length (bulk_bytes k)) order = replicate 3 8"
      by (simp add: map_replicate_const three_in_order(1) [OF that])
    then have "length (concat (map bulk_bytes order)) = 24" by (simp add: length_concat comp_def numeral_eq_Suc)
    with three_in_order(1) [OF that] show ?thesis
      by (simp add: bulk_replies line_def, simp add: cstr_def)
  qed
  then show ?thesis by (simp add: case_ok_def exec_eval m length_line del: encode_reply.simps)
qed

lemma keyspace_ok: "cases_ok (key ''greeting'' ''Hello World'' # key ''greeting'' ''Hello'' # key ''not_int'' ''hello'' # counted ''6'') keyspace_steps"
  (is "cases_ok ?al _")
proof (rule cases_okI)
  let ?k1 = "[key ''k1'' ''v1'']"
  let ?k2 = "key ''k2'' ''v2'' # ?k1"
  let ?k3 = "key ''k3'' ''v3'' # ?k2"
  show "sized ?al keyspace_steps"
    by (simp add: sized_def keyspace_steps_def keyspace_cases_def Let_def, simp add: counted_def sizes)
  have "case_ok mp (on [''FLUSHDB''] (line ''+OK'')) (map_of [])" for mp by (rule ok_flush)
  moreover have "case_ok (map_of []) (on [''DBSIZE''] (line '':0'')) (map_of [])"
    by (rule ok_dbsize) (simp_all add: int_lines)
  moreover have "case_ok (map_of []) (on [''SET'', ''k1'', ''v1''] (line ''+OK'')) (map_of ?k1)"
    "case_ok (map_of ?k1) (on [''SET'', ''k2'', ''v2''] (line ''+OK'')) (map_of ?k2)"
    "case_ok (map_of ?k2) (on [''SET'', ''k3'', ''v3''] (line ''+OK'')) (map_of ?k3)"
    by (rule ok_set)+
  moreover have "case_ok three_keys (on [''DBSIZE''] (line '':3'')) three_keys"
    by (rule ok_dbsize) (simp_all add: card_three_keys int_lines)
  ultimately show "chained ?al keyspace_steps"
    using keys_k1 keys_nope keys_star
    by (simp add: keyspace_steps_def keyspace_cases_def Let_def three_keys_def del: map_of.simps list.map)
qed

section \<open>The atomic variants, and the whole test\<close>

definition sk_first :: "(bytes \<times> bytes) list" where
  "sk_first = [key ''sk'' ''first'']"

definition atomic_steps :: "(cmd_case \<times> (bytes \<times> bytes) list) list" where
  "atomic_steps = zip atomic_cases
     (let gs1 = key ''gs'' ''v1'' # sk_first; gs2 = key ''gs'' ''v2'' # gs1
      in [sk_first, sk_first, sk_first, gs1, gs2, gs2])"

lemma atomic_ok: "cases_ok [] atomic_steps"
proof (rule cases_okI)
  let ?gs1 = "key ''gs'' ''v1'' # sk_first"
  let ?gs2 = "key ''gs'' ''v2'' # ?gs1"
  note E = exec_eval key_def sk_first_def
  show "sized [] atomic_steps"
    by (simp add: sized_def atomic_steps_def atomic_cases_def Let_def, simp add: sk_first_def sizes)
  have "case_ok (map_of []) (on [''SETNX'', ''sk'', ''first''] (line '':1'')) (map_of sk_first)"
    by (rule case_okI [where r = "RInt 1"]) (simp add: E, rule int_replies, simp add: length_line)
  moreover have "case_ok (map_of sk_first) (on [''SETNX'', ''sk'', ''second''] (line '':0'')) (map_of sk_first)"
    by (rule case_okI [where r = "RInt 0"]) (simp add: E, rule int_replies, simp add: length_line)
  moreover have "case_ok (map_of sk_first) (on [''GET'', ''sk''] (bulk3 ''$5'' ''first'')) (map_of sk_first)"
    by (rule ok_get [where w = "cstr ''first''"]) (simp_all add: E bulk_replies)
  moreover have "case_ok (map_of sk_first) (on [''GETSET'', ''gs'', ''v1''] (line ''$-1'')) (map_of ?gs1)"
    by (rule case_okI [where r = RNil]) (simp add: E, simp add: line_def, simp add: length_line)
  moreover have "case_ok (map_of ?gs1) (on [''GETSET'', ''gs'', ''v2''] (bulk3 ''$2'' ''v1'')) (map_of ?gs2)"
    by (rule case_okI [where r = "RBulk (cstr ''v1'')"]) (simp add: E, simp add: bulk_replies, simp add: length_line)
  moreover have "case_ok (map_of ?gs2) (on [''GET'', ''gs''] (bulk3 ''$2'' ''v2'')) (map_of ?gs2)"
    by (rule ok_get [where w = "cstr ''v2''"]) (simp_all add: E bulk_replies)
  ultimately show "chained [] atomic_steps"
    by (simp add: atomic_steps_def atomic_cases_def Let_def del: map_of.simps)
qed

definition all_steps :: "(cmd_case \<times> (bytes \<times> bytes) list) list" where
  "all_steps = basic_steps @ arithmetic_steps @ string_steps @ keyspace_steps @ atomic_steps"

lemmas steps_text = basic_steps_def basic_cases_def arithmetic_steps_def arithmetic_cases_def string_steps_def
  string_cases_def keyspace_steps_def keyspace_cases_def atomic_steps_def atomic_cases_def Let_def

lemma last_stores:
  "last_store al basic_steps = al0" "last_store al arithmetic_steps = key ''not_int'' ''hello'' # counted ''6''"
  "last_store al string_steps =
     key ''greeting'' ''Hello World'' # key ''greeting'' ''Hello'' # key ''not_int'' ''hello'' # counted ''6''"
  "last_store al keyspace_steps = []"
  "last_store al atomic_steps = key ''gs'' ''v2'' # key ''gs'' ''v1'' # sk_first"
  by (simp_all add: last_store_def steps_text)

lemma last_store_append: "last_store al (s1 @ s2) = last_store (last_store al s1) s2"
  by (simp add: last_store_def)

lemma all_ok: "cases_ok al0 all_steps"
  by (simp add: all_steps_def cases_ok_append last_stores basic_ok arithmetic_ok string_ok keyspace_ok atomic_ok)

lemma all_steps_cases: "map fst all_steps = command_cases" "length all_steps = 41"
  by (simp_all add: all_steps_def command_cases_def steps_text)

lemma all_last: "map_of (last_store al0 all_steps) = [cstr ''sk'' \<mapsto> cstr ''first'', cstr ''gs'' \<mapsto> cstr ''v2'']"
  by (simp add: all_steps_def last_store_append last_stores sk_first_def key_def)

text \<open>The store \<open>smoke_test\<close> leaves, and the store \<open>command_smoke_test\<close> leaves.\<close>

lemma command_smoke_test_passes:
  assumes "ht_inv st" "mem_plenty m" "ht_abs st = map_of al0"
  shows "case command_smoke_test m st of (counts, m', st') \<Rightarrow>
    counts = (41, 41) \<and> ht_inv st' \<and> mem_plenty m' \<and>
    ht_abs st' = [cstr ''sk'' \<mapsto> cstr ''first'', cstr ''gs'' \<mapsto> cstr ''v2'']"
proof -
  let ?c = "\<lparr>c_mem = m, c_store = st, c_out = bytebuf_init\<rparr>"
  have "ctx_inv ?c" "ctx_reply ?c = []" using assms(1) by (simp_all add: ctx_inv_def ctx_reply_def)
  with cmd_checks_pass [OF all_ok, of ?c 0 0] assms obtain c' where
    "cmd_checks command_cases ?c 0 0 = (41, 41, c')" "ctx_inv c'" "mem_plenty (c_mem c')"
    "ht_abs (c_store c') = [cstr ''sk'' \<mapsto> cstr ''first'', cstr ''gs'' \<mapsto> cstr ''v2'']"
    by (auto simp: all_steps_cases all_last)
  then show ?thesis
    by (simp add: command_smoke_test_def ctx_inv_def bytebuf_free_def)
qed

section \<open>The hash table test\<close>

text \<open>A sound table with memory left, given by its contents.\<close>

definition holds :: "mem \<Rightarrow> hashtable \<Rightarrow> (bytes \<rightharpoonup> bytes) \<Rightarrow> bool" where
  "holds m ht mp \<longleftrightarrow> ht_inv ht \<and> mem_plenty m \<and> ht_abs ht = mp"

lemma holds_set:
  assumes "holds m ht mp" "ht_set m ht k v = (r, m', ht')"
  shows "r = RC_OK" "holds m' ht' (mp(k \<mapsto> v))"
proof -
  note H = assms(1) [unfolded holds_def]
  show r: "r = RC_OK" using ht_set_plenty [OF _ _ assms(2)] H by blast
  show "holds m' ht' (mp(k \<mapsto> v))"
    using H kv.put_inv [OF _ assms(2)] kv.put_ok [OF _ assms(2) [unfolded r]] ht_set_plenty [OF _ _ assms(2)]
    by (simp add: holds_def)
qed

lemma holds_del:
  assumes "holds m ht mp" "ht_del m ht k = (b, m', ht')"
  shows "b \<longleftrightarrow> mp k \<noteq> None" "holds m' ht' (mp(k := None))"
  using assms kv.rem_inv [OF _ assms(2)] kv.rem_abs [OF _ assms(2)] kv.rem_hit [OF _ assms(2)]
    ht_del_plenty [OF assms(2)] by (auto simp: holds_def)

lemma holds_get: "holds m ht mp \<Longrightarrow> ht_get ht k = mp k"
  by (simp add: holds_def kv.lookup_abs)

lemma holds_count: "holds m ht mp \<Longrightarrow> ht_count ht = word_of_nat (card (dom mp))"
  using ht_count_card by (simp add: holds_def)

lemma smoke_names:
  "cstr ''hello'' \<noteq> cstr ''name''" "cstr ''name'' \<noteq> cstr ''hello''"
  "cstr ''hello'' \<noteq> bin_key" "cstr ''name'' \<noteq> bin_key" "bin_key \<noteq> cstr ''hello''" "bin_key \<noteq> cstr ''name''"
  by (simp_all add: cstr_def bin_key_def)

definition smoke_expected :: "observed list" where
  "smoke_expected =
    [Ob_Value (cstr ''hello'') (cstr ''world''), Ob_Value (cstr ''name'') (cstr ''redis-in-c''), Ob_Value bin_label bin_val,
     Ob_Value (cstr ''hello (overwritten)'') (cstr ''WORLD!''), Ob_Del True, Ob_Hit False, Ob_Count 2]"

lemma smoke_test_passes:
  assumes "mem_plenty m"
  shows "case smoke_test m ht_init of (m', st, obs) \<Rightarrow> obs = smoke_expected \<and> holds m' st (map_of al0)"
proof -
  have H0: "holds m ht_init Map.empty" using assms by (simp add: holds_def ht_init_inv ht_init_abs)
  obtain r1 m1 ht1 where s1: "ht_set m ht_init (cstr ''hello'') (cstr ''world'') = (r1, m1, ht1)" by (metis prod_cases3)
  note H1 = holds_set [OF H0 s1]
  obtain r2 m2 ht2 where s2: "ht_set m1 ht1 (cstr ''name'') (cstr ''redis-in-c'') = (r2, m2, ht2)" by (metis prod_cases3)
  note H2 = holds_set [OF H1(2) s2]
  obtain r3 m3 ht3 where s3: "ht_set m2 ht2 bin_key bin_val = (r3, m3, ht3)" by (metis prod_cases3)
  note H3 = holds_set [OF H2(2) s3]
  obtain r4 m4 ht4 where s4: "ht_set m3 ht3 (cstr ''hello'') (cstr ''WORLD!'') = (r4, m4, ht4)" by (metis prod_cases3)
  note H4 = holds_set [OF H3(2) s4]
  obtain b m5 ht5 where d: "ht_del m4 ht4 (cstr ''name'') = (b, m5, ht5)" by (metis prod_cases3)
  note H5 = holds_del [OF H4(2) d]
  have b: "b" using H5(1) by (simp add: smoke_names)
  have mp: "Map.empty(cstr ''hello'' \<mapsto> cstr ''world'', cstr ''name'' \<mapsto> cstr ''redis-in-c'', bin_key \<mapsto> bin_val,
      cstr ''hello'' \<mapsto> cstr ''WORLD!'', cstr ''name'' := None) = map_of al0"
    by (auto simp: al0_def smoke_names fun_eq_iff)
  then have H6: "holds m5 ht5 (map_of al0)" using H5(2) by simp
  have "ht_count ht5 = 2" using holds_count [OF H6] by (simp add: al0_def smoke_names)
  with b have "smoke_test m ht_init = (m5, ht5, smoke_expected)"
    by (simp add: smoke_test_def smoke_reads_def s1 s2 s3 s4 d H1(1) H2(1) H3(1) H4(1) smoke_expected_def
        holds_get [OF H3(2)] holds_get [OF H4(2)] holds_get [OF H5(2)] look_def look_again_def smoke_names)
  with H6 show ?thesis by simp
qed

text \<open>Both tests in the order \<open>main\<close> runs them.\<close>

lemma self_tests:
  assumes "mem_plenty m"
  shows "case smoke_test m ht_init of (m1, st1, obs) \<Rightarrow>
    (case command_smoke_test m1 st1 of (counts, m2, st2) \<Rightarrow>
       obs = smoke_expected \<and> counts = (41, 41) \<and>
       holds m2 st2 [cstr ''sk'' \<mapsto> cstr ''first'', cstr ''gs'' \<mapsto> cstr ''v2''])"
proof -
  obtain m1 st1 obs where s: "smoke_test m ht_init = (m1, st1, obs)" by (metis prod_cases3)
  have "obs = smoke_expected" "holds m1 st1 (map_of al0)" using smoke_test_passes [OF assms] by (simp_all add: s)
  then show ?thesis
    using command_smoke_test_passes [of st1 m1] by (auto simp: s holds_def split: prod.splits)
qed

end
