(* ===== verification/Report.thy ===== *)
theory Report
  imports Smoke_Commands
begin

text \<open>
  What the self tests of \<open>main.c\<close> print to \<open>stderr\<close>: the lines of the hash table test with their dumped
  values, one line per case of the parser and of the dispatcher test, and the summaries. The
  theory shows that a dumped value can be read back, and the text a start without failures prints.
\<close>

section \<open>Dumping a value\<close>

text \<open>\<open>%02x\<close> of a byte.\<close>

definition hex_digit :: "nat \<Rightarrow> byte" where
  "hex_digit n = (if n < 10 then 48 + word_of_nat n else 87 + word_of_nat n)"

definition fmt_02x :: "byte \<Rightarrow> bytes" where
  "fmt_02x b = [hex_digit (unat b div 16), hex_digit (unat b mod 16)]"

definition dump_byte :: "byte \<Rightarrow> bytes" where
  "dump_byte b = (if b \<ge> 0x20 \<and> b < 0x7f then [b] else [92, 120] @ fmt_02x b)"

definition dump_bytes :: "bytes \<Rightarrow> bytes" where
  "dump_bytes val = concat (map dump_byte val)"

definition dump_value :: "bytes \<Rightarrow> bytes \<Rightarrow> bytes" where
  "dump_value label val =
     cstr ''  '' @ label @ cstr '' ('' @ fmt_zu (size_of val) @ cstr '' bytes): '' @ [34] @ dump_bytes val @ [34, LF]"

section \<open>The lines of the tests\<close>

fun print_observed :: "observed \<Rightarrow> bytes" where
  "print_observed (Ob_Failed name) = cstr ''[smoke] ht_set('' @ name @ cstr '') failed (OOM)'' @ [LF]"
| "print_observed (Ob_Value label val) = dump_value label val"
| "print_observed (Ob_Missing label) = cstr ''  '' @ label @ cstr '': <missing>'' @ [LF]"
| "print_observed (Ob_Del deleted) = cstr ''  ht_del(name): '' @ cstr (if deleted then ''ok'' else ''miss'') @ [LF]"
| "print_observed (Ob_Hit hit) =
     cstr ''  ht_get(name) after delete: '' @ cstr (if hit then ''FOUND (bug!)'' else ''miss (expected)'') @ [LF]"
| "print_observed (Ob_Count n) = cstr ''[smoke] live entries: '' @ fmt_zu n @ [LF]"

definition smoke_log :: "observed list \<Rightarrow> bytes" where
  "smoke_log obs =
     cstr ''[smoke] running Phase 1 hashtable smoke test...'' @ [LF] @ concat (map print_observed obs)"

text \<open>\<open>%-30s\<close>.\<close>

definition pad30 :: "bytes \<Rightarrow> bytes" where
  "pad30 s = s @ replicate (30 - length s) 32"

definition check_line :: "string \<Rightarrow> bytes \<Rightarrow> bool \<Rightarrow> bytes" where
  "check_line tag name ok = cstr tag @ pad30 name @ cstr (if ok then '' OK'' else '' FAIL'') @ [LF]"

definition summary :: "string \<Rightarrow> nat \<Rightarrow> nat \<Rightarrow> bytes" where
  "summary tag pass cases_run =
     cstr tag @ fmt_d64 (int pass) @ cstr '' / '' @ fmt_d64 (int cases_run) @ cstr '' cases passed'' @ [LF]"

definition resp_names :: "bytes list" where
  "resp_names =
    [cstr ''mb: SET foo bar'', cstr ''mb: PING'', cstr ''inline: PING'',
     cstr ''inline: tabs/spaces/'' @ [92] @ cstr ''n'', cstr ''mb: SET foo <binary>'',
     cstr ''partial frame (NEED_MORE)'', cstr ''*-1 nil array (PROTOCOL_ERR)'', cstr ''bulk overrun (PROTOCOL_ERR)'']"

definition resp_log :: bytes where
  "resp_log =
     cstr ''[smoke] running Phase 2 step 2 RESP parser smoke test...'' @ [LF] @
     concat (map2 (check_line ''  [resp] '') resp_names (map resp_check resp_cases)) @
     (case resp_smoke_test of (pass, cases_run) \<Rightarrow> summary ''[resp] '' pass cases_run)"

definition cmd_names :: "bytes list" where
  "cmd_names = map cstr
    [''PING'', ''PING hello'', ''SET smoke_foo bar'', ''GET smoke_foo'', ''GET smoke_nope (miss)'',
     ''EXISTS foo nope foo'', ''DEL smoke_foo'', ''GET smoke_foo after DEL'', ''COMMAND -> empty array'',
     ''XYZ (unknown command)'', ''SET wrong arity'', ''FLUSHDB (reset state)'', ''INCR counter (new)'',
     ''INCR counter'', ''INCRBY counter 10'', ''DECRBY counter 5'', ''DECR counter'', ''SET not_int hello'',
     ''INCR not_int (error)'', ''STRLEN counter'', ''STRLEN missing'', ''APPEND greeting Hello (new)''] @
    [cstr ''APPEND greeting '' @ [34] @ cstr '' World'' @ [34]] @
   map cstr
    [''GET greeting (after APPEND)'', ''FLUSHDB (pre-keyspace)'', ''DBSIZE (empty)'', ''SET k1 v1'', ''SET k2 v2'',
     ''SET k3 v3'', ''DBSIZE (3 keys)'', ''KEYS k1 (literal match)'', ''KEYS nope* (no match)'',
     ''KEYS * (3 keys, any order)'', ''FLUSHDB (post-keyspace)'', ''DBSIZE (post-flush)'', ''SETNX sk first (new)'',
     ''SETNX sk second (no-op)'', ''GET sk (after SETNX no-op)'', ''GETSET gs v1 (new)'', ''GETSET gs v2 (replace)'',
     ''GET gs (after GETSET)'']"

text \<open>The lines of the cases, in the order they run.\<close>

fun cmd_lines :: "bytes list \<Rightarrow> cmd_case list \<Rightarrow> command_ctx \<Rightarrow> bytes" where
  "cmd_lines (name # names) (cs # rest) ctx =
     (case cmd_check cs ctx of (ok, ctx') \<Rightarrow> check_line ''  [cmd]  '' name ok @ cmd_lines names rest ctx')"
| "cmd_lines _ _ ctx = []"

definition cmd_log :: "mem \<Rightarrow> hashtable \<Rightarrow> bytes" where
  "cmd_log m st =
     cstr ''[smoke] running Phase 2 step 3 dispatcher smoke test...'' @ [LF] @
     cmd_lines cmd_names command_cases \<lparr>c_mem = m, c_store = st, c_out = bytebuf_init\<rparr> @
     (case command_smoke_test m st of ((pass, cases_run), _, _) \<Rightarrow> summary ''[cmd]  '' pass cases_run)"

text \<open>What \<open>main\<close> prints before the set-up of the network.\<close>

definition start_log :: "mem \<Rightarrow> bytes" where
  "start_log m =
     (case smoke_test m ht_init of (m1, st1, obs) \<Rightarrow> smoke_log obs @ resp_log @ cmd_log m1 st1)"

section \<open>Reading a dumped value\<close>

definition hex_val :: "byte \<Rightarrow> nat" where
  "hex_val c = (if c < 58 then unat c - 48 else unat c - 87)"

fun undump :: "bytes \<Rightarrow> bytes" where
  "undump [] = []"
| "undump (b # bs) =
     (if b \<noteq> 92 then b # undump bs
      else case bs of
        x # h # l # rest \<Rightarrow> word_of_nat (16 * hex_val h + hex_val l) # undump rest
      | _ \<Rightarrow> [])"

lemma nibble_cases: "n < 16 \<Longrightarrow> n \<in> {0, 1, 2, 3, 4, 5, 6, 7, 8, 9, 10, 11, 12, 13, 14, 15 :: nat}"
  unfolding insert_iff empty_iff by presburger

lemma hex_digit_val:
  assumes "n < 16"
  shows "hex_val (hex_digit n) = n" "hex_digit n \<ge> 0x20" "hex_digit n < 0x7f" "hex_digit n \<noteq> 92"
  using nibble_cases [OF assms] by (auto simp: hex_val_def hex_digit_def)

lemma undump_byte:
  assumes "b \<noteq> 92"
  shows "undump (dump_byte b @ rest) = b # undump rest"
proof (cases "b \<ge> 0x20 \<and> b < 0x7f")
  case False
  have "unat b < 256" using unsigned_less [of b] by simp
  then have "unat b div 16 < 16" "unat b mod 16 < 16" by auto
  note H = hex_digit_val(1) [OF this(1)] hex_digit_val(1) [OF this(2)]
  have "(word_of_nat (16 * (unat b div 16) + unat b mod 16) :: byte) = b" by simp
  then have "16 * word_of_nat (unat b div 16) + word_of_nat (unat b mod 16) = b"
    by (simp only: of_nat_add of_nat_mult of_nat_numeral)
  with False H assms show ?thesis unfolding dump_byte_def fmt_02x_def by simp
qed (simp add: dump_byte_def assms)

lemma dump_byte_printable: "c \<in> set (dump_byte b) \<Longrightarrow> 0x20 \<le> c \<and> c < 0x7f"
proof (cases "b \<ge> 0x20 \<and> b < 0x7f")
  case False
  assume c: "c \<in> set (dump_byte b)"
  have "unat b < 256" using unsigned_less [of b] by simp
  then have "unat b div 16 < 16" "unat b mod 16 < 16" by auto
  note H = hex_digit_val(2,3) [OF this(1)] hex_digit_val(2,3) [OF this(2)]
  from False c have "c \<in> {92, 120, hex_digit (unat b div 16), hex_digit (unat b mod 16)}"
    unfolding dump_byte_def fmt_02x_def by auto
  with H show ?thesis by auto
qed (simp add: dump_byte_def)

lemma undump_dump: "92 \<notin> set val \<Longrightarrow> undump (dump_bytes val) = val"
  by (induction val) (simp_all add: dump_bytes_def undump_byte)

text \<open>
  C39. \<open>dump_value\<close> prints one line of printable text whatever the bytes of the value: between the
  quotes stand only printable characters, at most four per byte, and a value without a backslash can be read
  back from them. (A backslash is printed as it is, so a value that contains one may print like another.)
\<close>

theorem dump_value_readable:
  "\<exists>body. dump_value label val = cstr ''  '' @ label @ cstr '' ('' @ fmt_zu (size_of val) @ cstr '' bytes): '' @ [34] @ body @ [34, LF] \<and>
     list_all (\<lambda>c. 0x20 \<le> c \<and> c < 0x7f) body \<and> length val \<le> length body \<and> length body \<le> 4 * length val \<and>
     (92 \<notin> set val \<longrightarrow> undump body = val)"
proof -
  have "length val \<le> length (dump_bytes val) \<and> length (dump_bytes val) \<le> 4 * length val"
    by (induction val) (auto simp: dump_bytes_def dump_byte_def fmt_02x_def)
  moreover have "list_all (\<lambda>c. 0x20 \<le> c \<and> c < 0x7f) (dump_bytes val)"
    using dump_byte_printable by (auto simp: dump_bytes_def list_all_iff)
  ultimately show ?thesis using undump_dump dump_value_def by blast
qed

theorem dump_value_readable_witness:
  "dump_value bin_label bin_val = cstr ''  a'' @ [92] @ cstr ''x00b (4 bytes): '' @ [34, 92] @ cstr ''x01'' @ [92] @
     cstr ''x02'' @ [92] @ cstr ''x00'' @ [92] @ cstr ''xff'' @ [34, LF] \<and>
   undump ([92] @ cstr ''x01'' @ [92] @ cstr ''x02'' @ [92] @ cstr ''x00'' @ [92] @ cstr ''xff'') = bin_val"
proof -
  have d: "dump_value bin_label bin_val = cstr ''  a'' @ [92] @ cstr ''x00b (4 bytes): '' @ [34, 92] @ cstr ''x01'' @ [92] @
     cstr ''x02'' @ [92] @ cstr ''x00'' @ [92] @ cstr ''xff'' @ [34, LF]"
    by (simp add: dump_value_def dump_bytes_def dump_byte_def fmt_02x_def hex_digit_def bin_val_def bin_label_def
        fmt_zu_def size_of_def cstr_def word_le_nat_alt)
  have "92 \<notin> set bin_val" by (simp add: bin_val_def)
  with dump_value_readable [of bin_label bin_val] d show ?thesis
    by (auto simp: bin_label_def fmt_zu_def size_of_def cstr_def bin_val_def)
qed

section \<open>A start without failures\<close>

lemma cmd_lines_pass:
  "cases_ok al steps \<Longrightarrow> ctx_inv c \<Longrightarrow> mem_plenty (c_mem c) \<Longrightarrow> ctx_reply c = [] \<Longrightarrow>
   ht_abs (c_store c) = map_of al \<Longrightarrow> length names = length steps \<Longrightarrow>
   cmd_lines names (map fst steps) c = concat (map (\<lambda>n. check_line ''  [cmd]  '' n True) names)"
proof (induction steps arbitrary: al c names)
  case (Cons s steps)
  obtain cs al' where s: "s = (cs, al')" by fastforce
  with Cons.prems cmd_check_passes [of c al cs "map_of al'"] obtain c1 where
    c1: "cmd_check cs c = (True, c1)" "ctx_inv c1" "mem_plenty (c_mem c1)" "ctx_reply c1 = []"
    "ht_abs (c_store c1) = map_of al'" by auto
  from Cons.prems(6) obtain n names' where n: "names = n # names'" "length names' = length steps" by (cases names) auto
  have "cases_ok al' steps" using Cons.prems(1) s by simp
  from Cons.IH [OF this c1(2-5) n(2)] c1(1) s n(1) show ?case by simp
qed simp

definition start_expected :: bytes where
  "start_expected =
     smoke_log smoke_expected @
     cstr ''[smoke] running Phase 2 step 2 RESP parser smoke test...'' @ [LF] @
     concat (map (\<lambda>n. check_line ''  [resp] '' n True) resp_names) @ cstr ''[resp] 8 / 8 cases passed'' @ [LF] @
     cstr ''[smoke] running Phase 2 step 3 dispatcher smoke test...'' @ [LF] @
     concat (map (\<lambda>n. check_line ''  [cmd]  '' n True) cmd_names) @ cstr ''[cmd]  41 / 41 cases passed'' @ [LF]"

lemma all_resp_checks: "map resp_check resp_cases = replicate 8 True"
  using parse_case_1 parse_case_2 parse_case_3 parse_case_4 parse_case_5 parse_case_6 parse_case_7 parse_case_8
  by (simp add: resp_cases_def numeral_eq_Suc del: resp_check.simps)

lemma map2_replicate: "length xs = n \<Longrightarrow> map2 f xs (replicate n y) = map (\<lambda>x. f x y) xs"
  by (induction xs arbitrary: n) auto

lemma resp_log_passes:
  "resp_log = cstr ''[smoke] running Phase 2 step 2 RESP parser smoke test...'' @ [LF] @
     concat (map (\<lambda>n. check_line ''  [resp] '' n True) resp_names) @ cstr ''[resp] 8 / 8 cases passed'' @ [LF]"
proof -
  have "length resp_names = 8" by (simp add: resp_names_def)
  then have "map2 (check_line ''  [resp] '') resp_names (map resp_check resp_cases) =
      map (\<lambda>n. check_line ''  [resp] '' n True) resp_names"
    unfolding all_resp_checks by (rule map2_replicate)
  moreover have "summary ''[resp] '' 8 8 = cstr ''[resp] 8 / 8 cases passed'' @ [LF]"
    by (simp add: summary_def fmt_d64_def cstr_def)
  ultimately show ?thesis by (simp add: resp_log_def resp_cases_pass)
qed

lemma cmd_log_passes:
  assumes "ht_inv st" "mem_plenty m" "ht_abs st = map_of al0"
  shows "cmd_log m st = cstr ''[smoke] running Phase 2 step 3 dispatcher smoke test...'' @ [LF] @
     concat (map (\<lambda>n. check_line ''  [cmd]  '' n True) cmd_names) @ cstr ''[cmd]  41 / 41 cases passed'' @ [LF]"
proof -
  let ?c = "\<lparr>c_mem = m, c_store = st, c_out = bytebuf_init\<rparr>"
  have c: "ctx_inv ?c" "ctx_reply ?c = []" using assms(1) by (simp_all add: ctx_inv_def ctx_reply_def)
  have "length cmd_names = length all_steps" by (simp add: cmd_names_def all_steps_cases)
  from cmd_lines_pass [OF all_ok c(1) _ c(2) _ this] assms
  have "cmd_lines cmd_names command_cases ?c = concat (map (\<lambda>n. check_line ''  [cmd]  '' n True) cmd_names)"
    by (simp add: all_steps_cases)
  moreover have "summary ''[cmd]  '' 41 41 = cstr ''[cmd]  41 / 41 cases passed'' @ [LF]"
    by (simp add: summary_def fmt_d64_def cstr_def dec_digits_big)
  ultimately show ?thesis
    using command_smoke_test_passes [OF assms] by (auto simp: cmd_log_def split: prod.splits)
qed

lemma start_log_passes:
  assumes "mem_plenty m"
  shows "start_log m = start_expected"
proof -
  obtain m1 st1 obs where s: "smoke_test m ht_init = (m1, st1, obs)" by (metis prod_cases3)
  have "obs = smoke_expected" "holds m1 st1 (map_of al0)" using smoke_test_passes [OF assms] by (simp_all add: s)
  then show ?thesis
    by (simp add: start_log_def s start_expected_def resp_log_passes cmd_log_passes holds_def)
qed

end
