(* ===== verification/Spec2Isabelle.thy ===== *)
theory Spec2Isabelle
  imports Heap_Laws Store_Laws Bytebuf_Heap Wire_Laws Command_Laws Command_Types Command_Heap Net_Laws Program Program_Heap Report
begin

text \<open>
  Redis-in-C is a single-threaded key/value server that speaks RESP2: \<open>main.c\<close> runs three self
  tests and starts the event loop of \<open>networking.c\<close>; the loop reads bytes from its clients into
  growable buffers (\<open>bytebuf.c\<close>), cuts them into requests (\<open>resp.c\<close>), executes these on one hash
  table (\<open>command.c\<close>, \<open>hashtable.c\<close>) and writes the replies back.

  \<^bold>\<open>Layout.\<close> One theory per component holds its data and operations in the order of the source,
  its invariant and its lemmas; a theory named \<open>..._Laws\<close> holds the properties of a component.
  \<^item> \<open>Redis_Base\<close>: machine types (\<open>size_t\<close> is a 64-bit word), the allocator as explicit state with
    an oracle of failures (\<open>malloc\<close>, \<open>mfree\<close>, \<open>mrealloc\<close>), ownership of blocks beside a \<open>frame\<close>, the
    rest of the program (\<open>owns\<close>), decimal conversions of \<open>printf\<close>.
  \<^item> \<open>Interfaces\<close>: the contracts as locales. \<open>kv_store\<close> is what the command layer asks of the
    table, \<open>byte_queue\<close> and \<open>byte_fifo\<close> what the serializers and the loop ask of a buffer.
    \<open>Hashtable\<close> interprets the first (\<open>kv\<close>), \<open>Bytebuf\<close> the last (\<open>bb\<close>), on the definitions of the model.
  \<^item> \<open>Hashtable\<close> (\<open>hashtable.h\<close>, \<open>hashtable.c\<close>), \<open>Store_Laws\<close>: 1024 chains of entries; an entry
    carries its bytes and the addresses of its three blocks. \<open>Ht_Heap\<close>, \<open>Heap_Laws\<close>: the same file
    with its pointers, nodes and byte blocks in an explicit store (\<open>p_set\<close>, \<open>p_del\<close>, \<open>p_get\<close>,
    \<open>p_destroy\<close>, \<open>p_scan\<close>), where a bad access or an endless walk has no result.
  \<^item> \<open>Bytebuf\<close> (\<open>bytebuf.h\<close>, \<open>bytebuf.c\<close>), \<open>Buffer_Laws\<close>: the array, capacity, length and offset, the
    doubling loop as a partial function that may not return, compaction. \<open>Bytebuf_Heap\<close>: the same file with the
    array as a block of a store, its bytes indeterminate until written (\<open>p_bytebuf_append\<close>, \<open>p_ensure_tail_cap\<close>).
  \<^item> \<open>Resp_Parse\<close> (\<open>resp.h\<close> and the parser of \<open>resp.c\<close>): the index loops of the code.
    \<open>Resp_Ref\<close> is a reference parser on lists of bytes with the proof that both agree,
    \<open>Resp_Props\<close> its properties and an encoder of requests; \<open>Resp_Reply\<close> the serializers, the
    replies as data and a client's reader; \<open>Wire_Laws\<close> the properties of both directions.
  \<^item> \<open>Glob\<close>, \<open>Command\<close> (\<open>command.c\<close>): the matcher of \<open>KEYS\<close>, the helpers, the seventeen handlers, the
    dispatch table and \<open>command_execute\<close>. \<open>Command_Spec\<close> says what the commands mean on a finite
    map (\<open>decode\<close>, \<open>run\<close>, \<open>exec\<close>), \<open>Command_Refine\<close> proves handler by handler that the code does
    that, \<open>Command_Laws\<close> has the properties; \<open>Command_Types\<close> gives the replies the types that the
    comments of the handlers announce. \<open>Command_Heap\<close>: the same handlers on the table of \<open>Ht_Heap\<close>
    (\<open>p_cmd_get\<close>, \<open>p_cmd_getset\<close>, \<open>p_command_execute\<close>), with borrowed pointers, temporary blocks, \<open>memcpy\<close>
    and \<open>free\<close>.
  \<^item> \<open>Networking\<close> (\<open>networking.c\<close>): connections, the globals and the part of the kernel the code
    talks to are one record \<open>world\<close>. \<open>Net_Session\<close> has the abstract session (requests in, replies out)
    and the dispatch loop, \<open>Net_Handlers\<close> the contracts of \<open>handle_read\<close> and \<open>handle_write\<close>,
    \<open>Net_Serving\<close> their progress when nothing the server depends on fails, \<open>Net_Server\<close> the invariant
    of the server over accepts, events, batches, runs and the teardown; what a property of a run has to
    keep is the locale \<open>server_property\<close>, interpreted on the invariant and, in \<open>Net_History\<close>, on the
    one history of executed requests that a run of the loop with many clients makes. \<open>Net_Laws\<close>
    has the properties. \<open>Net_Heap\<close>: the dispatch loop, \<open>handle_read\<close> and \<open>net_run\<close> again, with the
    handlers of \<open>Command_Heap\<close> on the table in the store (\<open>p_dispatch_frames\<close>, \<open>p_net_batch\<close>, \<open>p_net_run\<close>).
    The loop of \<open>net_run\<close> is split at \<open>epoll_wait\<close> (\<open>net_wait\<close>, \<open>net_loop\<close>), so that a signal can arrive
    between the test of the flag and the wait, where it is missed (\<open>Ew_Early\<close>).
  \<^item> \<open>Server_Main\<close>, \<open>Smoke\<close>, \<open>Program\<close> (\<open>main.c\<close>): \<open>net_init\<close> to the exit
    code, the self tests, and both together; \<open>Smoke_Commands\<close> shows that the self tests pass, \<open>Report\<close>
    has what they print (\<open>dump_value\<close>, the check lines, the summaries). \<open>Program_Heap\<close>: the whole of
    \<open>main\<close> on the table in the store (\<open>p_main_program\<close>).

  \<^bold>\<open>How state and operations correspond.\<close> A function that mutates its arguments takes them and
  returns them; the status \<open>0\<close> or \<open>-1\<close> is \<open>RC_OK\<close> or \<open>RC_ERR\<close>; a predicate is a \<open>bool\<close>. Byte strings
  with a length are lists of bytes. A pointer into a buffer is an offset. A borrowed pointer into
  the store is the bytes it points to at the time they are read; \<open>Heap_Laws\<close> says how long such a
  pointer can be read, and \<open>Command_Heap\<close>, where it is a pointer, that no handler reads it later. Every allocation takes the
  allocator and may fail; every free names the block it frees, so that leaks, double frees and
  the use of a freed connection are facts of the model. What the kernel decides (results of
  \<open>read\<close>, \<open>write\<close>, \<open>accept\<close>, \<open>epoll_ctl\<close>, \<open>epoll_wait\<close>, the set-up calls, the arrival of signals) is an
  argument, so the theorems quantify over it; \<open>batch_ok\<close> and \<open>run_ok\<close> state what \<open>epoll_wait\<close>
  documents of a batch. Errors are values on every path.

  \<^bold>\<open>What the lemmas show.\<close> Each component keeps its invariant and its ownership of blocks; the table
  is a map and the buffer a queue; the pointer code of the table refines its list model and never
  touches freed memory, and neither do the handlers on top of it; the pointer code of the buffer stays inside its
  array and reads no byte that was not written; the parser equals its reference, is insensitive to how the
  stream is cut, and inverts the encoder; every command does what its specification says or
  reports that memory ran out with nothing changed, and its reply has the type announced for it; a
  connection's output is the replies to its input in order, and a client that keeps to the
  protocol gets them all; the requests of all clients together are executed in one order on the one
  store, and no open connection was sent a byte of another's replies; the loops of the program return; a run of
  the whole program gives everything back, and on linked nodes and byte blocks it never touches memory of
  the table that is not there; what the self tests print is exact. The last properties exhibit where the code departs from its comments.

  \<^bold>\<open>Bounds.\<close> Sizes in memory are below \<open>MEM_MAX\<close> (a 47-bit address space): \<open>in_memory\<close> and \<open>fits\<close>
  say so for a request and for a run, and make every \<open>size_t\<close> sum of \<open>command.c\<close> exact; the guards
  against wrap-around in the code are modelled and shown not to be needed below that
  bound. Addresses are never reused in the model, so that in a run
  an address names one connection. No fuel is used: loops are structural or
  have a measure, except the doubling loop of the buffer and the dispatch loop, which
  are partial functions whose termination is proved.

  \<^bold>\<open>Not modelled.\<close> The diagnostics of \<open>networking.c\<close> on \<open>stderr\<close> (\<open>perror\<close> with texts of the C library, the peer's
  printed address) and the one line of \<open>main\<close> when the set-up of the network failed; that a write to \<open>stderr\<close> may fail; the values of socket options and addresses; \<open>sigaction\<close> and \<open>signal\<close> beyond their effect
  (the flag is set, \<open>EPIPE\<close> is a result of \<open>write\<close>); a signal before the first test of the flag ends the loop as one in
  the first wait does. The bytes of a grown array that were not yet
  written are zeros in \<open>Bytebuf\<close>; \<open>Bytebuf_Heap\<close> shows that nothing reads them.
\<close>

section \<open>Properties of the whole program\<close>

text \<open>
  C6. A run of \<open>main\<close>, self tests and server together, under whatever pattern of allocation
  failures and whatever the kernel reports. It is still waiting for events only if \<open>epoll_wait\<close> has not
  failed, no signal reached the loop in a wait or while it handled events, and \<open>epoll_wait\<close> has not
  returned since a signal that arrived between the test of the flag and the blocking of the call; such missed signals by themselves
  do leave it waiting. When it returns, every block it allocated has been freed
  once, every descriptor it opened has been closed once, and the exit code is 0 exactly when the
  set-up of the network succeeded: it is 0 after a fatal error of \<open>epoll_wait\<close> too, where \<open>networking.h\<close>
  announces a failure.
\<close>

theorem program_ends_clean:
  assumes "distinct fds" "fits Map.empty (1000 + run_bytes rs)"
    "\<And>w. net_init se (snd (main_store (mem_init os))) (world_start (fst (main_store (mem_init os))) fds ctl) = (RC_OK, w) \<Longrightarrow> run_ok rs w"
  shows "(case main_program se rs (mem_init os) fds ctl of
      None \<Rightarrow> \<not> list_ex wait_stops rs \<and>
        (\<forall>before after. rs = before @ Ew_Early # after \<longrightarrow> \<not> list_ex (\<lambda>r. r \<noteq> Ew_Early) after)
    | Some (code, w') \<Rightarrow> m_live (w_mem w') = {} \<and> \<not> m_bad (w_mem w') \<and> set (w_open w') = set fds \<and> \<not> w_bad_close w' \<and>
        (code = 0 \<longleftrightarrow>
         fst (net_init se (snd (main_store (mem_init os))) (world_start (fst (main_store (mem_init os))) fds ctl)) = RC_OK)) \<and>
    (list_all (\<lambda>r. r = Ew_Early) rs \<longrightarrow>
     fst (net_init se (snd (main_store (mem_init os))) (world_start (fst (main_store (mem_init os))) fds ctl)) = RC_OK \<longrightarrow>
     main_program se rs (mem_init os) fds ctl = None)"
proof -
  obtain m st where m: "main_store (mem_init os) = (m, st)" by fastforce
  note run = assms(3) [unfolded m fst_conv snd_conv]
  have "main_program se rs (mem_init os) fds ctl = None \<and> \<not> run_stops rs \<or>
    (\<exists>code w'. main_program se rs (mem_init os) fds ctl = Some (code, w') \<and> all_returned (set fds) w' \<and>
       (code = 0 \<longleftrightarrow> fst (net_init se st (world_start m fds ctl)) = RC_OK))"
    by (rule main_program_cases [OF assms(1,2) m]) (rule run)
  moreover have "main_program se rs (mem_init os) fds ctl = main_serve se rs st (world_start m fds ctl)"
    by (simp add: main_program_def m)
  ultimately show ?thesis unfolding run_stops_iff by (auto simp: m all_returned_def dest: main_serve_missed_signals)
qed

theorem program_ends_clean_witness:
  "\<exists>code w'. main_program setup_ok [Ew_Early, Ew_Intr False] (mem_init [True, False]) [0, 1, 2] [] = Some (code, w') \<and>
     m_live (w_mem w') = {} \<and> set (w_open w') = {0, 1, 2}"
proof -
  let ?rs = "[Ew_Early, Ew_Intr False]"
  have f: "fits Map.empty (1000 + run_bytes ?rs)"
    using fits_empty [of 1000] by (simp add: run_bytes_def ht_init_abs)
  have ok: "run_ok ?rs w" for w by (simp add: run_ok_def)
  have "distinct [0, 1, 2 :: nat]" by simp
  note P = program_ends_clean [OF this f ok, of setup_ok "[True, False]" "[]"]
  show ?thesis
  proof (cases "main_program setup_ok ?rs (mem_init [True, False]) [0, 1, 2] []")
    case None
    with P have "\<forall>before after. ?rs = before @ Ew_Early # after \<longrightarrow> \<not> list_ex (\<lambda>r. r \<noteq> Ew_Early) after" by simp
    from this [THEN spec [of _ "[]"], THEN spec [of _ "[Ew_Intr False]"]] show ?thesis by simp
  next
    case (Some x)
    with P show ?thesis by (cases x) simp
  qed
qed

text \<open>
  C34. The set-up is all or nothing: \<open>net_init\<close> either leaves the server listening with its
  invariant, or fails with every descriptor it opened closed again and nothing allocated; which
  call fails makes no difference.
\<close>

theorem net_init_all_or_nothing:
  assumes "ht_inv store" "owns m (ht_blocks store) alone" "distinct fds"
  shows "case net_init se store (world_start m fds ctl) of (r, w) \<Rightarrow>
    w_store w = store \<and> w_conns w = [] \<and>
    (if r = RC_OK then net_inv (set fds) w
     else set (w_open w) = set fds \<and> \<not> w_bad_close w \<and> w_listen_fd w = None \<and> w_epoll_fd w = None \<and>
       owns (w_mem w) (ht_blocks store) alone)"
proof -
  obtain r w where i: "net_init se store (world_start m fds ctl) = (r, w)" by fastforce
  have "(if r = RC_OK then net_inv else stopped) (set fds) w \<and> w_store w = store \<and> w_conns w = []"
    using net_init_cases [OF _ _ _ _ _ _ assms(1) _ i] assms(2,3) by (simp add: world_start_def)
  then show ?thesis by (auto simp: i stopped_def)
qed

theorem net_init_all_or_nothing_witness:
  "case net_init (setup_ok\<lparr>se_bind := False\<rparr>) ht_init (world_start (mem_init []) [0, 1, 2] []) of
     (r, w) \<Rightarrow> r = RC_ERR \<and> set (w_open w) = {0, 1, 2} \<and> w_listen_fd w = None"
proof -
  have "owns (mem_init []) (ht_blocks ht_init) alone" by simp
  moreover have "fst (net_init (setup_ok\<lparr>se_bind := False\<rparr>) ht_init (world_start (mem_init []) [0, 1, 2] [])) = RC_ERR"
    by (simp add: setup_ok_def net_init_def setup_listener_def sys_open_def world_start_def Let_def
        next_free.simps set_nonblock_def)
  ultimately show ?thesis
    using net_init_all_or_nothing [OF ht_init_inv, of "mem_init []" "[0, 1, 2]" "setup_ok\<lparr>se_bind := False\<rparr>" "[]"]
    by (auto split: prod.splits)
qed

text \<open>
  C40. The self tests that \<open>main\<close> runs before the server starts all pass when no allocation fails:
  the hash table test prints the values it expects, the eight parser cases and the forty-one
  dispatcher cases are counted as passed, and the text of all three is the one of a start without failures. They leave the keys \<open>sk\<close> and \<open>gs\<close> in the store
  that the server then serves.
\<close>

theorem self_tests_pass:
  assumes "mem_plenty m"
  shows "case smoke_test m ht_init of (m1, st1, obs) \<Rightarrow>
    (case command_smoke_test m1 st1 of (counts, m2, st2) \<Rightarrow>
       obs = smoke_expected \<and> resp_smoke_test = (8, 8) \<and> counts = (41, 41) \<and> start_log m = start_expected \<and> ht_inv st2 \<and>
       ht_abs st2 = [cstr ''sk'' \<mapsto> cstr ''first'', cstr ''gs'' \<mapsto> cstr ''v2''])"
  using self_tests [OF assms] start_log_passes [OF assms] by (auto simp: holds_def resp_cases_pass split: prod.splits)

theorem self_tests_pass_witness:
  "case main_store (mem_init []) of (m, st) \<Rightarrow>
     ht_abs st = [cstr ''sk'' \<mapsto> cstr ''first'', cstr ''gs'' \<mapsto> cstr ''v2'']"
  using self_tests_pass [of "mem_init []"] by (auto simp: main_store_def split: prod.splits)

end
